(* ===== verification/Prelude.thy ===== *)
theory Prelude
  imports Main "HOL-Library.Word" "HOL-Library.AList" "HOL-Library.Code_Target_Nat"
begin

text \<open>
  Shared vocabulary of the development: the fixed-width integers the sources use, the C string
  and character-class functions of the standard library, the decimal conversions
  (\<^verbatim>\<open>%d\<close>, \<^verbatim>\<open>atoi\<close>), and the generic list and option lemmas the component theories rely on.

  Conventions. A C string is a HOL \<open>string\<close> (a list of 8-bit characters). A string that is read
  up to its terminator is modelled without the terminator; where the code may hold embedded
  \<^verbatim>\<open>NUL\<close> bytes (a JSON string with an explicit length) the list keeps them and \<open>cstr\<close> gives what a
  C reader sees. A null pointer is \<open>None\<close>. The character classes are those of the C locale.
  Memory allocation succeeds throughout.
\<close>

unbundle bit_operations_syntax

named_theorems consume \<open>length bounds of what a parsing step leaves unread\<close>
named_theorems inv_intros \<open>preservation of the component invariants\<close>
named_theorems ctype_simps \<open>character classes unfolded to comparisons of codes\<close>

type_synonym u8 = "8 word"
type_synonym u32 = "32 word"
type_synonym u64 = "64 word"
type_synonym i32 = "32 word"

abbreviation NUL :: char where "NUL \<equiv> CHR 0x00"
abbreviation TAB :: char where "TAB \<equiv> CHR 0x09"
abbreviation LF :: char where "LF \<equiv> CHR 0x0A"
abbreviation VT :: char where "VT \<equiv> CHR 0x0B"
abbreviation FF :: char where "FF \<equiv> CHR 0x0C"
abbreviation CR :: char where "CR \<equiv> CHR 0x0D"
abbreviation BS :: char where "BS \<equiv> CHR 0x08"
abbreviation QUOT :: char where "QUOT \<equiv> CHR 0x22"
abbreviation SQUOT :: char where "SQUOT \<equiv> CHR 0x27"
abbreviation BSLASH :: char where "BSLASH \<equiv> CHR 0x5C"

section \<open>Lists and options\<close>

lemma option_eqI: "(\<And>v. a = Some v \<longleftrightarrow> b = Some v) \<Longrightarrow> a = b"
  by (cases a; cases b) auto

lemma alist_update_new: "k \<notin> fst ` set al \<Longrightarrow> AList.update k v al = al @ [(k, v)]"
  by (induction al) auto

section \<open>Characters\<close>

definition code :: "char \<Rightarrow> nat" where
  "code c = of_char c"

definition isspace :: "char \<Rightarrow> bool" where
  "isspace c \<longleftrightarrow> c = CHR 0x20 \<or> c = TAB \<or> c = LF \<or> c = VT \<or> c = FF \<or> c = CR"

definition isdigit :: "char \<Rightarrow> bool" where
  "isdigit c \<longleftrightarrow> 48 \<le> code c \<and> code c \<le> 57"

definition isupper :: "char \<Rightarrow> bool" where
  "isupper c \<longleftrightarrow> 65 \<le> code c \<and> code c \<le> 90"

definition islower :: "char \<Rightarrow> bool" where
  "islower c \<longleftrightarrow> 97 \<le> code c \<and> code c \<le> 122"

definition isalpha :: "char \<Rightarrow> bool" where
  "isalpha c \<longleftrightarrow> isupper c \<or> islower c"

definition isalnum :: "char \<Rightarrow> bool" where
  "isalnum c \<longleftrightarrow> isalpha c \<or> isdigit c"

lemmas ctype_defs [ctype_simps] = isspace_def isdigit_def isupper_def islower_def isalpha_def
  isalnum_def code_def

lemma code_bound [simp]: "code c < 256"
  by (simp add: code_def)

lemma code_le: "code c \<le> 255"
  using code_bound [of c] by linarith

lemma code_inject [simp]: "code c = code d \<longleftrightarrow> c = d"
  by (simp add: code_def)

lemma char_of_code [simp]: "char_of (code c) = c"
  by (simp add: code_def)

lemma code_char_of [simp]: "code (char_of (n :: nat)) = n mod 256"
  by (simp add: code_def)

section \<open>C strings\<close>

definition cstr :: "string \<Rightarrow> string" where
  "cstr s = takeWhile (\<lambda>c. c \<noteq> NUL) s"

definition no_nul :: "string \<Rightarrow> bool" where
  "no_nul s \<longleftrightarrow> NUL \<notin> set s"

definition strnlen :: "string \<Rightarrow> nat \<Rightarrow> nat" where
  "strnlen s n = min (length (cstr s)) n"

definition strcmp_eq :: "string \<Rightarrow> string \<Rightarrow> bool" where
  "strcmp_eq s t \<longleftrightarrow> cstr s = cstr t"

definition strncmp_eq :: "string \<Rightarrow> string \<Rightarrow> nat \<Rightarrow> bool" where
  "strncmp_eq s t n \<longleftrightarrow> take n (cstr s) = take n (cstr t)"

text \<open>\<^verbatim>\<open>snprintf (buf, n, "%s", s)\<close> for \<^verbatim>\<open>n > 0\<close>: at most \<^verbatim>\<open>n - 1\<close> characters and a terminator.\<close>

definition snprintf_str :: "nat \<Rightarrow> string \<Rightarrow> string" where
  "snprintf_str n s = take (n - 1) (cstr s)"

lemma cstr_no_nul [simp]: "no_nul s \<Longrightarrow> cstr s = s"
  unfolding no_nul_def cstr_def by (induction s) auto

lemma no_nul_cstr [simp]: "no_nul (cstr s)"
  unfolding no_nul_def cstr_def by (induction s) auto

lemma cstr_cstr [simp]: "cstr (cstr s) = cstr s"
  by simp

lemma no_nul_Nil [simp]: "no_nul []"
  by (simp add: no_nul_def)

lemma no_nul_Cons [simp]: "no_nul (c # s) \<longleftrightarrow> c \<noteq> NUL \<and> no_nul s"
  by (auto simp: no_nul_def)

lemma no_nul_append [simp]: "no_nul (s @ t) \<longleftrightarrow> no_nul s \<and> no_nul t"
  by (auto simp: no_nul_def)

lemma no_nul_take [simp]: "no_nul s \<Longrightarrow> no_nul (take n s)"
  by (auto simp: no_nul_def dest: in_set_takeD)

lemma no_nul_drop [simp]: "no_nul s \<Longrightarrow> no_nul (drop n s)"
  by (auto simp: no_nul_def dest: in_set_dropD)

lemma cstr_Nil [simp]: "cstr [] = []"
  by (simp add: cstr_def)

lemma cstr_Cons [simp]: "cstr (c # s) = (if c = NUL then [] else c # cstr s)"
  by (simp add: cstr_def)

lemma length_cstr_le [simp]: "length (cstr s) \<le> length s"
  unfolding cstr_def by (rule length_takeWhile_le)

lemma cstr_append_nul: "no_nul s \<Longrightarrow> cstr (s @ NUL # t) = s"
  by (induction s) auto

lemma strnlen_le_bound: "strnlen s n \<le> n"
  by (simp add: strnlen_def)

lemma length_snprintf_str: "n > 0 \<Longrightarrow> length (snprintf_str n s) < n"
  by (simp add: snprintf_str_def min_def) linarith

lemma no_nul_snprintf_str [simp]: "no_nul (snprintf_str n s)"
  by (simp add: snprintf_str_def)

lemma snprintf_str_fits: "no_nul s \<Longrightarrow> length s < n \<Longrightarrow> snprintf_str n s = s"
  by (simp add: snprintf_str_def)

section \<open>Decimal conversions\<close>

fun show_nat :: "nat \<Rightarrow> string" where
  "show_nat n = (if n < 10 then [char_of (48 + n)] else show_nat (n div 10) @ [char_of (48 + n mod 10)])"

declare show_nat.simps [simp del]

definition show_int :: "int \<Rightarrow> string" where
  "show_int i = (if i < 0 then CHR ''-'' # show_nat (nat (- i)) else show_nat (nat i))"

definition digit_val :: "char \<Rightarrow> nat" where
  "digit_val c = code c - 48"

fun read_digits :: "nat \<Rightarrow> string \<Rightarrow> nat" where
  "read_digits acc [] = acc"
| "read_digits acc (c # s) = (if isdigit c then read_digits (10 * acc + digit_val c) s else acc)"

text \<open>\<^verbatim>\<open>strtol (s, NULL, 10)\<close>: leading white space, a sign, digits; saturating at the 64-bit range.\<close>

definition strtol10 :: "string \<Rightarrow> int" where
  "strtol10 s =
     (let t = dropWhile isspace s;
          (neg, u) = (case t of
             [] \<Rightarrow> (False, [])
           | c # r \<Rightarrow> if c = CHR ''-'' then (True, r) else if c = CHR ''+'' then (False, r) else (False, t));
          v = int (read_digits 0 u);
          w = (if neg then - v else v)
      in max (- (2 ^ 63)) (min (2 ^ 63 - 1) w))"

text \<open>\<^verbatim>\<open>atoi\<close> of the C library: \<^verbatim>\<open>strtol\<close> converted to \<^verbatim>\<open>int\<close>.\<close>

definition atoi :: "string \<Rightarrow> i32" where
  "atoi s = word_of_int (strtol10 s)"

lemma isdigit_char_of: "n < 10 \<Longrightarrow> isdigit (char_of (48 + n :: nat))"
  by (simp add: isdigit_def)

lemma digit_val_char_of: "n < 10 \<Longrightarrow> digit_val (char_of (48 + n :: nat)) = n"
  by (simp add: digit_val_def)

lemma show_nat_nonempty [simp]: "show_nat n \<noteq> []"
  by (subst show_nat.simps) simp

lemma show_nat_digits: "list_all isdigit (show_nat n)"
proof (induction n rule: show_nat.induct)
  case (1 n)
  then show ?case
    by (subst show_nat.simps) (simp add: isdigit_char_of)
qed

lemma char_of_48: "char_of (48 :: nat) = CHR ''0''"
  using char_of_code [of "CHR ''0''"] by (simp add: code_def)

lemma show_nat_hd: "0 < n \<Longrightarrow> hd (show_nat n) \<noteq> CHR ''0''"
proof (induction n rule: show_nat.induct)
  case (1 n)
  have z: "char_of (48 + m :: nat) = CHR ''0'' \<longleftrightarrow> m = 0" if "m < 10" for m
  proof
    assume "char_of (48 + m :: nat) = CHR ''0''"
    then have "code (char_of (48 + m :: nat)) = 48" by (simp add: code_def)
    with that show "m = 0" by simp
  qed (simp add: char_of_48)
  show ?case
    using 1 z by (subst show_nat.simps) (auto simp: hd_append)
qed

lemma length_show_nat_pow: "n < 10 ^ k \<Longrightarrow> 0 < k \<Longrightarrow> length (show_nat n) \<le> k"
proof (induction n arbitrary: k rule: show_nat.induct)
  case (1 n)
  show ?case
  proof (cases "n < 10")
    case True
    with "1.prems" show ?thesis by (subst show_nat.simps) simp
  next
    case False
    then obtain j where k: "k = Suc j" "0 < j"
      using "1.prems" by (cases k; cases "k - 1") auto
    then have "n div 10 < 10 ^ j"
      using "1.prems" by auto
    with 1 False k show ?thesis
      by (subst show_nat.simps) simp
  qed
qed

lemma read_digits_append:
  "list_all isdigit s \<Longrightarrow> read_digits acc (s @ t) = read_digits (read_digits acc s) t"
  by (induction s arbitrary: acc) auto

lemma read_digits_show_nat: "read_digits 0 (show_nat n) = n"
proof (induction n rule: show_nat.induct)
  case (1 n)
  then show ?case
    by (subst show_nat.simps)
      (simp add: isdigit_char_of digit_val_char_of read_digits_append show_nat_digits)
qed

lemma isdigit_no_sign: "isdigit c \<Longrightarrow> \<not> isspace c \<and> c \<noteq> CHR ''-'' \<and> c \<noteq> CHR ''+'' \<and> c \<noteq> NUL"
  by (auto simp: ctype_simps)

lemma strtol10_show_int:
  assumes "- (2 ^ 63) \<le> i" and "i < 2 ^ 63"
  shows "strtol10 (show_int i) = i"
proof (cases "i < 0")
  case True
  then have "dropWhile isspace (show_int i) = CHR ''-'' # show_nat (nat (- i))"
    by (simp add: show_int_def isspace_def)
  with True assms show ?thesis
    by (simp add: strtol10_def read_digits_show_nat)
next
  case False
  obtain c r where cr: "show_nat (nat i) = c # r"
    by (cases "show_nat (nat i)") auto
  moreover from this have "isdigit c"
    using show_nat_digits [of "nat i"] by simp
  ultimately have "dropWhile isspace (show_int i) = c # r" "c \<noteq> CHR ''-''" "c \<noteq> CHR ''+''"
    using False isdigit_no_sign [of c] by (auto simp: show_int_def)
  moreover have "read_digits 0 (c # r) = nat i"
    using read_digits_show_nat [of "nat i"] by (simp only: cr)
  ultimately show ?thesis
    using False assms by (simp add: strtol10_def)
qed

lemma no_nul_show_nat [simp]: "no_nul (show_nat n)"
  using show_nat_digits [of n] by (auto simp: no_nul_def list_all_iff dest: isdigit_no_sign)

lemma no_nul_show_int [simp]: "no_nul (show_int i)"
  by (simp add: show_int_def)

end
