(* ===== verification/Parson_Object.thy ===== *)
theory Parson_Object
  imports Prelude
begin

text \<open>
  The JSON object of \<^verbatim>\<open>parson.c\<close>: an insertion-ordered dictionary kept as parallel arrays
  (\<open>names\<close>, \<open>vals\<close>, \<open>hashes\<close>, \<open>cell_ixs\<close>) that an open-addressing table of cells with
  linear probing indexes, growing by doubling and deleting by backward shift.

  The struct is a single-constructor datatype with the source's field names as selectors (it
  nests inside the datatype of JSON values). The item arrays are their initialised prefixes, so a
  write at index \<open>count\<close> is an append; a cell that holds \<^verbatim>\<open>OBJECT_INVALID_IX\<close> is \<open>None\<close>. The
  operations return \<open>None\<close> where the C code would index with \<^verbatim>\<open>OBJECT_INVALID_IX\<close> or where the
  bounded recursion between adding and growing is exhausted; \<open>Some\<close> carries status and object.
  Parent pointers are not part of the model.
\<close>

section \<open>Data\<close>

datatype json_status = JSONSuccess | JSONFailure

datatype 'v json_object = JSON_Object
  (cells: "nat option list")
  (hashes: "u64 list")
  (names: "string list")
  (vals: "'v list")
  (cell_ixs: "nat list")
  (count: nat)
  (item_capacity: nat)
  (cell_capacity: nat)

definition STARTING_CAPACITY :: nat where
  "STARTING_CAPACITY = 16"

section \<open>Operations\<close>

fun hash_string_loop :: "u64 \<Rightarrow> string \<Rightarrow> u64" where
  "hash_string_loop h [] = h"
| "hash_string_loop h (c # s) =
     (if c = NUL then h else hash_string_loop ((push_bit 5 h + h) + of_nat (code c)) s)"

definition hash_string :: "string \<Rightarrow> nat \<Rightarrow> u64" where
  "hash_string s n = hash_string_loop 5381 (take n s)"

text \<open>Evaluation computes the hash on integers.\<close>

fun hash_int :: "int \<Rightarrow> string \<Rightarrow> int" where
  "hash_int h [] = h"
| "hash_int h (c # s) = (if c = NUL then h else hash_int ((h * 33 + int (code c)) mod 18446744073709551616) s)"

lemma word_of_int_mod64: "(word_of_int (k mod 18446744073709551616) :: u64) = word_of_int k"
  by (rule word_uint_eq_iff [THEN iffD2]) (simp add: uint_word_of_int)

lemma hash_int_loop: "hash_string_loop (word_of_int h) s = word_of_int (hash_int h s)"
proof (induction s arbitrary: h)
  case (Cons c s)
  have "(push_bit 5 (word_of_int h) + word_of_int h) + of_nat (code c) = (word_of_int ((h * 33 + int (code c)) mod 18446744073709551616) :: u64)"
  proof -
    have "(word_of_int ((h * 33 + int (code c)) mod 18446744073709551616) :: u64) = word_of_int (h * 33 + int (code c))"
      by (rule word_of_int_mod64)
    also have "\<dots> = (push_bit 5 (word_of_int h) + word_of_int h) + of_nat (code c)"
      by (simp add: push_bit_eq_mult algebra_simps)
    finally show ?thesis ..
  qed
  then show ?case using Cons by simp
qed simp

lemma hash_string_code [code]: "hash_string s n = word_of_int (hash_int 5381 (take n s))"
  using hash_int_loop [of 5381] by (simp add: hash_string_def)

definition strlen :: "string \<Rightarrow> nat" where
  "strlen s = length (cstr s)"

text \<open>The loop of \<^verbatim>\<open>json_object_init\<close> counts the cells with an \<^verbatim>\<open>unsigned int\<close>: it fills any table of fewer than 2 ^ 32 cells, as
  \<open>replicate\<close> does, and never ends for 2 ^ 32 of them. A table gets there when it grows from 2 ^ 31 cells, with 1503238553 members.
  In the model that last growth ends.\<close>

definition json_object_init :: "nat \<Rightarrow> 'v json_object" where
  "json_object_init capacity =
     JSON_Object (replicate capacity None) [] [] [] [] 0 (capacity * 7 div 10 mod 2 ^ 32) capacity"

definition json_object_make :: "'v json_object" where
  "json_object_make = json_object_init 0"

text \<open>The masks \<^verbatim>\<open>x & (cell_capacity - 1)\<close> on \<^verbatim>\<open>size_t\<close>.\<close>

definition masked :: "'v json_object \<Rightarrow> u64 \<Rightarrow> nat" where
  "masked ob x = unat (x AND (of_nat (cell_capacity ob) - 1))"

lemma masked_code [code]: "masked ob x = (if cell_capacity ob = 16 then nat (uint x mod 16) else unat (x AND (of_nat (cell_capacity ob) - 1)))"
proof -
  have "x AND 15 = take_bit 4 x"
    by (simp add: take_bit_eq_mask mask_eq_exp_minus_1)
  moreover have "unat (take_bit 4 x) = unat x mod 2 ^ 4"
    by (simp only: unsigned_take_bit_eq) (rule take_bit_eq_mod)
  ultimately have "unat (x AND 15) = nat (uint x mod 16)"
    by (simp add: nat_mod_distrib)
  then show ?thesis by (simp add: masked_def)
qed

function json_object_get_cell_ix_loop ::
  "'v json_object \<Rightarrow> string \<Rightarrow> nat \<Rightarrow> u64 \<Rightarrow> nat \<Rightarrow> nat \<Rightarrow> nat option \<times> bool" where
  "json_object_get_cell_ix_loop ob key key_len hash cell_ix i =
     (if i < cell_capacity ob then
        let ix = masked ob (of_nat cell_ix + of_nat i) in
        case cells ob ! ix of
          None \<Rightarrow> (Some ix, False)
        | Some cell \<Rightarrow>
            if hash \<noteq> hashes ob ! cell then
              json_object_get_cell_ix_loop ob key key_len hash cell_ix (Suc i)
            else if strlen (names ob ! cell) = key_len \<and> strncmp_eq key (names ob ! cell) key_len then
              (Some ix, True)
            else json_object_get_cell_ix_loop ob key key_len hash cell_ix (Suc i)
      else (None, False))"
  by pat_completeness auto
termination
  by (relation "measure (\<lambda>(ob, key, key_len, hash, cell_ix, i). cell_capacity ob - i)") auto

declare json_object_get_cell_ix_loop.simps [simp del]

definition json_object_get_cell_ix ::
  "'v json_object \<Rightarrow> string \<Rightarrow> nat \<Rightarrow> u64 \<Rightarrow> nat option \<times> bool" where
  "json_object_get_cell_ix ob key key_len hash =
     json_object_get_cell_ix_loop ob key key_len hash (masked ob hash) 0"

text \<open>The five stores at index \<open>count\<close> that end \<^verbatim>\<open>json_object_add\<close> and \<^verbatim>\<open>json_object_set_value\<close>.\<close>

definition json_object_put ::
  "'v json_object \<Rightarrow> string \<Rightarrow> 'v \<Rightarrow> u64 \<Rightarrow> nat \<Rightarrow> 'v json_object" where
  "json_object_put ob name v hash ix =
     JSON_Object ((cells ob)[ix := Some (count ob)]) (hashes ob @ [hash]) (names ob @ [name])
       (vals ob @ [v]) (cell_ixs ob @ [ix]) (Suc (count ob)) (item_capacity ob) (cell_capacity ob)"

text \<open>
  \<^verbatim>\<open>json_object_add\<close> grows a full table and \<^verbatim>\<open>json_object_grow_and_rehash\<close> adds every item to the
  new one; the first argument bounds the depth of this mutual recursion.
\<close>

fun json_object_add_d ::
    "nat \<Rightarrow> 'v json_object \<Rightarrow> string \<Rightarrow> 'v \<Rightarrow> (json_status \<times> 'v json_object) option"
and json_object_grow_and_rehash_d ::
    "nat \<Rightarrow> 'v json_object \<Rightarrow> (json_status \<times> 'v json_object) option"
and json_object_rehash_loop_d ::
    "nat \<Rightarrow> (string \<times> 'v) list \<Rightarrow> 'v json_object \<Rightarrow> (json_status \<times> 'v json_object) option" where
  "json_object_add_d 0 ob name v = None"
| "json_object_add_d (Suc d) ob name v =
     (let hash = hash_string name (strlen name);
          (cell_ix, found) = json_object_get_cell_ix ob name (strlen name) hash
      in if found then Some (JSONFailure, ob)
         else if count ob \<ge> item_capacity ob then
           (case json_object_grow_and_rehash_d d ob of
              None \<Rightarrow> None
            | Some (JSONFailure, ob') \<Rightarrow> Some (JSONFailure, ob')
            | Some (JSONSuccess, ob') \<Rightarrow>
                (case json_object_get_cell_ix ob' name (strlen name) hash of
                   (None, _) \<Rightarrow> None
                 | (Some ix, _) \<Rightarrow> Some (JSONSuccess, json_object_put ob' name v hash ix)))
         else (case cell_ix of
                 None \<Rightarrow> None
               | Some ix \<Rightarrow> Some (JSONSuccess, json_object_put ob name v hash ix)))"
| "json_object_grow_and_rehash_d d ob =
     (let new_capacity = max (cell_capacity ob * 2) STARTING_CAPACITY in
      case json_object_rehash_loop_d d (zip (names ob) (vals ob)) (json_object_init new_capacity) of
        None \<Rightarrow> None
      | Some (JSONFailure, _) \<Rightarrow> Some (JSONFailure, ob)
      | Some (JSONSuccess, new_object) \<Rightarrow> Some (JSONSuccess, new_object))"
| "json_object_rehash_loop_d d [] new_object = Some (JSONSuccess, new_object)"
| "json_object_rehash_loop_d d ((key, value) # items) new_object =
     (case json_object_add_d d new_object key value of
        None \<Rightarrow> None
      | Some (JSONFailure, ob') \<Rightarrow> Some (JSONFailure, ob')
      | Some (JSONSuccess, ob') \<Rightarrow> json_object_rehash_loop_d d items ob')"

definition json_object_add ::
  "'v json_object \<Rightarrow> string \<Rightarrow> 'v \<Rightarrow> (json_status \<times> 'v json_object) option" where
  "json_object_add ob name v = json_object_add_d 2 ob name v"

definition json_object_grow_and_rehash ::
  "'v json_object \<Rightarrow> (json_status \<times> 'v json_object) option" where
  "json_object_grow_and_rehash ob = json_object_grow_and_rehash_d 1 ob"

definition json_object_getn_value :: "'v json_object \<Rightarrow> string \<Rightarrow> nat \<Rightarrow> 'v option" where
  "json_object_getn_value ob name name_len =
     (let hash = hash_string name name_len in
      case json_object_get_cell_ix ob name name_len hash of
        (Some ix, True) \<Rightarrow>
          (case cells ob ! ix of None \<Rightarrow> None | Some item_ix \<Rightarrow> Some (vals ob ! item_ix))
      | _ \<Rightarrow> None)"

text \<open>
  \<^verbatim>\<open>json_object_set_value\<close> behind its first test, for an object, a name and a value that are there. The record tells which
  of the allocations the call may need succeed: those of \<^verbatim>\<open>json_object_grow_and_rehash\<close>, which leaves the object alone
  when one of them fails, and the copy of the name.
\<close>

record alloc =
  grow_room :: bool
  dup_room :: bool

definition plenty :: alloc where
  "plenty = \<lparr>grow_room = True, dup_room = True\<rparr>"

definition json_object_store ::
  "alloc \<Rightarrow> 'v json_object \<Rightarrow> string \<Rightarrow> 'v \<Rightarrow> (json_status \<times> 'v json_object) option" where
  "json_object_store al ob name v =
     (let hash = hash_string name (strlen name);
          (cell_ix, found) = json_object_get_cell_ix ob name (strlen name) hash
      in if found then
           (case cell_ix of
              None \<Rightarrow> None
            | Some ix \<Rightarrow>
                (case cells ob ! ix of
                   None \<Rightarrow> None
                 | Some item_ix \<Rightarrow>
                     Some (JSONSuccess,
                       JSON_Object (cells ob) (hashes ob) (names ob) ((vals ob)[item_ix := v])
                         (cell_ixs ob) (count ob) (item_capacity ob) (cell_capacity ob))))
         else if count ob \<ge> item_capacity ob then
           if \<not> grow_room al then Some (JSONFailure, ob)
           else
             (case json_object_grow_and_rehash ob of
                None \<Rightarrow> None
              | Some (JSONFailure, ob') \<Rightarrow> Some (JSONFailure, ob')
              | Some (JSONSuccess, ob') \<Rightarrow>
                  (case json_object_get_cell_ix ob' name (strlen name) hash of
                     (None, _) \<Rightarrow> None
                   | (Some ix, _) \<Rightarrow>
                       if \<not> dup_room al then Some (JSONFailure, ob')
                       else Some (JSONSuccess, json_object_put ob' name v hash ix)))
         else (case cell_ix of
                 None \<Rightarrow> None
               | Some ix \<Rightarrow>
                   if \<not> dup_room al then Some (JSONFailure, ob)
                   else Some (JSONSuccess, json_object_put ob name v hash ix)))"

text \<open>\<^verbatim>\<open>json_object_set_value\<close> with its test; null pointers are \<open>None\<close>, and \<open>parented\<close> is \<^verbatim>\<open>value->parent\<close>. The object
  is that of the caller, changed in place.\<close>

definition json_object_set_value ::
  "alloc \<Rightarrow> 'v json_object option \<Rightarrow> string option \<Rightarrow> 'v option \<Rightarrow> bool \<Rightarrow> (json_status \<times> 'v json_object option) option" where
  "json_object_set_value al object name value parented =
     (case (object, name, value) of
        (Some ob, Some n, Some v) \<Rightarrow>
          if parented then Some (JSONFailure, object)
          else map_option (\<lambda>(st, ob'). (st, Some ob')) (json_object_store al ob n v)
      | _ \<Rightarrow> Some (JSONFailure, object))"

text \<open>The calls inside the library: an object and a name at hand, a value that was just made or that the caller of
  \<^verbatim>\<open>json_object_dotset_value\<close> hands over without a parent, and enough memory.\<close>

definition json_object_set_opt ::
  "'v json_object \<Rightarrow> string \<Rightarrow> 'v option \<Rightarrow> (json_status \<times> 'v json_object) option" where
  "json_object_set_opt ob name v =
     map_option (\<lambda>(st, ob'). (st, the ob')) (json_object_set_value plenty (Some ob) (Some name) v False)"

lemma json_object_set_opt_Some [simp]: "json_object_set_opt ob name (Some v) = json_object_store plenty ob name v"
  by (simp add: json_object_set_opt_def json_object_set_value_def option.map_comp comp_def case_prod_unfold option.map_ident)

text \<open>
  The removal loop: \<open>i\<close> is the hole, \<open>j\<close> the cell under examination, \<open>x\<close> the iteration. Its
  first argument is the mask, so that it runs on the fields the loop changes.
\<close>

function json_object_remove_loop ::
  "(u64 \<Rightarrow> nat) \<Rightarrow> nat \<Rightarrow> u64 list \<Rightarrow> nat \<Rightarrow> nat \<Rightarrow> nat \<Rightarrow> nat option list \<Rightarrow> nat list
     \<Rightarrow> nat \<times> nat option list \<times> nat list" where
  "json_object_remove_loop msk cap hs x i j cs cixs =
     (if x < cap - 1 then
        let j' = msk (of_nat (j + 1)) in
        case cs ! j' of
          None \<Rightarrow> (i, cs, cixs)
        | Some c \<Rightarrow>
            let k = msk (hs ! c) in
            if (j' > i \<and> (k \<le> i \<or> k > j')) \<or> (j' < i \<and> (k \<le> i \<and> k > j')) then
              json_object_remove_loop msk cap hs (Suc x) j' j' (cs[i := Some c]) (cixs[c := i])
            else json_object_remove_loop msk cap hs (Suc x) i j' cs cixs
      else (i, cs, cixs))"
  by pat_completeness auto
termination
  by (relation "measure (\<lambda>(msk, cap, hs, x, i, j, cs, cixs). cap - x)") auto

declare json_object_remove_loop.simps [simp del]

text \<open>Moving the last item into the slot of the removed one (lines 670--679).\<close>

definition json_object_swap_last :: "'v json_object \<Rightarrow> nat \<Rightarrow> 'v json_object" where
  "json_object_swap_last ob item_ix =
     (let last_ix = count ob - 1 in
      if item_ix < last_ix then
        JSON_Object ((cells ob)[cell_ixs ob ! last_ix := Some item_ix])
          (butlast ((hashes ob)[item_ix := hashes ob ! last_ix]))
          (butlast ((names ob)[item_ix := names ob ! last_ix]))
          (butlast ((vals ob)[item_ix := vals ob ! last_ix]))
          (butlast ((cell_ixs ob)[item_ix := cell_ixs ob ! last_ix]))
          (count ob - 1) (item_capacity ob) (cell_capacity ob)
      else
        JSON_Object (cells ob) (butlast (hashes ob)) (butlast (names ob)) (butlast (vals ob))
          (butlast (cell_ixs ob)) (count ob - 1) (item_capacity ob) (cell_capacity ob))"

definition json_object_remove_internal ::
  "'v json_object \<Rightarrow> string \<Rightarrow> json_status \<times> 'v json_object" where
  "json_object_remove_internal ob name =
     (let hash = hash_string name (strlen name) in
      case json_object_get_cell_ix ob name (strlen name) hash of
        (Some cell, True) \<Rightarrow>
          (case cells ob ! cell of
             None \<Rightarrow> (JSONFailure, ob)
           | Some item_ix \<Rightarrow>
               let ob1 = json_object_swap_last ob item_ix;
                   (i, cs, cixs) = json_object_remove_loop (masked ob1) (cell_capacity ob1) (hashes ob1)
                      0 cell cell (cells ob1) (cell_ixs ob1)
               in (JSONSuccess,
                   JSON_Object (cs[i := None]) (hashes ob1) (names ob1) (vals ob1) cixs
                     (count ob1) (item_capacity ob1) (cell_capacity ob1)))
      | _ \<Rightarrow> (JSONFailure, ob))"

definition json_object_clear :: "'v json_object \<Rightarrow> json_status \<times> 'v json_object" where
  "json_object_clear ob =
     (JSONSuccess,
      JSON_Object (replicate (cell_capacity ob) None) [] [] [] [] 0 (item_capacity ob) (cell_capacity ob))"

definition json_object_get_count :: "'v json_object option \<Rightarrow> nat" where
  "json_object_get_count ob = (case ob of None \<Rightarrow> 0 | Some t \<Rightarrow> count t)"

definition json_object_get_name :: "'v json_object option \<Rightarrow> nat \<Rightarrow> string option" where
  "json_object_get_name ob index =
     (case ob of None \<Rightarrow> None
      | Some t \<Rightarrow> if index \<ge> json_object_get_count ob then None else Some (names t ! index))"

definition json_object_get_value_at :: "'v json_object option \<Rightarrow> nat \<Rightarrow> 'v option" where
  "json_object_get_value_at ob index =
     (case ob of None \<Rightarrow> None
      | Some t \<Rightarrow> if index \<ge> json_object_get_count ob then None else Some (vals t ! index))"

definition json_object_get_value :: "'v json_object option \<Rightarrow> string \<Rightarrow> 'v option" where
  "json_object_get_value ob name =
     (case ob of None \<Rightarrow> None | Some t \<Rightarrow> json_object_getn_value t name (strlen name))"

definition json_object_has_value :: "'v json_object option \<Rightarrow> string \<Rightarrow> bool" where
  "json_object_has_value ob name \<longleftrightarrow> json_object_get_value ob name \<noteq> None"

section \<open>Code equations\<close>

text \<open>Equivalent forms that evaluate without large unary numbers.\<close>

lemma json_object_init_code [code]:
  "json_object_init capacity =
     JSON_Object (replicate capacity None) [] [] [] [] 0 (nat (int (capacity * 7 div 10) mod 4294967296)) capacity"
  by (simp add: json_object_init_def nat_mod_as_int)


lemma json_object_get_cell_ix_code [code]:
  "json_object_get_cell_ix ob key key_len hash =
     (if cell_capacity ob = 0 then (None, False)
      else json_object_get_cell_ix_loop ob key key_len hash (masked ob hash) 0)"
  by (simp add: json_object_get_cell_ix_def json_object_get_cell_ix_loop.simps)

end
