(* ===== verification/Parson_Dict.thy ===== *)
theory Parson_Dict
  imports Parson_Object "HOL-Library.AList"
begin

text \<open>
  Correctness of the JSON object's table: the representation invariant \<open>wf_object\<close> (the cells
  and the item arrays index each other, names are distinct, and every item is reachable from its
  home cell by probing), its preservation by every operation, and the refinement to an
  insertion-ordered association list (\<open>items\<close>). The locales \<open>json_dict\<close> and \<open>json_dict_mut\<close>
  state the contract the parser, the accessors and the name-service code rely on; both are
  interpreted on the table.

  Objects are assumed to hold fewer than \<open>2 ^ 31\<close> items before one is added: beyond
  that the 32-bit \<^verbatim>\<open>item_capacity\<close> of \<^verbatim>\<open>json_object_init\<close> no longer represents seven tenths of the
  cells.
\<close>


section \<open>Cyclic distances\<close>

definition cdist :: "nat \<Rightarrow> nat \<Rightarrow> nat \<Rightarrow> nat" where
  "cdist n a b = (b + n - a) mod n"

lemma cdist_less: "0 < n \<Longrightarrow> cdist n a b < n"
  by (simp add: cdist_def)

lemma cdist_alt: "a < n \<Longrightarrow> b < n \<Longrightarrow> cdist n a b = (if a \<le> b then b - a else b + n - a)"
  by (auto simp: cdist_def mod_if)

lemma add_cdist_mod: "a < n \<Longrightarrow> b < n \<Longrightarrow> (a + cdist n a b) mod n = b"
  by (auto simp: cdist_alt)

lemma cdist_unique: "a < n \<Longrightarrow> t < n \<Longrightarrow> cdist n a ((a + t) mod n) = t"
  by (auto simp: cdist_def mod_if)

lemma cdist_self [simp]: "a < n \<Longrightarrow> cdist n a a = 0"
  by (simp add: cdist_def)

lemma cdist_0_iff: "a < n \<Longrightarrow> b < n \<Longrightarrow> cdist n a b = 0 \<longleftrightarrow> a = b"
  by (auto simp: cdist_alt)

section \<open>The table invariant\<close>

definition probe_ok :: "nat option list \<Rightarrow> (nat \<Rightarrow> nat) \<Rightarrow> bool" where
  "probe_ok cs hm \<longleftrightarrow>
     (\<forall>p < length cs. \<forall>c. cs ! p = Some c \<longrightarrow>
        (\<forall>t < cdist (length cs) (hm c) p. cs ! ((hm c + t) mod length cs) \<noteq> None))"

definition cap_ok :: "nat \<Rightarrow> bool" where
  "cap_ok n \<longleftrightarrow> n = 0 \<or> (\<exists>k \<in> {4..32}. n = 2 ^ k)"

definition wf_object :: "'v json_object \<Rightarrow> bool" where
  "wf_object ob \<longleftrightarrow>
     length (cells ob) = cell_capacity ob \<and> length (hashes ob) = count ob \<and>
     length (names ob) = count ob \<and> length (vals ob) = count ob \<and>
     length (cell_ixs ob) = count ob \<and>
     cap_ok (cell_capacity ob) \<and> item_capacity ob = cell_capacity ob * 7 div 10 \<and>
     count ob \<le> item_capacity ob \<and>
     (\<forall>i < count ob. cell_ixs ob ! i < cell_capacity ob \<and> cells ob ! (cell_ixs ob ! i) = Some i) \<and>
     (\<forall>p < cell_capacity ob. \<forall>c. cells ob ! p = Some c \<longrightarrow> c < count ob \<and> cell_ixs ob ! c = p) \<and>
     (\<forall>i < count ob. no_nul (names ob ! i) \<and>
        hashes ob ! i = hash_string (names ob ! i) (length (names ob ! i))) \<and>
     distinct (names ob) \<and>
     probe_ok (cells ob) (\<lambda>c. masked ob (hashes ob ! c))"

section \<open>Masks, hashes and names\<close>

lemma masked_mod:
  assumes "cap_ok (cell_capacity ob)" and "cell_capacity ob \<noteq> 0"
  shows "masked ob x = unat x mod cell_capacity ob"
proof -
  obtain k where k: "4 \<le> k" "k \<le> 32" "cell_capacity ob = 2 ^ k"
    using assms by (auto simp: cap_ok_def)
  have "(of_nat (cell_capacity ob) - 1 :: u64) = mask k"
    by (simp add: k mask_eq_exp_minus_1)
  then have "x AND (of_nat (cell_capacity ob) - 1) = take_bit k x"
    by (simp add: take_bit_eq_mask)
  then have "masked ob x = take_bit k (unat x)"
    by (simp only: masked_def unsigned_take_bit_eq)
  then show ?thesis
    by (simp add: k take_bit_eq_mod)
qed

lemma masked_add:
  assumes "cap_ok (cell_capacity ob)" and "a < cell_capacity ob" and "i < cell_capacity ob"
  shows "masked ob (of_nat a + of_nat i) = (a + i) mod cell_capacity ob"
proof -
  obtain k where k: "4 \<le> k" "k \<le> 32" "cell_capacity ob = 2 ^ k"
    using assms by (auto simp: cap_ok_def)
  have "(2 :: nat) ^ k \<le> 2 ^ 32"
    using k by (intro power_increasing) auto
  then have "a + i < 2 ^ 64"
    using assms k by simp
  then have "unat (of_nat (a + i) :: u64) = a + i"
    by (simp only: unat_of_nat) simp
  with assms show ?thesis
    by (subst masked_mod) auto
qed

lemma masked_less: "cap_ok (cell_capacity ob) \<Longrightarrow> cell_capacity ob \<noteq> 0 \<Longrightarrow> masked ob x < cell_capacity ob"
  by (simp add: masked_mod)

lemma hash_loop_cstr: "hash_string_loop h (cstr s) = hash_string_loop h s"
  by (induction s arbitrary: h) auto

lemma cstr_take: "n \<le> length s \<Longrightarrow> no_nul (take n s) \<Longrightarrow> take n (cstr s) = take n s"
proof (induction s arbitrary: n)
  case (Cons c s)
  then show ?case by (cases n) auto
qed simp

lemma hash_string_prefix: "hash_string s n = hash_string (take n s) n"
  by (simp add: hash_string_def)

lemma strlen_no_nul [simp]: "no_nul s \<Longrightarrow> strlen s = length s"
  by (simp add: strlen_def)

lemma names_matchD:
  assumes "key_len \<le> length key" and "no_nul (take key_len key)" and "no_nul nm"
  shows "strlen nm = key_len \<and> strncmp_eq key nm key_len \<longleftrightarrow> nm = take key_len key"
  using assms by (auto simp: strncmp_eq_def cstr_take)

section \<open>Probing\<close>

text \<open>What the probing loop has established: every cell before offset \<open>n\<close> holds another name.\<close>

definition probed :: "'v json_object \<Rightarrow> string \<Rightarrow> nat \<Rightarrow> nat \<Rightarrow> bool" where
  "probed ob nm a n \<longleftrightarrow>
     (\<forall>t < n. \<exists>c. cells ob ! ((a + t) mod cell_capacity ob) = Some c \<and> names ob ! c \<noteq> nm)"

lemma wf_objectD:
  assumes "wf_object ob"
  shows "length (cells ob) = cell_capacity ob" "length (hashes ob) = count ob"
    "length (names ob) = count ob" "length (vals ob) = count ob" "length (cell_ixs ob) = count ob"
    "cap_ok (cell_capacity ob)" "item_capacity ob = cell_capacity ob * 7 div 10"
    "count ob \<le> item_capacity ob" "distinct (names ob)"
    "probe_ok (cells ob) (\<lambda>c. masked ob (hashes ob ! c))"
  using assms by (auto simp: wf_object_def)

lemma wf_cell_ixs:
  "wf_object ob \<Longrightarrow> i < count ob \<Longrightarrow> cell_ixs ob ! i < cell_capacity ob \<and> cells ob ! (cell_ixs ob ! i) = Some i"
  by (simp add: wf_object_def)

lemma wf_cells:
  "wf_object ob \<Longrightarrow> p < cell_capacity ob \<Longrightarrow> cells ob ! p = Some c \<Longrightarrow> c < count ob \<and> cell_ixs ob ! c = p"
  by (simp add: wf_object_def)

lemma wf_names:
  "wf_object ob \<Longrightarrow> i < count ob \<Longrightarrow>
     no_nul (names ob ! i) \<and> hashes ob ! i = hash_string (names ob ! i) (length (names ob ! i))"
  by (simp add: wf_object_def)

lemma cell_loop_spec:
  assumes wf: "wf_object ob" and len: "key_len \<le> length key" and nn: "no_nul (take key_len key)"
    and h: "hash = hash_string (take key_len key) key_len" and a: "a < cell_capacity ob"
  shows "i \<le> cell_capacity ob \<Longrightarrow> probed ob (take key_len key) a i \<Longrightarrow>
    (case json_object_get_cell_ix_loop ob key key_len hash a i of
       (Some ix, True) \<Rightarrow> ix < cell_capacity ob \<and> (\<exists>c. cells ob ! ix = Some c \<and> names ob ! c = take key_len key)
     | (Some ix, False) \<Rightarrow> \<exists>t < cell_capacity ob. ix = (a + t) mod cell_capacity ob \<and> cells ob ! ix = None \<and>
          probed ob (take key_len key) a t
     | (None, b) \<Rightarrow> \<not> b \<and> probed ob (take key_len key) a (cell_capacity ob))"
proof (induction "cell_capacity ob - i" arbitrary: i)
  case 0
  then have "i = cell_capacity ob" by simp
  with 0 show ?case by (simp add: json_object_get_cell_ix_loop.simps [of ob key key_len hash a "cell_capacity ob"])
next
  case (Suc n)
  then have i: "i < cell_capacity ob" by simp
  let ?ix = "(a + i) mod cell_capacity ob"
  have ix: "masked ob (of_nat a + of_nat i) = ?ix"
    using wf_objectD(6) [OF wf] a i by (rule masked_add)
  have ixl: "?ix < cell_capacity ob" using i by simp
  note unf = json_object_get_cell_ix_loop.simps [of ob key key_len hash a i]
  show ?case
  proof (cases "cells ob ! ?ix")
    case None
    with i ix Suc.prems show ?thesis by (auto simp: unf Let_def)
  next
    case (Some c)
    have c: "c < count ob" using wf_cells [OF wf ixl Some] by simp
    have nc: "no_nul (names ob ! c)" "hashes ob ! c = hash_string (names ob ! c) (length (names ob ! c))"
      using wf_names [OF wf c] by auto
    have m: "strlen (names ob ! c) = key_len \<and> strncmp_eq key (names ob ! c) key_len \<longleftrightarrow>
      names ob ! c = take key_len key"
      using names_matchD [OF len nn nc(1)] .
    show ?thesis
    proof (cases "names ob ! c = take key_len key")
      case True
      then have "hashes ob ! c = hash" using nc h len by simp
      then have "json_object_get_cell_ix_loop ob key key_len hash a i = (Some ?ix, True)"
        using True m i ix Some by (simp add: unf Let_def)
      with True Some ixl show ?thesis by simp
    next
      case False
      then have p: "probed ob (take key_len key) a (Suc i)"
        using Suc.prems Some by (auto simp: probed_def less_Suc_eq)
      have "json_object_get_cell_ix_loop ob key key_len hash a i =
        json_object_get_cell_ix_loop ob key key_len hash a (Suc i)"
        using False m i ix Some by (auto simp: unf Let_def)
      moreover have "n = cell_capacity ob - Suc i" using Suc by simp
      ultimately show ?thesis
        using Suc.hyps(1) [of "Suc i"] p i by simp
    qed
  qed
qed


lemma wf_cap_pos: "wf_object ob \<Longrightarrow> i < count ob \<Longrightarrow> 0 < cell_capacity ob"
  using wf_objectD(7,8) [of ob] by (cases "cell_capacity ob") auto

lemma wf_free_cell:
  assumes wf: "wf_object ob" and pos: "cell_capacity ob \<noteq> 0"
  shows "\<exists>p < cell_capacity ob. cells ob ! p = None"
proof (rule ccontr)
  assume "\<not> ?thesis"
  then have all: "\<exists>c. cells ob ! p = Some c" if "p < cell_capacity ob" for p
    using that by auto
  let ?f = "\<lambda>p. the (cells ob ! p)"
  have "inj_on ?f {..<cell_capacity ob}"
  proof (rule inj_on_inverseI [where g = "\<lambda>c. cell_ixs ob ! c"])
    fix p assume "p \<in> {..<cell_capacity ob}"
    then show "cell_ixs ob ! ?f p = p"
      using all [of p] wf_cells [OF wf, of p] by auto
  qed
  moreover have "?f ` {..<cell_capacity ob} \<subseteq> {..<count ob}"
    using all wf_cells [OF wf] by fastforce
  ultimately have "cell_capacity ob \<le> count ob"
    using card_inj_on_le [of ?f "{..<cell_capacity ob}" "{..<count ob}"] by simp
  with wf_objectD(7,8) [OF wf] pos show False by linarith
qed

lemma get_cell_ix_found:
  assumes wf: "wf_object ob" and len: "key_len \<le> length key" and nn: "no_nul (take key_len key)"
    and i: "i < count ob" and nm: "names ob ! i = take key_len key"
  shows "json_object_get_cell_ix ob key key_len (hash_string key key_len) = (Some (cell_ixs ob ! i), True)"
proof -
  let ?n = "cell_capacity ob" and ?k = "take key_len key" and ?h = "hash_string key key_len"
  let ?a = "masked ob ?h" and ?p = "cell_ixs ob ! i"
  have pos: "0 < ?n" using wf_cap_pos [OF wf i] .
  have a: "?a < ?n" using masked_less wf_objectD(6) [OF wf] pos by blast
  have p: "?p < ?n" "cells ob ! ?p = Some i" using wf_cell_ixs [OF wf i] by auto
  have hh: "?h = hash_string ?k key_len" by (rule hash_string_prefix)
  have "hashes ob ! i = ?h" using wf_names [OF wf i] nm len hh by simp
  then have occ: "cells ob ! ((?a + t) mod ?n) \<noteq> None" if "t < cdist ?n ?a ?p" for t
    using wf_objectD(1,10) [OF wf] p that by (auto simp: probe_ok_def)
  have np: "\<not> probed ob ?k ?a n" if "cdist ?n ?a ?p < n" for n
    using that p nm add_cdist_mod [OF a p(1)] by (auto simp: probed_def intro!: exI [of _ "cdist ?n ?a ?p"])
  have uniq: "c = i" if "q < ?n" "cells ob ! q = Some c" "names ob ! c = ?k" for q c
    using wf_cells [OF wf that(1,2)] wf_objectD(3,9) [OF wf] i nm that(3) by (metis nth_eq_iff_index_eq)
  have "case json_object_get_cell_ix ob key key_len ?h of
       (Some ix, True) \<Rightarrow> ix < ?n \<and> (\<exists>c. cells ob ! ix = Some c \<and> names ob ! c = ?k)
     | (Some ix, False) \<Rightarrow> \<exists>t < ?n. ix = (?a + t) mod ?n \<and> cells ob ! ix = None \<and> probed ob ?k ?a t
     | (None, b) \<Rightarrow> \<not> b \<and> probed ob ?k ?a ?n"
    unfolding json_object_get_cell_ix_def
    by (rule cell_loop_spec [OF wf len nn hh a]) (simp_all add: probed_def)
  then consider
      (hit) ix c where "json_object_get_cell_ix ob key key_len ?h = (Some ix, True)" "ix < ?n"
        "cells ob ! ix = Some c" "names ob ! c = ?k"
    | (free) t where "t < ?n" "cells ob ! ((?a + t) mod ?n) = None" "probed ob ?k ?a t"
    | (full) "probed ob ?k ?a ?n"
    by (auto split: prod.splits option.splits bool.splits)
  then show ?thesis
  proof cases
    case hit
    then have "c = i" using uniq by blast
    then show ?thesis using hit wf_cells [OF wf hit(2,3)] by simp
  next
    case free
    then have "t \<noteq> cdist ?n ?a ?p" "\<not> t < cdist ?n ?a ?p" "\<not> cdist ?n ?a ?p < t"
      using occ [of t] np [of t] p add_cdist_mod [OF a p(1)] by auto
    then show ?thesis by linarith
  next
    case full
    then show ?thesis using np [of ?n] cdist_less [OF pos] by simp
  qed
qed

lemma get_cell_ix_new:
  assumes wf: "wf_object ob" and len: "key_len \<le> length key" and nn: "no_nul (take key_len key)"
    and pos: "cell_capacity ob \<noteq> 0" and nm: "take key_len key \<notin> set (names ob)"
  obtains ix where "json_object_get_cell_ix ob key key_len (hash_string key key_len) = (Some ix, False)"
    "ix < cell_capacity ob" "cells ob ! ix = None"
    "\<forall>t < cdist (cell_capacity ob) (masked ob (hash_string key key_len)) ix.
       cells ob ! ((masked ob (hash_string key key_len) + t) mod cell_capacity ob) \<noteq> None"
proof -
  let ?n = "cell_capacity ob" and ?k = "take key_len key" and ?h = "hash_string key key_len"
  let ?a = "masked ob ?h"
  have a: "?a < ?n" using masked_less wf_objectD(6) [OF wf] pos by blast
  have hh: "?h = hash_string ?k key_len" by (rule hash_string_prefix)
  have nhit: "names ob ! c \<noteq> ?k" if "q < ?n" "cells ob ! q = Some c" for q c
    using wf_cells [OF wf that] wf_objectD(3) [OF wf] nm by (metis nth_mem)
  obtain q where q: "q < ?n" "cells ob ! q = None" using wf_free_cell [OF wf pos] by auto
  have nf: "\<not> probed ob ?k ?a ?n"
    using q add_cdist_mod [OF a q(1)] cdist_less [of ?n ?a q] a
    by (auto simp: probed_def intro!: exI [of _ "cdist ?n ?a q"])
  have "case json_object_get_cell_ix ob key key_len ?h of
       (Some ix, True) \<Rightarrow> ix < ?n \<and> (\<exists>c. cells ob ! ix = Some c \<and> names ob ! c = ?k)
     | (Some ix, False) \<Rightarrow> \<exists>t < ?n. ix = (?a + t) mod ?n \<and> cells ob ! ix = None \<and> probed ob ?k ?a t
     | (None, b) \<Rightarrow> \<not> b \<and> probed ob ?k ?a ?n"
    unfolding json_object_get_cell_ix_def
    by (rule cell_loop_spec [OF wf len nn hh a]) (simp_all add: probed_def)
  then obtain t where "json_object_get_cell_ix ob key key_len ?h = (Some ((?a + t) mod ?n), False)"
      "t < ?n" "cells ob ! ((?a + t) mod ?n) = None" "probed ob ?k ?a t"
    using nhit nf by (auto split: prod.splits option.splits bool.splits)
  then show ?thesis
    using that [of "(?a + t) mod ?n"] a cdist_unique [OF a] by (auto simp: probed_def)
qed

lemma get_cell_ix_empty_table:
  "cell_capacity ob = 0 \<Longrightarrow> json_object_get_cell_ix ob key key_len hash = (None, False)"
  by (simp add: json_object_get_cell_ix_def json_object_get_cell_ix_loop.simps)


section \<open>Abstract view and lookup\<close>

text \<open>Abstract view: the items in insertion order.\<close>

definition items :: "'v json_object \<Rightarrow> (string \<times> 'v) list" where
  "items ob = zip (names ob) (vals ob)"

lemma map_fst_items: "wf_object ob \<Longrightarrow> map fst (items ob) = names ob"
  using wf_objectD(3,4) [of ob] by (simp add: items_def)

lemma length_items: "wf_object ob \<Longrightarrow> length (items ob) = count ob"
  using wf_objectD(3,4) [of ob] by (simp add: items_def)

lemma map_of_items_nth:
  assumes "wf_object ob" and "i < count ob"
  shows "map_of (items ob) (names ob ! i) = Some (vals ob ! i)"
  using assms wf_objectD(3,4,9) [of ob] by (simp add: items_def map_of_zip_nth)

lemma map_of_items_None: "wf_object ob \<Longrightarrow> map_of (items ob) nm = None \<longleftrightarrow> nm \<notin> set (names ob)"
  by (simp add: map_of_eq_None_iff flip: map_fst_items image_set)

lemma getn_value_items:
  assumes wf: "wf_object ob" and len: "n \<le> length key" and nn: "no_nul (take n key)"
  shows "json_object_getn_value ob key n = map_of (items ob) (take n key)"
proof (cases "take n key \<in> set (names ob)")
  case True
  then obtain i where i: "i < count ob" "names ob ! i = take n key"
    using wf_objectD(3) [OF wf] by (auto simp: in_set_conv_nth)
  have "json_object_getn_value ob key n = Some (vals ob ! i)"
    using get_cell_ix_found [OF wf len nn i] wf_cell_ixs [OF wf i(1)]
    by (simp add: json_object_getn_value_def)
  then show ?thesis using map_of_items_nth [OF wf i(1)] i(2) by simp
next
  case False
  have "json_object_getn_value ob key n = None"
  proof (cases "cell_capacity ob = 0")
    case True
    then show ?thesis by (simp add: json_object_getn_value_def get_cell_ix_empty_table)
  next
    case pos: False
    obtain ix where "json_object_get_cell_ix ob key n (hash_string key n) = (Some ix, False)"
      using get_cell_ix_new [OF wf len nn pos False] .
    then show ?thesis by (simp add: json_object_getn_value_def)
  qed
  with False show ?thesis using map_of_items_None [OF wf, of "take n key"] by simp
qed

section \<open>Adding, growing and replacing\<close>

lemma masked_cong: "cell_capacity a = cell_capacity b \<Longrightarrow> masked a x = masked b x"
  by (simp add: masked_def)

lemma probe_ok_put:
  assumes pk: "probe_ok cs hm" and ix: "ix < length cs" and free: "cs ! ix = None"
    and same: "\<And>c. c < n \<Longrightarrow> hm' c = hm c" and old: "\<And>p c. p < length cs \<Longrightarrow> cs ! p = Some c \<Longrightarrow> c < n"
    and path: "\<forall>t < cdist (length cs) (hm' n) ix. cs ! ((hm' n + t) mod length cs) \<noteq> None"
  shows "probe_ok (cs[ix := Some n]) hm'"
proof -
  have keep: "cs[ix := Some n] ! q \<noteq> None" if "cs ! q \<noteq> None" for q
    using that ix by (cases "q = ix") auto
  show ?thesis
    unfolding probe_ok_def
  proof (intro allI impI)
    fix p c t
    assume p: "p < length (cs[ix := Some n])" and c: "cs[ix := Some n] ! p = Some c"
      and t: "t < cdist (length (cs[ix := Some n])) (hm' c) p"
    show "cs[ix := Some n] ! ((hm' c + t) mod length (cs[ix := Some n])) \<noteq> None"
    proof (cases "p = ix")
      case True
      then have "c = n" using c ix by simp
      with True t path show ?thesis by (intro keep) simp
    next
      case False
      then have c': "cs ! p = Some c" using c p by simp
      then have "c < n" using old p by simp
      with c' t p pk same show ?thesis by (intro keep) (auto simp: probe_ok_def)
    qed
  qed
qed

lemma put_wf:
  assumes wf: "wf_object ob" and room: "count ob < item_capacity ob" and nn: "no_nul name"
    and new: "name \<notin> set (names ob)" and ix: "ix < cell_capacity ob" and free: "cells ob ! ix = None"
    and h: "hash = hash_string name (length name)"
    and path: "\<forall>t < cdist (cell_capacity ob) (masked ob hash) ix.
       cells ob ! ((masked ob hash + t) mod cell_capacity ob) \<noteq> None"
  shows "wf_object (json_object_put ob name v hash ix)"
proof -
  let ?ob = "json_object_put ob name v hash ix"
  note d = wf_objectD [OF wf]
  have m: "masked ?ob x = masked ob x" for x
    by (rule masked_cong) (simp add: json_object_put_def)
  have sel: "cells ?ob = (cells ob)[ix := Some (count ob)]" "hashes ?ob = hashes ob @ [hash]"
    "names ?ob = names ob @ [name]" "vals ?ob = vals ob @ [v]" "cell_ixs ?ob = cell_ixs ob @ [ix]"
    "count ?ob = Suc (count ob)" "item_capacity ?ob = item_capacity ob"
    "cell_capacity ?ob = cell_capacity ob"
    by (simp_all add: json_object_put_def)
  have A: "cell_ixs ?ob ! i < cell_capacity ob \<and> cells ?ob ! (cell_ixs ?ob ! i) = Some i"
    if "i < Suc (count ob)" for i
    using that wf_cell_ixs [OF wf, of i] d(1,5) ix free
    by (cases "i = count ob") (auto simp: sel nth_append nth_list_update)
  have B: "c < Suc (count ob) \<and> cell_ixs ?ob ! c = p"
    if "p < cell_capacity ob" "cells ?ob ! p = Some c" for p c
    using that wf_cells [OF wf, of p c] d(1,5) by (cases "p = ix") (auto simp: sel nth_append)
  have C: "no_nul (names ?ob ! i) \<and> hashes ?ob ! i = hash_string (names ?ob ! i) (length (names ?ob ! i))"
    if "i < Suc (count ob)" for i
    unfolding sel using that wf_names [OF wf, of i] d(2,3) nn
    by (cases "i = count ob") (auto simp: nth_append h)
  have "probe_ok ((cells ob)[ix := Some (count ob)]) (\<lambda>c. masked ?ob (hashes ?ob ! c))"
    by (rule probe_ok_put [OF d(10)])
      (use d(1,2) ix free path wf_cells [OF wf] in \<open>auto simp: m sel nth_append\<close>)
  with A B C show ?thesis
    using d room new by (auto simp: wf_object_def sel)
qed

lemma items_put: "wf_object ob \<Longrightarrow> items (json_object_put ob name v hash ix) = items ob @ [(name, v)]"
  using wf_objectD(3,4) [of ob] by (simp add: items_def json_object_put_def)


lemma cap_okI: "4 \<le> k \<Longrightarrow> k \<le> 32 \<Longrightarrow> cap_ok (2 ^ k)"
  by (auto simp: cap_ok_def)

lemma cap_ok_bound: "cap_ok n \<Longrightarrow> n \<le> 2 ^ 32"
  by (auto simp: cap_ok_def intro: power_increasing [of _ 32 "2 :: nat", simplified])

lemma init_wf: "cap_ok n \<Longrightarrow> wf_object (json_object_init n)"
  using cap_ok_bound [of n] by (auto simp: json_object_init_def wf_object_def probe_ok_def)

lemma items_init [simp]: "items (json_object_init n) = []"
  by (simp add: items_def json_object_init_def)

lemma make_wf [inv_intros]: "wf_object json_object_make"
  by (simp add: json_object_make_def init_wf cap_ok_def)

lemma items_make [simp]: "items json_object_make = []"
  by (simp add: json_object_make_def)

text \<open>Adding with room: no growth, one store.\<close>

lemma put_room:
  assumes wf: "wf_object ob" and room: "count ob < item_capacity ob" and nn: "no_nul name"
    and new: "name \<notin> set (names ob)"
  obtains ix where
    "json_object_get_cell_ix ob name (length name) (hash_string name (length name)) = (Some ix, False)"
    "wf_object (json_object_put ob name v (hash_string name (length name)) ix)"
proof -
  have "cell_capacity ob \<noteq> 0" using room wf_objectD(7) [OF wf] by auto
  then obtain ix where
      "json_object_get_cell_ix ob name (length name) (hash_string name (length name)) = (Some ix, False)"
      "ix < cell_capacity ob" "cells ob ! ix = None"
      "\<forall>t < cdist (cell_capacity ob) (masked ob (hash_string name (length name))) ix.
        cells ob ! ((masked ob (hash_string name (length name)) + t) mod cell_capacity ob) \<noteq> None"
    using get_cell_ix_new [OF wf, of "length name" name] nn new by auto
  then show ?thesis
    using that put_wf [OF wf room nn new] by auto
qed

lemma add_d_room:
  assumes "wf_object ob" and "count ob < item_capacity ob" and "no_nul name" and "name \<notin> set (names ob)"
  obtains ob' where "json_object_add_d (Suc d) ob name v = Some (JSONSuccess, ob')" "wf_object ob'"
    "items ob' = items ob @ [(name, v)]" "cell_capacity ob' = cell_capacity ob"
    "count ob' = Suc (count ob)" "item_capacity ob' = item_capacity ob"
proof -
  obtain ix where
      "json_object_get_cell_ix ob name (length name) (hash_string name (length name)) = (Some ix, False)"
      "wf_object (json_object_put ob name v (hash_string name (length name)) ix)"
    using put_room [OF assms] .
  then show ?thesis
    using that [of "json_object_put ob name v (hash_string name (length name)) ix"] assms items_put [OF assms(1)]
    by (simp add: json_object_put_def)
qed

lemma rehash_loop_d:
  assumes "wf_object ob" and "distinct (names ob @ map fst kvs)" and "list_all no_nul (map fst kvs)"
    and "count ob + length kvs \<le> item_capacity ob"
  shows "\<exists>ob'. json_object_rehash_loop_d (Suc d) kvs ob = Some (JSONSuccess, ob') \<and> wf_object ob' \<and>
    items ob' = items ob @ kvs \<and> cell_capacity ob' = cell_capacity ob \<and>
    count ob' = count ob + length kvs \<and> item_capacity ob' = item_capacity ob"
  using assms
proof (induction kvs arbitrary: ob)
  case Nil
  then show ?case by simp
next
  case (Cons kv kvs)
  obtain k v where kv: "kv = (k, v)" by (cases kv)
  obtain ob1 where ob1: "json_object_add_d (Suc d) ob k v = Some (JSONSuccess, ob1)" "wf_object ob1"
      "items ob1 = items ob @ [(k, v)]" "cell_capacity ob1 = cell_capacity ob"
      "count ob1 = Suc (count ob)" "item_capacity ob1 = item_capacity ob"
    using add_d_room [of ob k d v] Cons.prems kv by auto
  have "names ob1 = names ob @ [k]"
    using map_fst_items [OF ob1(2)] map_fst_items [OF Cons.prems(1)] ob1(3) by simp
  then obtain ob2 where "json_object_rehash_loop_d (Suc d) kvs ob1 = Some (JSONSuccess, ob2)" "wf_object ob2"
      "items ob2 = items ob1 @ kvs" "cell_capacity ob2 = cell_capacity ob1"
      "count ob2 = count ob1 + length kvs" "item_capacity ob2 = item_capacity ob1"
    using Cons.IH [OF ob1(2)] Cons.prems kv ob1 by auto
  then show ?case using kv ob1 by simp
qed


lemma grow_d:
  assumes wf: "wf_object ob" and full: "item_capacity ob \<le> count ob" and small: "count ob < 2 ^ 31"
  obtains ob' where "json_object_grow_and_rehash_d (Suc d) ob = Some (JSONSuccess, ob')" "wf_object ob'"
    "items ob' = items ob" "count ob' < item_capacity ob'"
proof -
  let ?new = "max (cell_capacity ob * 2) STARTING_CAPACITY"
  note d = wf_objectD [OF wf]
  have cap: "cap_ok ?new" and more: "count ob < ?new * 7 div 10"
  proof -
    consider "cell_capacity ob = 0" | k where "4 \<le> k" "k \<le> 32" "cell_capacity ob = 2 ^ k"
      using d(6) by (auto simp: cap_ok_def)
    then have "cap_ok ?new \<and> count ob < ?new * 7 div 10"
    proof cases
      case 1
      then show ?thesis
        using cap_okI [of 4] d(7,8) by (simp add: STARTING_CAPACITY_def)
    next
      case 2
      have "k \<noteq> 32" using 2 d(7) full small by auto
      have "(2 :: nat) ^ 4 \<le> 2 ^ k" using 2 by (intro power_increasing) auto
      then have "?new = 2 ^ Suc k" using 2 by (simp add: STARTING_CAPACITY_def)
      moreover have "count ob < cell_capacity ob * 2 * 7 div 10"
      proof -
        have "16 \<le> cell_capacity ob" using \<open>2 ^ 4 \<le> 2 ^ k\<close> 2 by simp
        then show ?thesis using d(7,8) by linarith
      qed
      ultimately show ?thesis
        using 2 \<open>k \<noteq> 32\<close> cap_okI [of "Suc k"] by (simp add: mult.commute)
    qed
    then show "cap_ok ?new" "count ob < ?new * 7 div 10" by auto
  qed
  let ?init = "json_object_init ?new :: 'a json_object"
  have ic: "item_capacity ?init = ?new * 7 div 10"
    using wf_objectD(7) [OF init_wf [OF cap, where 'a = 'a]] by (simp add: json_object_init_def)
  have "names ?init = []" "count ?init = 0" by (simp_all add: json_object_init_def)
  moreover have "list_all no_nul (map fst (items ob))"
    using wf_names [OF wf] d(3) by (auto simp: map_fst_items [OF wf] list_all_length)
  ultimately obtain ob' where "json_object_rehash_loop_d (Suc d) (items ob) ?init = Some (JSONSuccess, ob')"
      "wf_object ob'" "items ob' = items ob" "count ob' = count ob" "item_capacity ob' = ?new * 7 div 10"
    using rehash_loop_d [OF init_wf [OF cap], of "items ob" d] d(9) more ic
    by (auto simp: map_fst_items [OF wf] length_items [OF wf])
  then show ?thesis
    using that [of ob'] more by (simp add: items_def Let_def)
qed

lemma get_cell_ix_hit:
  assumes wf: "wf_object ob" and nn: "no_nul name" and hit: "name \<in> set (names ob)"
  obtains i where "i < count ob" "names ob ! i = name"
    "json_object_get_cell_ix ob name (length name) (hash_string name (length name)) = (Some (cell_ixs ob ! i), True)"
proof -
  obtain i where "i < count ob" "names ob ! i = name"
    using hit wf_objectD(3) [OF wf] by (auto simp: in_set_conv_nth)
  then show ?thesis
    using that get_cell_ix_found [OF wf, of "length name" name i] nn by simp
qed

lemma get_cell_ix_miss:
  assumes wf: "wf_object ob" and nn: "no_nul name" and miss: "name \<notin> set (names ob)"
  shows "snd (json_object_get_cell_ix ob name (length name) (hash_string name (length name))) = False"
proof (cases "cell_capacity ob = 0")
  case True
  then show ?thesis by (simp add: get_cell_ix_empty_table)
next
  case False
  then obtain ix where
      "json_object_get_cell_ix ob name (length name) (hash_string name (length name)) = (Some ix, False)"
    using get_cell_ix_new [OF wf _ _ False, of "length name" name] nn miss by auto
  then show ?thesis by simp
qed

lemma add_hit:
  assumes "wf_object ob" and "no_nul name" and "name \<in> set (names ob)"
  shows "json_object_add ob name v = Some (JSONFailure, ob)"
proof -
  obtain i where
      "json_object_get_cell_ix ob name (length name) (hash_string name (length name)) = (Some (cell_ixs ob ! i), True)"
    using get_cell_ix_hit [OF assms] .
  then show ?thesis
    using assms(2) by (simp add: json_object_add_def numeral_2_eq_2)
qed

lemma add_new:
  assumes wf: "wf_object ob" and nn: "no_nul name" and new: "name \<notin> set (names ob)" and small: "count ob < 2 ^ 31"
  obtains ob' where "json_object_add ob name v = Some (JSONSuccess, ob')" "wf_object ob'"
    "items ob' = items ob @ [(name, v)]"
proof (cases "count ob < item_capacity ob")
  case True
  obtain ob' where "json_object_add_d (Suc 1) ob name v = Some (JSONSuccess, ob')" "wf_object ob'"
      "items ob' = items ob @ [(name, v)]"
    using add_d_room [OF wf True nn new] .
  then show ?thesis
    using that by (simp add: json_object_add_def numeral_2_eq_2)
next
  case False
  then obtain ob1 where ob1: "json_object_grow_and_rehash_d (Suc 0) ob = Some (JSONSuccess, ob1)" "wf_object ob1"
      "items ob1 = items ob" "count ob1 < item_capacity ob1"
    using grow_d [OF wf _ small] by auto
  have "names ob1 = names ob"
    using map_fst_items [OF wf] map_fst_items [OF ob1(2)] ob1(3) by simp
  then obtain ix where ix:
      "json_object_get_cell_ix ob1 name (length name) (hash_string name (length name)) = (Some ix, False)"
      "wf_object (json_object_put ob1 name v (hash_string name (length name)) ix)"
    using put_room [OF ob1(2,4) nn] new by metis
  have "json_object_add ob name v = Some (JSONSuccess, json_object_put ob1 name v (hash_string name (length name)) ix)"
    using False ob1(1) ix(1) nn get_cell_ix_miss [OF wf nn new]
    by (simp add: json_object_add_def numeral_2_eq_2 split_beta)
  then show ?thesis
    using that ix(2) items_put [OF ob1(2)] ob1(3) by auto
qed

lemma set_nth_items:
  assumes "wf_object ob" and "i < count ob"
  shows "zip (names ob) ((vals ob)[i := v]) = AList.update (names ob ! i) v (items ob)"
proof -
  have upd: "AList.update (ks ! i) v (zip ks vs) = zip ks (vs[i := v])"
    if "distinct ks" "length ks = length vs" "i < length ks" for ks :: "string list" and vs i
    using that
  proof (induction ks arbitrary: vs i)
    case (Cons k ks)
    then obtain w ws where "vs = w # ws" by (cases vs) auto
    then show ?case using Cons by (cases i) auto
  qed simp
  show ?thesis
    using assms wf_objectD(3,4,9) [OF assms(1)] by (simp add: items_def upd)
qed

lemma names_fst_items: "wf_object ob \<Longrightarrow> fst ` set (items ob) = set (names ob)"
  by (simp flip: map_fst_items image_set)

text \<open>What makes a new name fail: a copy of it that cannot be allocated, or a table that cannot grow.\<close>

definition set_refused :: "alloc \<Rightarrow> 'v json_object \<Rightarrow> string \<Rightarrow> bool" where
  "set_refused al ob name \<longleftrightarrow>
     name \<notin> fst ` set (items ob) \<and> (\<not> dup_room al \<or> item_capacity ob \<le> count ob \<and> \<not> grow_room al)"

lemma set_spec:
  assumes wf: "wf_object ob" and nn: "no_nul name" and small: "count ob < 2 ^ 31"
  obtains ob' where
    "json_object_store al ob name v = Some (if set_refused al ob name then JSONFailure else JSONSuccess, ob')" "wf_object ob'"
    "items ob' = (if set_refused al ob name then items ob else AList.update name v (items ob))"
proof (cases "name \<in> set (names ob)")
  case True
  then obtain i where i: "i < count ob" "names ob ! i = name"
      "json_object_get_cell_ix ob name (length name) (hash_string name (length name)) = (Some (cell_ixs ob ! i), True)"
    using get_cell_ix_hit [OF wf nn] by blast
  let ?ob = "JSON_Object (cells ob) (hashes ob) (names ob) ((vals ob)[i := v]) (cell_ixs ob) (count ob)
    (item_capacity ob) (cell_capacity ob)"
  have "masked ?ob = masked ob" by (rule ext) (rule masked_cong, simp)
  then have "wf_object ?ob" using wf by (simp add: wf_object_def)
  moreover have "json_object_store al ob name v = Some (JSONSuccess, ?ob)"
    using i nn wf_cell_ixs [OF wf i(1)] by (simp add: json_object_store_def)
  moreover have "\<not> set_refused al ob name"
    using True by (simp add: set_refused_def names_fst_items [OF wf])
  ultimately show ?thesis
    using that set_nth_items [OF wf i(1), of v] i(2) by (auto simp: items_def)
next
  case new: False
  then have upd: "AList.update name v (items ob) = items ob @ [(name, v)]"
    by (intro alist_update_new) (simp flip: map_fst_items [OF wf] image_set)
  have rf: "set_refused al ob name \<longleftrightarrow> \<not> dup_room al \<or> item_capacity ob \<le> count ob \<and> \<not> grow_room al"
    using new by (simp add: set_refused_def names_fst_items [OF wf])
  let ?h = "hash_string name (length name)"
  note miss = get_cell_ix_miss [OF wf nn new]
  show ?thesis
  proof (cases "set_refused al ob name")
    case False
    then have al: "dup_room al" "item_capacity ob \<le> count ob \<Longrightarrow> grow_room al" by (auto simp: rf)
    obtain ob' where "json_object_add ob name v = Some (JSONSuccess, ob')" "wf_object ob'"
        "items ob' = items ob @ [(name, v)]"
      using add_new [OF wf nn new small] .
    moreover have "json_object_store al ob name v = json_object_add ob name v"
    proof (cases "item_capacity ob \<le> count ob")
      case True
      then have gr: "grow_room al = True" "dup_room al = True" using al by auto
      show ?thesis
        using miss nn
        unfolding json_object_store_def json_object_add_def json_object_grow_and_rehash_def
          numeral_2_eq_2 One_nat_def json_object_add_d.simps gr not_True_eq_False if_False
        by (simp add: split_beta)
    next
      case False
      have du: "dup_room al = True" using al by auto
      show ?thesis
        using miss nn False
        unfolding json_object_store_def json_object_add_def json_object_grow_and_rehash_def
          numeral_2_eq_2 One_nat_def json_object_add_d.simps du not_True_eq_False if_False
        by (simp add: split_beta)
    qed
    ultimately show ?thesis using that upd False by simp
  next
    case True
    have "\<exists>ob'. json_object_store al ob name v = Some (JSONFailure, ob') \<and> wf_object ob' \<and> items ob' = items ob"
    proof (cases "item_capacity ob \<le> count ob \<and> grow_room al")
      case False
      with True rf have "item_capacity ob \<le> count ob \<and> \<not> grow_room al \<or> \<not> item_capacity ob \<le> count ob \<and> \<not> dup_room al"
        by auto
      moreover obtain ix where "\<not> item_capacity ob \<le> count ob \<Longrightarrow> json_object_get_cell_ix ob name (length name) ?h = (Some ix, False)"
        using put_room [OF wf _ nn new] by (metis not_le)
      ultimately show ?thesis
        using miss nn wf by (auto simp: json_object_store_def split_beta)
    next
      case grow: True
      with True rf have nd: "\<not> dup_room al" by auto
      obtain ob1 where ob1: "json_object_grow_and_rehash_d (Suc 0) ob = Some (JSONSuccess, ob1)" "wf_object ob1"
          "items ob1 = items ob" "count ob1 < item_capacity ob1"
        using grow_d [OF wf _ small] grow by auto
      have "names ob1 = names ob"
        using map_fst_items [OF wf] map_fst_items [OF ob1(2)] ob1(3) by simp
      then obtain ix where "json_object_get_cell_ix ob1 name (length name) ?h = (Some ix, False)"
        using put_room [OF ob1(2,4) nn] new by metis
      then show ?thesis
        using grow nd ob1 miss nn by (simp add: json_object_store_def json_object_grow_and_rehash_def split_beta)
    qed
    then show ?thesis using that True by auto
  qed
qed


section \<open>Removal by backward shift\<close>

lemma cdist_split:
  assumes "a < n" and "p < n" and "t \<le> cdist n a p"
  shows "cdist n a p = t + cdist n ((a + t) mod n) p"
proof (cases "a + t < n")
  case True
  with assms show ?thesis by (simp add: cdist_alt split: if_splits)
next
  case False
  have "t < n" using assms cdist_less [of n a p] by linarith
  then have m: "(a + t) mod n = a + t - n" "a + t - n < n" using False assms by (auto simp: mod_if)
  show ?thesis unfolding m(1) using assms m(2) False by (auto simp: cdist_alt split: if_splits)
qed

lemma cdist_ge_split:
  "a < n \<Longrightarrow> i < n \<Longrightarrow> p < n \<Longrightarrow> cdist n i p \<le> cdist n a p \<Longrightarrow> cdist n a p = cdist n a i + cdist n i p"
  by (auto simp: cdist_alt split: if_splits)

lemma cdist_Suc: "i < n \<Longrightarrow> j < n \<Longrightarrow> Suc (cdist n i j) < n \<Longrightarrow> cdist n i (Suc j mod n) = Suc (cdist n i j)"
  by (auto simp: cdist_alt mod_if split: if_splits)

lemma cdist_inj: "i < n \<Longrightarrow> p < n \<Longrightarrow> q < n \<Longrightarrow> cdist n i p = cdist n i q \<Longrightarrow> p = q"
  by (auto simp: cdist_alt split: if_splits)

lemma cdist_from_Suc: "j < n \<Longrightarrow> e < n \<Longrightarrow> j \<noteq> e \<Longrightarrow> Suc (cdist n (Suc j mod n) e) = cdist n j e"
  by (auto simp: cdist_alt mod_if split: if_splits)

text \<open>The shift condition of the removal loop, as a comparison of cyclic distances.\<close>

lemma shift_condition:
  "i < n \<Longrightarrow> j < n \<Longrightarrow> k < n \<Longrightarrow> i \<noteq> j \<Longrightarrow>
     ((j > i \<and> (k \<le> i \<or> k > j)) \<or> (j < i \<and> (k \<le> i \<and> k > j))) \<longleftrightarrow> cdist n i j \<le> cdist n k j"
  by (auto simp: cdist_alt)

definition hole_frame :: "nat \<Rightarrow> nat \<Rightarrow> (nat \<Rightarrow> nat) \<Rightarrow> nat \<Rightarrow> nat option list \<Rightarrow> nat list \<Rightarrow> bool" where
  "hole_frame n m hm i cs cixs \<longleftrightarrow>
     length cs = n \<and> length cixs = m \<and> i < n \<and> cs ! i \<noteq> None \<and> (\<forall>c < m. hm c < n) \<and>
     (\<forall>c < m. cixs ! c < n \<and> cixs ! c \<noteq> i \<and> cs ! (cixs ! c) = Some c) \<and>
     (\<forall>p < n. p \<noteq> i \<longrightarrow> (\<forall>c. cs ! p = Some c \<longrightarrow> c < m \<and> cixs ! c = p))"

definition hole_probe :: "nat \<Rightarrow> (nat \<Rightarrow> nat) \<Rightarrow> nat \<Rightarrow> nat \<Rightarrow> nat option list \<Rightarrow> bool" where
  "hole_probe n hm i j cs \<longleftrightarrow>
     (\<forall>p < n. p \<noteq> i \<longrightarrow> (\<forall>c. cs ! p = Some c \<longrightarrow>
        (\<forall>t < cdist n (hm c) p. cs ! ((hm c + t) mod n) \<noteq> None \<and>
           ((hm c + t) mod n = i \<longrightarrow> cdist n i j < cdist n i p))))"

definition hole_inv :: "nat \<Rightarrow> nat \<Rightarrow> (nat \<Rightarrow> nat) \<Rightarrow> nat \<Rightarrow> nat \<Rightarrow> nat option list \<Rightarrow> nat list \<Rightarrow> bool" where
  "hole_inv n m hm i j cs cixs \<longleftrightarrow> hole_frame n m hm i cs cixs \<and> hole_probe n hm i j cs"

lemma hole_frameD:
  assumes "hole_frame n m hm i cs cixs"
  shows "length cs = n" "length cixs = m" "c < m \<Longrightarrow> cixs ! c < n" "c < m \<Longrightarrow> cixs ! c \<noteq> i"
    "c < m \<Longrightarrow> cs ! (cixs ! c) = Some c" "i < n"
    "p < n \<Longrightarrow> p \<noteq> i \<Longrightarrow> cs ! p = Some c \<Longrightarrow> c < m \<and> cixs ! c = p"
  using assms by (simp_all add: hole_frame_def)

lemma hole_invD:
  assumes "hole_inv n m hm i j cs cixs"
  shows "length cs = n" "length cixs = m" "i < n" "hole_frame n m hm i cs cixs" "cs ! i \<noteq> None"
    "c < m \<Longrightarrow> hm c < n" "c < m \<Longrightarrow> cixs ! c < n" "c < m \<Longrightarrow> cixs ! c \<noteq> i"
    "c < m \<Longrightarrow> cs ! (cixs ! c) = Some c"
    "p < n \<Longrightarrow> p \<noteq> i \<Longrightarrow> cs ! p = Some c \<Longrightarrow> c < m"
    "p < n \<Longrightarrow> p \<noteq> i \<Longrightarrow> cs ! p = Some c \<Longrightarrow> cixs ! c = p"
    "p < n \<Longrightarrow> p \<noteq> i \<Longrightarrow> cs ! p = Some c \<Longrightarrow> t < cdist n (hm c) p \<Longrightarrow> cs ! ((hm c + t) mod n) \<noteq> None"
    "p < n \<Longrightarrow> p \<noteq> i \<Longrightarrow> cs ! p = Some c \<Longrightarrow> t < cdist n (hm c) p \<Longrightarrow> (hm c + t) mod n = i \<Longrightarrow>
       cdist n i j < cdist n i p"
  using assms by (simp_all add: hole_inv_def hole_frame_def hole_probe_def)

text \<open>A cell whose probe path crosses the hole moves into it; the hole moves to that cell.\<close>

lemma hole_inv_shift:
  assumes h: "hole_inv n m hm i j cs cixs" and j': "j' < n" "j' \<noteq> i" and c: "cs ! j' = Some c"
    and ge: "cdist n i j' \<le> cdist n (hm c) j'"
  shows "hole_inv n m hm j' j' (cs[i := Some c]) (cixs[c := i])"
proof -
  note d = hole_invD [OF h]
  have cm: "c < m" and cj: "cixs ! c = j'" using d(10,11) j' c by auto
  have split: "cdist n (hm c) j' = cdist n (hm c) i + cdist n i j'"
    using cdist_ge_split [OF d(6) [OF cm] d(3) j'(1) ge] .
  have keep: "(cs[i := Some c]) ! q \<noteq> None" if "cs ! q \<noteq> None" for q
    using that d(1,3) by (cases "q = i") auto
  have A: "cixs[c := i] ! x < n \<and> cixs[c := i] ! x \<noteq> j' \<and> (cs[i := Some c]) ! (cixs[c := i] ! x) = Some x"
    if "x < m" for x
  proof (cases "x = c")
    case True
    then show ?thesis using d(1,2,3) cm j' by simp
  next
    case False
    then have "cixs ! x \<noteq> j'" using d(9) [OF that] c by auto
    then show ?thesis using False d(1,2) d(7-9) [OF that] by simp
  qed
  have B: "y < m \<and> cixs[c := i] ! y = p"
    if "p < n" "p \<noteq> j'" "(cs[i := Some c]) ! p = Some y" for p y
  proof (cases "p = i")
    case True
    then show ?thesis using that d(1,2,3) cm by simp
  next
    case False
    then have "cs ! p = Some y" using that by simp
    then have "y < m" "cixs ! y = p" using d(10,11) that(1) False by auto
    then show ?thesis using cj that(2) by (cases "y = c") auto
  qed
  have C: "(cs[i := Some c]) ! ((hm y + t) mod n) \<noteq> None"
    if p: "p < n" "p \<noteq> j'" "(cs[i := Some c]) ! p = Some y" and t: "t < cdist n (hm y) p" for p y t
  proof (cases "p = i")
    case True
    then have "y = c" using p d(1,3) by simp
    then have "t < cdist n (hm c) j'" using t True split by simp
    then show ?thesis using d(12) [OF j' c] \<open>y = c\<close> by (intro keep) simp
  next
    case False
    then show ?thesis using d(12) [OF p(1) False _ t] p(3) by (intro keep) simp
  qed
  have D: "0 < cdist n j' p" if "p < n" "p \<noteq> j'" for p
    using that j' cdist_0_iff [of j' n p] by simp
  have "hole_frame n m hm j' (cs[i := Some c]) (cixs[c := i])"
    unfolding hole_frame_def using A B d(1,2,6) j' keep c by simp
  moreover have "hole_probe n hm j' j' (cs[i := Some c])"
    unfolding hole_probe_def using C D j' by simp
  ultimately show ?thesis by (simp add: hole_inv_def)
qed

lemma hole_inv_skip:
  assumes h: "hole_inv n m hm i j cs cixs" and j': "j' < n" "j' \<noteq> i" and c: "cs ! j' = Some c"
    and dj: "cdist n i j' = Suc (cdist n i j)" and lt: "cdist n (hm c) j' < cdist n i j'"
  shows "hole_inv n m hm i j' cs cixs"
proof -
  note d = hole_invD [OF h]
  have E: "cdist n i j' < cdist n i p"
    if p: "p < n" "p \<noteq> i" "cs ! p = Some y" and t: "t < cdist n (hm y) p" and q: "(hm y + t) mod n = i" for p y t
  proof -
    have "cdist n i j < cdist n i p" using d(13) [OF p t q] .
    moreover have "cdist n i p \<noteq> cdist n i j'"
    proof
      assume "cdist n i p = cdist n i j'"
      then have "p = j'" using cdist_inj d(3) p(1) j'(1) by blast
      then have "y = c" using p(3) c by simp
      have ym: "y < m" using d(10) p by blast
      have "cdist n (hm y) p = t + cdist n i p"
        using cdist_split [OF d(6) [OF ym] p(1), of t] t q by simp
      with lt \<open>p = j'\<close> \<open>y = c\<close> show False by simp
    qed
    ultimately show ?thesis using dj by linarith
  qed
  have "hole_probe n hm i j' cs"
    unfolding hole_probe_def using E d(12) by simp
  then show ?thesis using d(4) by (simp add: hole_inv_def)
qed

text \<open>When the loop meets a free cell, no probe path crosses the hole any more.\<close>

lemma hole_inv_done:
  assumes h: "hole_inv n m hm i j cs cixs" and j': "j' < n" and free: "cs ! j' = None"
    and dj: "cdist n i j' = Suc (cdist n i j)"
  shows "probe_ok (cs[i := None]) hm"
  unfolding probe_ok_def
proof (intro allI impI)
  note d = hole_invD [OF h]
  fix p c t
  assume p: "p < length (cs[i := None])" and c: "cs[i := None] ! p = Some c"
    and t: "t < cdist (length (cs[i := None])) (hm c) p"
  have pn: "p < n" "p \<noteq> i" and cp: "cs ! p = Some c"
    using p c d(1,3) by (auto simp: nth_list_update split: if_splits)
  have tn: "t < cdist n (hm c) p" using t d(1) by simp
  have cm: "c < m" using d(10) [OF pn cp] .
  have "(hm c + t) mod n \<noteq> i"
  proof
    assume q: "(hm c + t) mod n = i"
    have "cdist n i j' \<noteq> cdist n i p" using cdist_inj [OF d(3) j' pn(1)] free cp by auto
    then have lt: "cdist n i j' < cdist n i p" using d(13) [OF pn cp tn q] dj by linarith
    have "cdist n (hm c) p = t + cdist n i p"
      using cdist_split [OF d(6) [OF cm] pn(1), of t] tn q by simp
    then have "t + cdist n i j' < cdist n (hm c) p" using lt by simp
    moreover have "(hm c + (t + cdist n i j')) mod n = j'"
      using q add_cdist_mod [OF d(3) j'] by (metis add.assoc mod_add_left_eq)
    ultimately show False using d(12) [OF pn cp, of "t + cdist n i j'"] free by simp
  qed
  then show "cs[i := None] ! ((hm c + t) mod length (cs[i := None])) \<noteq> None"
    using d(12) [OF pn cp tn] d(1) by simp
qed


lemma remove_loop_spec:
  assumes msk: "\<And>j. j < n \<Longrightarrow> msk (of_nat (j + 1)) = Suc j mod n" and hm: "\<And>c. c < m \<Longrightarrow> msk (hs ! c) = hm c"
  shows "hole_inv n m hm i j cs cixs \<Longrightarrow> j < n \<Longrightarrow> cs ! j \<noteq> None \<Longrightarrow> e < n \<Longrightarrow> cs ! e = None \<Longrightarrow>
    cdist n i j < cdist n i e \<Longrightarrow> x + cdist n j e < n \<Longrightarrow>
    (case json_object_remove_loop msk n hs x i j cs cixs of (i', cs', cixs') \<Rightarrow>
       hole_frame n m hm i' cs' cixs' \<and> probe_ok (cs'[i' := None]) hm)"
proof (induction "cdist n j e" arbitrary: x i j cs cixs)
  case 0
  then have "j = e" using cdist_0_iff [of j n e] by simp
  then show ?case using 0 by simp
next
  case (Suc r)
  let ?j = "Suc j mod n"
  note d = hole_invD [OF Suc.prems(1)]
  have "j \<noteq> e" using Suc.prems by auto
  have j': "?j < n" and sj: "Suc (cdist n ?j e) = cdist n j e"
    using Suc.prems(2,4) \<open>j \<noteq> e\<close> cdist_from_Suc by auto
  have x: "x < n - 1" using Suc.prems(7) Suc.hyps(2) by linarith
  have ce: "cdist n i e < n" using cdist_less [of n i e] d(3) by linarith
  then have dj: "cdist n i ?j = Suc (cdist n i j)"
    using cdist_Suc [OF d(3) Suc.prems(2)] Suc.prems(6) by linarith
  have ji: "?j \<noteq> i" using dj d(3) by auto
  note unf = json_object_remove_loop.simps [of msk n hs x i j cs cixs]
  have mj: "msk (of_nat (j + 1)) = ?j" using msk [OF Suc.prems(2)] .
  show ?case
  proof (cases "cs ! ?j")
    case None
    then have "json_object_remove_loop msk n hs x i j cs cixs = (i, cs, cixs)"
      using x mj by (simp add: unf)
    with d(4) hole_inv_done [OF Suc.prems(1) j' None dj] show ?thesis by simp
  next
    case (Some c)
    have cm: "c < m" using d(10) [OF j' ji Some] .
    have je: "?j \<noteq> e" using Some Suc.prems(5) by auto
    have cond: "((?j > i \<and> (hm c \<le> i \<or> hm c > ?j)) \<or> (?j < i \<and> (hm c \<le> i \<and> hm c > ?j))) \<longleftrightarrow>
       cdist n i ?j \<le> cdist n (hm c) ?j"
      using shift_condition [OF d(3) j' d(6) [OF cm]] ji by auto
    show ?thesis
    proof (cases "cdist n i ?j \<le> cdist n (hm c) ?j")
      case True
      have eq: "json_object_remove_loop msk n hs x i j cs cixs =
        json_object_remove_loop msk n hs (Suc x) ?j ?j (cs[i := Some c]) (cixs[c := i])"
        unfolding unf using x mj Some hm [OF cm] cond True by (simp add: Let_def)
      have "0 < cdist n ?j e" using cdist_0_iff [OF j' Suc.prems(4)] je by simp
      moreover have "(cs[i := Some c]) ! e = None" using Suc.prems(5) d(5) by (cases "e = i") auto
      moreover have "(cs[i := Some c]) ! ?j \<noteq> None" using Some ji by simp
      ultimately show ?thesis
        unfolding eq using Suc.hyps sj Suc.prems(4,7) j' hole_inv_shift [OF Suc.prems(1) j' ji Some True]
        by (intro Suc.hyps(1)) auto
    next
      case False
      have eq: "json_object_remove_loop msk n hs x i j cs cixs =
        json_object_remove_loop msk n hs (Suc x) i ?j cs cixs"
        unfolding unf using x mj Some hm [OF cm] cond False by (auto simp: Let_def)
      have "cdist n i ?j \<noteq> cdist n i e" using cdist_inj [OF d(3) j' Suc.prems(4)] je by auto
      then have "cdist n i ?j < cdist n i e" using dj Suc.prems(6) by linarith
      then show ?thesis
        unfolding eq using Suc.hyps sj Suc.prems(4,5,7) j' Some False
          hole_inv_skip [OF Suc.prems(1) j' ji Some dj]
        by (intro Suc.hyps(1)) auto
    qed
  qed
qed


definition swap_remove :: "nat \<Rightarrow> 'a list \<Rightarrow> 'a list" where
  "swap_remove i xs = butlast (xs[i := last xs])"

lemma length_swap_remove [simp]: "length (swap_remove i xs) = length xs - 1"
  by (simp add: swap_remove_def)

lemma nth_swap_remove:
  assumes "c < length xs - 1"
  shows "swap_remove i xs ! c = (if c = i then last xs else xs ! c)"
  using assms by (simp add: swap_remove_def nth_butlast nth_list_update)

lemma swap_remove_last: "i = length xs - 1 \<Longrightarrow> swap_remove i xs = butlast xs"
  by (cases xs rule: rev_cases) (simp_all add: swap_remove_def list_update_append)

lemma swap_remove_zip:
  assumes "length xs = length ys" and "i < length xs"
  shows "swap_remove i (zip xs ys) = zip (swap_remove i xs) (swap_remove i ys)"
proof (rule nth_equalityI)
  have "xs \<noteq> []" "ys \<noteq> []" using assms by auto
  then have "last (zip xs ys) = (last xs, last ys)" using assms(1) by (intro last_zip)
  moreover fix c assume "c < length (swap_remove i (zip xs ys))"
  ultimately show "swap_remove i (zip xs ys) ! c = zip (swap_remove i xs) (swap_remove i ys) ! c"
    using assms by (auto simp: nth_swap_remove)
qed (use assms in simp)

lemma set_swap_remove:
  assumes "distinct xs" and "i < length xs"
  shows "set (swap_remove i xs) = set xs - {xs ! i} \<and> distinct (swap_remove i xs)"
proof (cases "i = length xs - 1")
  case True
  then show ?thesis
    using assms by (cases xs rule: rev_cases) (auto simp: swap_remove_last)
next
  case False
  obtain ys z where xs: "xs = ys @ [z]" using assms(2) by (cases xs rule: rev_cases) auto
  then have i: "i < length ys" using assms(2) False by simp
  have "swap_remove i xs = ys[i := z]" using xs i by (simp add: swap_remove_def list_update_append)
  then show ?thesis
    using assms(1) xs i nth_mem [OF i]
    by (auto simp: set_update_distinct distinct_list_update nth_append)
qed

lemma map_of_swap_remove:
  assumes "distinct (map fst al)" and "i < length al"
  shows "map_of (swap_remove i al) = (map_of al)(fst (al ! i) := None)"
proof -
  have "map fst (swap_remove i al) = swap_remove i (map fst al)"
  proof -
    have "al \<noteq> []" using assms(2) by auto
    then show ?thesis by (simp add: swap_remove_def map_butlast map_update last_map)
  qed
  then have dm: "distinct (map fst (swap_remove i al))"
    using set_swap_remove [OF assms(1)] assms(2) by simp
  have sm: "set (swap_remove i al) = set al - {al ! i}"
    using set_swap_remove [of al i] assms distinct_map by blast
  show ?thesis
  proof (rule ext)
    fix k
    show "map_of (swap_remove i al) k = ((map_of al)(fst (al ! i) := None)) k"
    proof (rule option_eqI)
      fix v
      show "map_of (swap_remove i al) k = Some v \<longleftrightarrow> ((map_of al)(fst (al ! i) := None)) k = Some v"
        using dm sm assms(1) nth_mem [OF assms(2)] eq_key_imp_eq_value [OF assms(1), of k v "snd (al ! i)"]
        by (cases "al ! i") (auto simp: map_of_eq_Some_iff)
    qed
  qed
qed


lemma swap_remove_stores:
  assumes "length xs = n" and "i < n"
  shows "i < n - 1 \<Longrightarrow> butlast (xs[i := xs ! (n - 1)]) = swap_remove i xs"
    and "\<not> i < n - 1 \<Longrightarrow> butlast xs = swap_remove i xs"
proof -
  have "xs \<noteq> []" using assms by auto
  then show "i < n - 1 \<Longrightarrow> butlast (xs[i := xs ! (n - 1)]) = swap_remove i xs"
    using assms by (simp add: swap_remove_def last_conv_nth)
  show "\<not> i < n - 1 \<Longrightarrow> butlast xs = swap_remove i xs"
  proof -
    assume "\<not> i < n - 1"
    then have "i = length xs - 1" using assms by linarith
    then show ?thesis by (simp add: swap_remove_last)
  qed
qed

lemma swap_last_sel:
  assumes wf: "wf_object ob" and i: "i < count ob"
  shows "hashes (json_object_swap_last ob i) = swap_remove i (hashes ob)"
    "names (json_object_swap_last ob i) = swap_remove i (names ob)"
    "vals (json_object_swap_last ob i) = swap_remove i (vals ob)"
    "cell_ixs (json_object_swap_last ob i) = swap_remove i (cell_ixs ob)"
    "count (json_object_swap_last ob i) = count ob - 1"
    "item_capacity (json_object_swap_last ob i) = item_capacity ob"
    "cell_capacity (json_object_swap_last ob i) = cell_capacity ob"
    "cells (json_object_swap_last ob i) =
       (if i < count ob - 1 then (cells ob)[cell_ixs ob ! (count ob - 1) := Some i] else cells ob)"
proof -
  note st = swap_remove_stores [OF wf_objectD(2) [OF wf] i] swap_remove_stores [OF wf_objectD(3) [OF wf] i]
    swap_remove_stores [OF wf_objectD(4) [OF wf] i] swap_remove_stores [OF wf_objectD(5) [OF wf] i]
  have "json_object_swap_last ob i =
    JSON_Object (if i < count ob - 1 then (cells ob)[cell_ixs ob ! (count ob - 1) := Some i] else cells ob)
      (swap_remove i (hashes ob)) (swap_remove i (names ob)) (swap_remove i (vals ob))
      (swap_remove i (cell_ixs ob)) (count ob - 1) (item_capacity ob) (cell_capacity ob)"
  proof (cases "i < count ob - 1")
    case True
    then show ?thesis by (simp only: json_object_swap_last_def Let_def st if_True)
  next
    case False
    then show ?thesis
      by (simp only: json_object_swap_last_def Let_def if_False st(2,4,6,8) [OF False])
  qed
  then show "hashes (json_object_swap_last ob i) = swap_remove i (hashes ob)"
    "names (json_object_swap_last ob i) = swap_remove i (names ob)"
    "vals (json_object_swap_last ob i) = swap_remove i (vals ob)"
    "cell_ixs (json_object_swap_last ob i) = swap_remove i (cell_ixs ob)"
    "count (json_object_swap_last ob i) = count ob - 1"
    "item_capacity (json_object_swap_last ob i) = item_capacity ob"
    "cell_capacity (json_object_swap_last ob i) = cell_capacity ob"
    "cells (json_object_swap_last ob i) =
       (if i < count ob - 1 then (cells ob)[cell_ixs ob ! (count ob - 1) := Some i] else cells ob)"
    by (simp_all only: json_object.sel)
qed

lemma swap_last_hole:
  assumes wf: "wf_object ob" and i: "i < count ob"
  defines "ob1 \<equiv> json_object_swap_last ob i" and "n \<equiv> cell_capacity ob" and "cell \<equiv> cell_ixs ob ! i"
  shows "hole_inv n (count ob - 1) (\<lambda>c. masked ob (hashes ob1 ! c)) cell cell (cells ob1) (cell_ixs ob1)"
    and "p < n \<Longrightarrow> cells ob1 ! p = None \<longleftrightarrow> cells ob ! p = None"
proof -
  let ?m = "count ob - 1" and ?L = "cell_ixs ob ! (count ob - 1)"
  note d = wf_objectD [OF wf]
  note sel = swap_last_sel [OF wf i, folded ob1_def]
  have Lm: "?m < count ob" using i by simp
  have L: "?L < n" "cells ob ! ?L = Some ?m" using wf_cell_ixs [OF wf Lm] n_def by auto
  have cell: "cell < n" "cells ob ! cell = Some i" using wf_cell_ixs [OF wf i] n_def cell_def by auto
  have last: "last (cell_ixs ob) = ?L" "last (hashes ob) = hashes ob ! ?m"
    using d(2,5) i last_conv_nth [of "cell_ixs ob"] last_conv_nth [of "hashes ob"] by force+
  have cixs: "cell_ixs ob1 ! c = (if c = i then ?L else cell_ixs ob ! c)" if "c < ?m" for c
    using that nth_swap_remove [of c "cell_ixs ob" i] d(5) last by (simp add: sel)
  have hs: "hashes ob1 ! c = (if c = i then hashes ob ! ?m else hashes ob ! c)" if "c < ?m" for c
    using that nth_swap_remove [of c "hashes ob" i] d(2) last by (simp add: sel)
  have cs: "cells ob1 ! p = (if i < ?m \<and> p = ?L then Some i else cells ob ! p)" if "p < n" for p
    using that d(1) n_def by (auto simp: sel)
  show none: "cells ob1 ! p = None \<longleftrightarrow> cells ob ! p = None" if "p < n" for p
    using cs [OF that] L by auto
  text \<open>The item a cell names, seen in the old table.\<close>
  have old: "\<exists>c0. cells ob ! p = Some c0 \<and> c < ?m \<and> cell_ixs ob1 ! c = p \<and> hashes ob1 ! c = hashes ob ! c0"
    if p: "p < n" "p \<noteq> cell" "cells ob1 ! p = Some c" for p c
  proof (cases "i < ?m \<and> p = ?L")
    case True
    then show ?thesis using p cs cixs hs L by auto
  next
    case False
    then have cp: "cells ob ! p = Some c" using p cs by auto
    then have c: "c < count ob" "cell_ixs ob ! c = p" using wf_cells [OF wf] p n_def by auto
    have "c \<noteq> i" using c p cell_def by auto
    moreover have "c \<noteq> ?m" using c False i \<open>c \<noteq> i\<close> by auto
    ultimately show ?thesis using c cp cixs hs by auto
  qed
  have frame: "hole_frame n ?m (\<lambda>c. masked ob (hashes ob1 ! c)) cell (cells ob1) (cell_ixs ob1)"
  proof -
    have "cell_ixs ob1 ! c < n \<and> cell_ixs ob1 ! c \<noteq> cell \<and> cells ob1 ! (cell_ixs ob1 ! c) = Some c"
      if c: "c < ?m" for c
    proof (cases "c = i")
      case True
      then show ?thesis using c cixs cs L cell by auto
    next
      case False
      then have "cell_ixs ob ! c < n" "cells ob ! (cell_ixs ob ! c) = Some c"
        using wf_cell_ixs [OF wf, of c] c n_def by auto
      moreover from this have "cell_ixs ob ! c \<noteq> cell" "cell_ixs ob ! c \<noteq> ?L"
        using cell L False c by auto
      ultimately show ?thesis using False c cixs cs by auto
    qed
    moreover have "masked ob x < n" for x
      using masked_less [OF d(6)] wf_cap_pos [OF wf i] n_def by simp
    moreover have "cells ob1 ! cell \<noteq> None" using none [OF cell(1)] cell(2) by simp
    moreover have "length (cells ob1) = n" "length (cell_ixs ob1) = ?m"
      using d(1,5) n_def by (simp_all add: sel)
    moreover have "c < ?m \<and> cell_ixs ob1 ! c = p" if "p < n" "p \<noteq> cell" "cells ob1 ! p = Some c" for p c
      using old [OF that] by blast
    ultimately show ?thesis
      unfolding hole_frame_def using cell(1) by simp
  qed
  have "hole_probe n (\<lambda>c. masked ob (hashes ob1 ! c)) cell cell (cells ob1)"
    unfolding hole_probe_def
  proof (intro allI impI conjI)
    fix p c t
    assume p: "p < n" "p \<noteq> cell" "cells ob1 ! p = Some c" and t: "t < cdist n (masked ob (hashes ob1 ! c)) p"
    obtain c0 where c0: "cells ob ! p = Some c0" "hashes ob1 ! c = hashes ob ! c0" using old [OF p] by auto
    then have "cells ob ! ((masked ob (hashes ob1 ! c) + t) mod n) \<noteq> None"
      using d(1,10) p t n_def by (simp add: probe_ok_def)
    then show "cells ob1 ! ((masked ob (hashes ob1 ! c) + t) mod n) \<noteq> None" using none p by simp
    show "cdist n cell cell < cdist n cell p" using cdist_0_iff [OF cell(1) p(1)] p cell by simp
  qed
  with frame show "hole_inv n ?m (\<lambda>c. masked ob (hashes ob1 ! c)) cell cell (cells ob1) (cell_ixs ob1)"
    by (simp add: hole_inv_def)
qed


lemma remove_hit:
  assumes wf: "wf_object ob" and nn: "no_nul name" and hit: "name \<in> set (names ob)"
  obtains i ob' where "i < count ob" "names ob ! i = name"
    "json_object_remove_internal ob name = (JSONSuccess, ob')" "wf_object ob'"
    "items ob' = swap_remove i (items ob)"
proof -
  obtain i where i: "i < count ob" "names ob ! i = name"
      "json_object_get_cell_ix ob name (length name) (hash_string name (length name)) = (Some (cell_ixs ob ! i), True)"
    using get_cell_ix_hit [OF wf nn hit] .
  let ?n = "cell_capacity ob" and ?cell = "cell_ixs ob ! i" and ?m = "count ob - 1"
  let ?ob1 = "json_object_swap_last ob i"
  let ?hm = "\<lambda>c. masked ob (hashes ?ob1 ! c)"
  note d = wf_objectD [OF wf]
  note sel = swap_last_sel [OF wf i(1)]
  have cell: "?cell < ?n" "cells ob ! ?cell = Some i" using wf_cell_ixs [OF wf i(1)] by auto
  have mk: "masked ?ob1 = masked ob" by (rule ext) (rule masked_cong, rule sel(7))
  have pos: "?n \<noteq> 0" using wf_cap_pos [OF wf i(1)] by simp
  have msk: "masked ?ob1 (of_nat (j + 1)) = Suc j mod ?n" if "j < ?n" for j
  proof -
    have "1 < ?n" using pos d(6) one_less_power [of "2 :: nat"] by (auto simp: cap_ok_def)
    then show ?thesis using masked_add [OF d(6) that, of 1] by (simp add: mk add.commute)
  qed
  obtain e where e: "e < ?n" "cells ob ! e = None" using wf_free_cell [OF wf pos] by auto
  obtain i' cs' cixs' where loop: "json_object_remove_loop (masked ?ob1) ?n (hashes ?ob1) 0 ?cell ?cell
      (cells ?ob1) (cell_ixs ?ob1) = (i', cs', cixs')" by (metis prod_cases3)
  have nz: "cdist ?n ?cell e \<noteq> 0" using cdist_0_iff [OF cell(1) e(1)] cell e by auto
  have "hole_frame ?n ?m ?hm i' cs' cixs' \<and> probe_ok (cs'[i' := None]) ?hm"
    using remove_loop_spec [of ?n "masked ?ob1" ?m "hashes ?ob1" ?hm ?cell ?cell "cells ?ob1" "cell_ixs ?ob1" e 0]
      msk swap_last_hole [OF wf i(1)] cell e nz cdist_less [of ?n ?cell e] pos loop
    by (simp add: mk)
  then have frame: "hole_frame ?n ?m ?hm i' cs' cixs'" and pk: "probe_ok (cs'[i' := None]) ?hm" by auto
  let ?ob' = "JSON_Object (cs'[i' := None]) (hashes ?ob1) (names ?ob1) (vals ?ob1) cixs'
     (count ?ob1) (item_capacity ?ob1) (cell_capacity ?ob1)"
  have mk': "masked ?ob' = masked ob" by (rule ext) (rule masked_cong, simp add: sel)
  have res: "json_object_remove_internal ob name = (JSONSuccess, ?ob')"
    using i(3) nn cell(2) loop sel(7) by (simp add: json_object_remove_internal_def Let_def)
  have nm: "no_nul (names ?ob1 ! c) \<and> hashes ?ob1 ! c = hash_string (names ?ob1 ! c) (length (names ?ob1 ! c))"
    if c: "c < ?m" for c
  proof -
    have "names ?ob1 ! c = names ob ! (if c = i then ?m else c)"
      "hashes ?ob1 ! c = hashes ob ! (if c = i then ?m else c)"
      using c d(2,3) nth_swap_remove [of c "names ob" i] nth_swap_remove [of c "hashes ob" i] i(1)
        last_conv_nth [of "names ob"] last_conv_nth [of "hashes ob"] by (force simp: sel)+
    then show ?thesis using wf_names [OF wf, of "if c = i then ?m else c"] c i(1) by auto
  qed
  have "distinct (names ?ob1)" using set_swap_remove [OF d(9)] i(1) d(3) by (simp add: sel)
  moreover have "\<forall>c < ?m. cixs' ! c < ?n \<and> cs'[i' := None] ! (cixs' ! c) = Some c"
    using hole_frameD(3-5) [OF frame] by (metis nth_list_update_neq)
  moreover have "\<forall>p < ?n. \<forall>c. cs'[i' := None] ! p = Some c \<longrightarrow> c < ?m \<and> cixs' ! c = p"
  proof (intro allI impI)
    fix p c assume "p < ?n" "cs'[i' := None] ! p = Some c"
    then show "c < ?m \<and> cixs' ! c = p"
      using hole_frameD(1,6) [OF frame] hole_frameD(7) [OF frame, of p c] by (cases "p = i'") simp_all
  qed
  moreover have "length cs' = ?n" "length cixs' = ?m"
    using hole_frameD(1,2) [OF frame] by auto
  moreover have "length (hashes ?ob1) = ?m" "length (names ?ob1) = ?m" "length (vals ?ob1) = ?m" "?m \<le> item_capacity ob"
    using d(2-4,8) by (auto simp: sel)
  moreover have "\<forall>c < ?m. no_nul (names ?ob1 ! c) \<and>
      hashes ?ob1 ! c = hash_string (names ?ob1 ! c) (length (names ?ob1 ! c))"
    using nm by blast
  ultimately have "wf_object ?ob'"
    unfolding wf_object_def unfolding mk' unfolding json_object.sel sel(5-7) length_list_update
    using pk d(6,7) by (intro conjI) simp_all
  moreover have "items ?ob' = swap_remove i (items ob)"
    using swap_remove_zip [of "names ob" "vals ob" i] d(3,4) i(1) by (simp add: items_def sel)
  ultimately show ?thesis using that i(1,2) res by blast
qed

lemma remove_miss:
  assumes "wf_object ob" and "no_nul name" and "name \<notin> set (names ob)"
  shows "json_object_remove_internal ob name = (JSONFailure, ob)"
  using get_cell_ix_miss [OF assms] assms(2)
  by (auto simp: json_object_remove_internal_def split: prod.splits option.splits bool.splits)

lemma clear_wf: "wf_object ob \<Longrightarrow> wf_object (snd (json_object_clear ob)) \<and> items (snd (json_object_clear ob)) = []"
  by (auto simp: json_object_clear_def wf_object_def items_def probe_ok_def)


section \<open>The dictionary contract\<close>

text \<open>Adding a list of pairs in order, as the parser does; \<open>None\<close> when an addition is refused.\<close>

fun add_all :: "('d \<Rightarrow> string \<Rightarrow> 'v \<Rightarrow> (json_status \<times> 'd) option) \<Rightarrow> 'd \<Rightarrow> (string \<times> 'v) list \<Rightarrow> 'd option" where
  "add_all add d [] = Some d"
| "add_all add d ((k, v) # kvs) =
     (case add d k v of Some (JSONSuccess, d') \<Rightarrow> add_all add d' kvs | _ \<Rightarrow> None)"

locale json_dict =
  fixes emp :: "'d" and look :: "'d \<Rightarrow> string \<Rightarrow> 'v option"
    and add :: "'d \<Rightarrow> string \<Rightarrow> 'v \<Rightarrow> (json_status \<times> 'd) option"
    and assoc :: "'d \<Rightarrow> (string \<times> 'v) list" and invar :: "'d \<Rightarrow> bool"
  assumes invar_emp: "invar emp" and assoc_emp: "assoc emp = []"
    and invar_keys: "invar d \<Longrightarrow> distinct (map fst (assoc d)) \<and> list_all no_nul (map fst (assoc d))"
    and look_assoc: "invar d \<Longrightarrow> no_nul k \<Longrightarrow> look d k = map_of (assoc d) k"
    and add_fresh: "invar d \<Longrightarrow> no_nul k \<Longrightarrow> k \<notin> fst ` set (assoc d) \<Longrightarrow> length (assoc d) < 2 ^ 31 \<Longrightarrow>
      \<exists>d'. add d k v = Some (JSONSuccess, d') \<and> invar d' \<and> assoc d' = assoc d @ [(k, v)]"
    and add_dup: "invar d \<Longrightarrow> no_nul k \<Longrightarrow> k \<in> fst ` set (assoc d) \<Longrightarrow> add d k v = Some (JSONFailure, d)"
begin

lemma add_success:
  assumes "invar d" and "no_nul k" and "length (assoc d) < 2 ^ 31" and "add d k v = Some (JSONSuccess, d')"
  shows "k \<notin> fst ` set (assoc d) \<and> invar d' \<and> assoc d' = assoc d @ [(k, v)]"
proof (cases "k \<in> fst ` set (assoc d)")
  case True
  then show ?thesis using add_dup [OF assms(1,2) True, of v] assms(4) by simp
next
  case False
  then show ?thesis using add_fresh [OF assms(1,2) False assms(3), of v] assms(4) by auto
qed

lemma add_total:
  assumes "invar d" and "no_nul k" and "length (assoc d) < 2 ^ 31"
  shows "\<exists>st d'. add d k v = Some (st, d') \<and> invar d' \<and> (st = JSONSuccess \<longleftrightarrow> k \<notin> fst ` set (assoc d))"
  using add_fresh [OF assms(1,2) _ assms(3), of v] add_dup [OF assms(1,2), of v] assms(1)
  by (cases "k \<in> fst ` set (assoc d)") fastforce+

lemma look_add:
  assumes "invar d" and "no_nul k" and "no_nul k'" and "length (assoc d) < 2 ^ 31"
    and "add d k v = Some (JSONSuccess, d')"
  shows "look d' k' = (if k' = k then Some v else look d k')"
proof -
  have d': "k \<notin> fst ` set (assoc d)" "invar d'" "assoc d' = assoc d @ [(k, v)]"
    using add_success [OF assms(1,2,4,5)] by auto
  then have "map_of (assoc d) k = None" by (simp add: map_of_eq_None_iff)
  then show ?thesis
    using d' look_assoc [OF d'(2) assms(3)] look_assoc [OF assms(1,3)]
    by (auto simp: map_add_def split: option.splits)
qed

lemma add_all_ok:
  assumes "invar d" and "distinct (map fst (assoc d) @ map fst kvs)" and "list_all no_nul (map fst kvs)"
    and "length (assoc d) + length kvs \<le> 2 ^ 31"
  shows "\<exists>d'. add_all add d kvs = Some d' \<and> invar d' \<and> assoc d' = assoc d @ kvs"
  using assms
proof (induction kvs arbitrary: d)
  case Nil
  then show ?case by simp
next
  case (Cons kv kvs)
  obtain k v where kv: "kv = (k, v)" by (cases kv)
  have "k \<notin> fst ` set (assoc d)" "no_nul k" using Cons.prems kv by auto
  then obtain d1 where "add d k v = Some (JSONSuccess, d1)" "invar d1" "assoc d1 = assoc d @ [(k, v)]"
    using add_fresh [of d k v] Cons.prems by auto
  then show ?case using Cons.IH [of d1] Cons.prems kv by auto
qed

end

locale json_dict_mut = json_dict emp look add assoc invar
  for emp :: "'d" and look :: "'d \<Rightarrow> string \<Rightarrow> 'v option"
    and add :: "'d \<Rightarrow> string \<Rightarrow> 'v \<Rightarrow> (json_status \<times> 'd) option"
    and assoc :: "'d \<Rightarrow> (string \<times> 'v) list" and invar :: "'d \<Rightarrow> bool" +
  fixes upd :: "'d \<Rightarrow> string \<Rightarrow> 'v \<Rightarrow> (json_status \<times> 'd) option"
    and rem :: "'d \<Rightarrow> string \<Rightarrow> json_status \<times> 'd"
  assumes upd_ok: "invar d \<Longrightarrow> no_nul k \<Longrightarrow> length (assoc d) < 2 ^ 31 \<Longrightarrow>
      \<exists>d'. upd d k v = Some (JSONSuccess, d') \<and> invar d' \<and> assoc d' = AList.update k v (assoc d)"
    and rem_hit: "invar d \<Longrightarrow> no_nul k \<Longrightarrow> k \<in> fst ` set (assoc d) \<Longrightarrow>
      \<exists>i d'. i < length (assoc d) \<and> fst (assoc d ! i) = k \<and> rem d k = (JSONSuccess, d') \<and> invar d' \<and>
        assoc d' = swap_remove i (assoc d)"
    and rem_miss: "invar d \<Longrightarrow> no_nul k \<Longrightarrow> k \<notin> fst ` set (assoc d) \<Longrightarrow> rem d k = (JSONFailure, d)"
begin

lemma look_upd:
  assumes "invar d" and "no_nul k" and "no_nul k'" and "length (assoc d) < 2 ^ 31"
  shows "\<exists>d'. upd d k v = Some (JSONSuccess, d') \<and> invar d' \<and>
    look d' k' = (if k' = k then Some v else look d k')"
  using upd_ok [OF assms(1,2,4), of v] look_assoc assms(1,3) by (auto simp: update_conv')

lemma look_rem:
  assumes "invar d" and "no_nul k" and "no_nul k'"
  shows "\<exists>st d'. rem d k = (st, d') \<and> invar d' \<and> look d' k' = (if k' = k then None else look d k') \<and>
    (st = JSONSuccess \<longleftrightarrow> look d k \<noteq> None)"
proof (cases "k \<in> fst ` set (assoc d)")
  case True
  then obtain i d' where i: "i < length (assoc d)" "fst (assoc d ! i) = k" "rem d k = (JSONSuccess, d')" "invar d'"
      "assoc d' = swap_remove i (assoc d)"
    using rem_hit [OF assms(1,2)] by blast
  moreover have "map_of (assoc d) k \<noteq> None" using True by (simp add: map_of_eq_None_iff)
  ultimately show ?thesis
    using map_of_swap_remove [of "assoc d" i] invar_keys [OF assms(1)] look_assoc assms by auto
next
  case False
  then have "map_of (assoc d) k = None" by (simp add: map_of_eq_None_iff)
  then show ?thesis using rem_miss [OF assms(1,2) False] look_assoc assms by auto
qed

end

lemma set_plenty:
  assumes "wf_object ob" "no_nul name" "count ob < 2 ^ 31"
  shows "\<exists>ob'. json_object_set_opt ob name (Some v) = Some (JSONSuccess, ob') \<and> wf_object ob' \<and> items ob' = AList.update name v (items ob)"
  by (rule set_spec [OF assms, of plenty v]) (auto simp: set_refused_def plenty_def)

interpretation ht: json_dict_mut json_object_make "\<lambda>ob k. json_object_getn_value ob k (strlen k)"
  json_object_add items wf_object "\<lambda>ob k v. json_object_set_opt ob k (Some v)" json_object_remove_internal
proof (unfold_locales, goal_cases)
  case 1 show ?case by (rule make_wf)
next
  case 2 show ?case by (rule items_make)
next
  case (3 d)
  then show ?case using wf_objectD(3,9) [of d] wf_names [of d] by (auto simp: map_fst_items list_all_length)
next
  case (4 d k)
  then show ?case using getn_value_items [of d "length k" k] by simp
next
  case (5 d k v)
  then show ?case using add_new [of d k v] by (metis length_items names_fst_items)
next
  case (6 d k v)
  then show ?case using add_hit [of d k v] by (simp add: names_fst_items)
next
  case (7 d k v)
  then show ?case using set_plenty [of d k v] by (metis length_items)
next
  case (8 d k)
  then obtain i d' where "i < count d" "names d ! i = k" "json_object_remove_internal d k = (JSONSuccess, d')"
      "wf_object d'" "items d' = swap_remove i (items d)"
    using remove_hit [of d k] by (auto simp: names_fst_items)
  then show ?case
    using 8 wf_objectD(3,4) [of d] by (intro exI [of _ i] exI [of _ d']) (simp add: length_items items_def)
next
  case (9 d k)
  then show ?case using remove_miss [of d k] by (simp add: names_fst_items)
qed

section \<open>Properties of the table\<close>

text \<open>C27. Adding a pair to a well-formed object is total; it is refused exactly when the name is
  already present, and then leaves the object alone; otherwise the pair is appended to the
  insertion order, whether or not the table had to grow, and the result is well formed.\<close>

theorem json_object_add_refines:
  assumes "wf_object ob" and "no_nul name" and "count ob < 2 ^ 31"
  shows "\<exists>st ob'. json_object_add ob name v = Some (st, ob') \<and> wf_object ob' \<and>
    (if name \<in> fst ` set (items ob) then st = JSONFailure \<and> ob' = ob
     else st = JSONSuccess \<and> items ob' = items ob @ [(name, v)])"
proof (cases "name \<in> fst ` set (items ob)")
  case True
  then show ?thesis using ht.add_dup [OF assms(1,2) True] assms(1) by simp
next
  case False
  then show ?thesis
    using ht.add_fresh [OF assms(1,2) False] assms(3) by (simp add: length_items [OF assms(1)])
qed

text \<open>Three members added to a fresh object.\<close>

definition sample_object :: "nat json_object" where
  "sample_object = the (add_all json_object_add json_object_make [(''id'', 1), (''name'', 2), (''users'', 3)])"

lemma sample_object_ok:
  "wf_object sample_object \<and> items sample_object = [(''id'', 1), (''name'', 2), (''users'', 3)]"
proof -
  let ?kvs = "[(''id'', 1 :: nat), (''name'', 2), (''users'', 3)]"
  have "distinct (map fst (items (json_object_make :: nat json_object)) @ map fst ?kvs)"
    "list_all no_nul (map fst ?kvs)" by simp_all
  then obtain d where "add_all json_object_add json_object_make ?kvs = Some d" "wf_object d" "items d = ?kvs"
    using ht.add_all_ok [OF make_wf, of ?kvs] by auto
  then show ?thesis by (simp add: sample_object_def del: add_all.simps)
qed

lemma sample_object_count: "count sample_object = 3"
  using length_items [of sample_object] sample_object_ok by simp

theorem json_object_add_refines_witness:
  "wf_object sample_object \<and>
   (\<exists>st ob'. json_object_add sample_object ''shell'' 7 = Some (st, ob') \<and> wf_object ob' \<and> st = JSONSuccess \<and>
      items ob' = [(''id'', 1), (''name'', 2), (''users'', 3), (''shell'', 7)])"
  using json_object_add_refines [of sample_object "''shell''" 7] sample_object_ok sample_object_count by simp

text \<open>C28. Looking a name up in a well-formed object by hashing and probing is looking it up in the
  insertion-ordered list of its members, also when the name is a prefix of a longer string.\<close>

theorem json_object_getn_value_refines:
  assumes "wf_object ob" and "n \<le> length key" and "no_nul (take n key)"
  shows "json_object_getn_value ob key n = map_of (items ob) (take n key)"
  using assms by (rule getn_value_items)

theorem json_object_getn_value_refines_witness:
  "wf_object sample_object \<and> json_object_getn_value sample_object ''name.first'' 4 = Some 2"
  using json_object_getn_value_refines [of sample_object 4 "''name.first''"] sample_object_ok by simp

text \<open>C29. Setting a name, with every way the call can fail. A null object, name or value and a value that already has a parent are
  refused, and the object is as it was. Otherwise the call fails exactly when the name is new and an allocation it needs is
  refused - the copy of the name, or, when the table is full, one of those that grow it -, and then the object, grown or not, has the
  members it had. When it succeeds, the member keeps its place if it exists and is appended otherwise, and every other member is
  untouched. In every case the call returns and the object is well formed. (The bound is the number of members at which a table of 2 ^ 31
  cells is full; to grow it, \<^verbatim>\<open>json_object_init\<close> counts to 2 ^ 32 with an \<^verbatim>\<open>unsigned int\<close> and never ends.)\<close>

theorem json_object_set_value_refines:
  assumes "\<forall>ob. object = Some ob \<longrightarrow> wf_object ob \<and> count ob < 1503238553" and "\<forall>n. name = Some n \<longrightarrow> no_nul n"
  shows "case (object, name, val, parented) of
      (Some ob, Some n, Some v, False) \<Rightarrow>
        (\<exists>st ob'. json_object_set_value al object name val parented = Some (st, Some ob') \<and> wf_object ob' \<and>
          (if n \<notin> fst ` set (items ob) \<and> (\<not> dup_room al \<or> item_capacity ob \<le> count ob \<and> \<not> grow_room al)
           then st = JSONFailure \<and> items ob' = items ob
           else st = JSONSuccess \<and> items ob' = AList.update n v (items ob)))
    | _ \<Rightarrow> json_object_set_value al object name val parented = Some (JSONFailure, object)"
proof (cases "object = None \<or> name = None \<or> val = None \<or> parented")
  case True
  then show ?thesis by (auto simp: json_object_set_value_def split: option.splits bool.splits)
next
  case False
  then obtain ob n v where eq: "object = Some ob" "name = Some n" "val = Some v" "\<not> parented" by auto
  then obtain ob' where
    "json_object_store al ob n v = Some (if set_refused al ob n then JSONFailure else JSONSuccess, ob')" "wf_object ob'"
    "items ob' = (if set_refused al ob n then items ob else AList.update n v (items ob))"
    using set_spec [of ob n al v] assms by auto
  with eq show ?thesis by (simp add: json_object_set_value_def set_refused_def)
qed

theorem json_object_set_value_refines_witness:
  "wf_object sample_object \<and>
   (\<exists>ob'. json_object_set_value plenty (Some sample_object) (Some ''name'') (Some 9) False = Some (JSONSuccess, Some ob') \<and> wf_object ob' \<and>
      items ob' = [(''id'', 1), (''name'', 9), (''users'', 3)]) \<and>
   (\<exists>ob'. json_object_set_value \<lparr>grow_room = True, dup_room = False\<rparr> (Some sample_object) (Some ''shell'') (Some 9) False
        = Some (JSONFailure, Some ob') \<and> wf_object ob' \<and> items ob' = [(''id'', 1), (''name'', 2), (''users'', 3)]) \<and>
   json_object_set_value plenty (Some sample_object) (Some ''name'') (Some 9) True = Some (JSONFailure, Some sample_object)"
  using json_object_set_value_refines [of "Some sample_object" "Some ''name''", where val = "Some 9" and parented = False and al = plenty]
    json_object_set_value_refines [of "Some sample_object" "Some ''shell''", where val = "Some 9" and parented = False
      and al = "\<lparr>grow_room = True, dup_room = False\<rparr>"]
    json_object_set_value_refines [of "Some sample_object" "Some ''name''", where val = "Some 9" and parented = True and al = plenty]
    sample_object_ok sample_object_count by (simp add: plenty_def)

text \<open>C30. Removing a name by backward shift: on a well-formed object it succeeds exactly when the
  name is present, the result is well formed (in particular every other member stays reachable by
  probing, with no tombstone), the removed name is gone, every other name still has its value and
  exactly one item has left the arrays.\<close>

theorem json_object_remove_refines:
  assumes "wf_object ob" and "no_nul name"
  shows "\<exists>st ob'. json_object_remove_internal ob name = (st, ob') \<and> wf_object ob' \<and>
    (st = JSONSuccess \<longleftrightarrow> name \<in> fst ` set (items ob)) \<and>
    map_of (items ob') = (map_of (items ob))(name := None) \<and>
    count ob' = count ob - (if st = JSONSuccess then 1 else 0)"
proof (cases "name \<in> fst ` set (items ob)")
  case True
  then obtain i ob' where i: "i < length (items ob)" "fst (items ob ! i) = name"
      "json_object_remove_internal ob name = (JSONSuccess, ob')" "wf_object ob'" "items ob' = swap_remove i (items ob)"
    using ht.rem_hit [OF assms] by blast
  moreover have "count ob' = count ob - 1"
    using length_items [OF i(4)] length_items [OF assms(1)] i(5) by simp
  ultimately show ?thesis
    using map_of_swap_remove [OF _ i(1)] ht.invar_keys [OF assms(1)] True by auto
next
  case False
  then have "(map_of (items ob))(name := None) = map_of (items ob)"
    by (simp add: fun_upd_idem_iff map_of_eq_None_iff)
  then show ?thesis using ht.rem_miss [OF assms False] assms(1) False by auto
qed

theorem json_object_remove_refines_witness:
  "wf_object sample_object \<and>
   (\<exists>st ob'. json_object_remove_internal sample_object ''id'' = (st, ob') \<and> wf_object ob' \<and> st = JSONSuccess \<and>
      map_of (items ob') ''users'' = Some 3 \<and> map_of (items ob') ''id'' = None \<and> count ob' = 2)"
  using json_object_remove_refines [of sample_object "''id''"] sample_object_ok sample_object_count
  by (auto simp: fun_upd_def)

end
