(* ===== verification/C_Double.thy ===== *)
theory C_Double
  imports Prelude Complex_Main
begin

text \<open>
  The part of the C library's floating point that the sources use: IEEE 754 binary64 values,
  rounding to nearest-even, \<^verbatim>\<open>strtod\<close> with its end pointer and its range error, and the conversions
  of a double to \<^verbatim>\<open>int\<close> and to the unsigned \<^verbatim>\<open>uid_t\<close>/\<^verbatim>\<open>gid_t\<close>.

  A finite double is its exact rational value (negative zero is zero). A conversion to an integer
  type that cannot represent the truncated value is undefined in C; the model takes the result of
  the x86-64 instructions the compilers emit: the smallest \<^verbatim>\<open>int\<close> for a 32-bit conversion, and the
  low half of the 64-bit conversion for an unsigned one.
\<close>

section \<open>Values and rounding\<close>

datatype double = Fin rat | Inf bool | NaN

definition pow2 :: "int \<Rightarrow> rat" where
  "pow2 k = (if 0 \<le> k then 2 ^ nat k else 1 / 2 ^ nat (- k))"

text \<open>The largest \<open>k\<close> with \<open>pow2 k \<le> q\<close>, for a positive rational, found from a starting guess.\<close>

fun bits :: "nat \<Rightarrow> nat" where
  "bits n = (if n = 0 then 0 else Suc (bits (n div 2)))"

declare bits.simps [simp del]

definition ilog2 :: "rat \<Rightarrow> int" where
  "ilog2 q =
     (let (a, b) = quotient_of q;
          k = int (bits (nat a)) - int (bits (nat b))
      in if pow2 k \<le> q then k else k - 1)"

definition round_half_even :: "rat \<Rightarrow> int" where
  "round_half_even q =
     (let f = \<lfloor>q\<rfloor>; r = q - of_int f
      in if r < 1 / 2 then f else if 1 / 2 < r then f + 1 else if even f then f else f + 1)"

definition round_double :: "rat \<Rightarrow> double" where
  "round_double q =
     (if q = 0 then Fin 0
      else let e = max (ilog2 \<bar>q\<bar> - 52) (- 1074);
               d = of_int (round_half_even (q / pow2 e)) * pow2 e
           in if 2 ^ 1024 \<le> \<bar>d\<bar> then Inf (q < 0) else Fin d)"

section \<open>strtod\<close>

definition hexval :: "char \<Rightarrow> int option" where
  "hexval c =
     (if isdigit c then Some (int (code c) - 48)
      else if 97 \<le> code c \<and> code c \<le> 102 then Some (int (code c) - 87)
      else if 65 \<le> code c \<and> code c \<le> 70 then Some (int (code c) - 55)
      else None)"

definition decval :: "char \<Rightarrow> int option" where
  "decval c = (if isdigit c then Some (int (code c) - 48) else None)"

text \<open>Reads digits: the accumulated value, how many there were, and the rest.\<close>

fun read_base :: "(char \<Rightarrow> int option) \<Rightarrow> int \<Rightarrow> int \<Rightarrow> nat \<Rightarrow> string \<Rightarrow> int \<times> nat \<times> string" where
  "read_base dv b acc n [] = (acc, n, [])"
| "read_base dv b acc n (c # s) =
     (case dv c of None \<Rightarrow> (acc, n, c # s) | Some d \<Rightarrow> read_base dv b (b * acc + d) (Suc n) s)"

text \<open>An exponent part is taken only if at least one digit follows.\<close>

definition read_exponent :: "char \<Rightarrow> char \<Rightarrow> string \<Rightarrow> int \<times> string" where
  "read_exponent lo up s =
     (case s of
        [] \<Rightarrow> (0, s)
      | c # t \<Rightarrow>
          if c = lo \<or> c = up then
            let (neg, u) = (case t of
                  [] \<Rightarrow> (False, t)
                | d # t' \<Rightarrow> if d = CHR ''-'' then (True, t') else if d = CHR ''+'' then (False, t') else (False, t));
                (v, n, r) = read_base decval 10 0 0 u
            in if n = 0 then (0, s) else (if neg then - v else v, r)
          else (0, s))"

text \<open>Digits with an optional radix point; \<open>None\<close> when there is no digit at all.\<close>

definition read_mantissa :: "(char \<Rightarrow> int option) \<Rightarrow> int \<Rightarrow> string \<Rightarrow> (int \<times> nat \<times> string) option" where
  "read_mantissa dv b s =
     (let (i, n, r) = read_base dv b 0 0 s in
      case r of
        [] \<Rightarrow> if n = 0 then None else Some (i, 0, r)
      | c # t \<Rightarrow>
          if c = CHR ''.'' then
            let (m, k, r') = read_base dv b i 0 t
            in if n = 0 \<and> k = 0 then None else Some (m, k, r')
          else if n = 0 then None else Some (i, 0, r))"

definition lower :: "char \<Rightarrow> char" where
  "lower c = (if isupper c then char_of (code c + 32) else c)"

definition ci_prefix :: "string \<Rightarrow> string \<Rightarrow> bool" where
  "ci_prefix p s \<longleftrightarrow> map lower (take (length p) s) = p"

definition rpow :: "nat \<Rightarrow> int \<Rightarrow> rat" where
  "rpow b k = (if 0 \<le> k then of_nat b ^ nat k else 1 / of_nat b ^ nat (- k))"

text \<open>The unsigned part: the exact value (or infinity, not-a-number) and the rest.\<close>

definition strtod_body :: "string \<Rightarrow> (double \<times> string) option" where
  "strtod_body s =
     (if ci_prefix ''infinity'' s then Some (Inf False, drop 8 s)
      else if ci_prefix ''inf'' s then Some (Inf False, drop 3 s)
      else if ci_prefix ''nan'' s then
        (let r = drop 3 s;
             body = dropWhile (\<lambda>c. isalnum c \<or> c = CHR ''_'') (drop 1 r)
         in if take 1 r = ''('' \<and> take 1 body = '')'' then Some (NaN, drop 1 body) else Some (NaN, r))
      else
        (case (if ci_prefix ''0x'' s then read_mantissa hexval 16 (drop 2 s) else None) of
           Some (m, k, r) \<Rightarrow>
             let (e, r') = read_exponent (CHR ''p'') (CHR ''P'') r
             in Some (Fin (of_int m * rpow 2 (e - 4 * int k)), r')
         | None \<Rightarrow>
             (case read_mantissa decval 10 s of
                None \<Rightarrow> None
              | Some (m, k, r) \<Rightarrow>
                  let (e, r') = read_exponent (CHR ''e'') (CHR ''E'') r
                  in Some (Fin (of_int m * rpow 10 (e - int k)), r'))))"

record strtod_result =
  sd_value :: double
  sd_rest :: string
  sd_erange :: bool

text \<open>A result below the normal range that is not exact sets \<^verbatim>\<open>errno\<close>.\<close>

definition underflow :: "rat \<Rightarrow> rat \<Rightarrow> bool" where
  "underflow x y \<longleftrightarrow> \<bar>x\<bar> < pow2 (- 1022) \<and> y \<noteq> x"

lemma underflow_code [code]: "underflow x y = (if y = x then False else \<bar>x\<bar> < pow2 (- 1022))"
  by (simp add: underflow_def)

definition strtod :: "string \<Rightarrow> strtod_result" where
  "strtod s =
     (let t = dropWhile isspace s;
          (neg, u) = (case t of
             [] \<Rightarrow> (False, t)
           | c # r \<Rightarrow> if c = CHR ''-'' then (True, r) else if c = CHR ''+'' then (False, r) else (False, t))
      in case strtod_body u of
           None \<Rightarrow> \<lparr>sd_value = Fin 0, sd_rest = s, sd_erange = False\<rparr>
         | Some (Fin q, r) \<Rightarrow>
             let x = (if neg then - q else q); d = round_double x in
             \<lparr>sd_value = d, sd_rest = r,
              sd_erange = (case d of Fin y \<Rightarrow> underflow x y | _ \<Rightarrow> True)\<rparr>
         | Some (Inf _, r) \<Rightarrow> \<lparr>sd_value = Inf neg, sd_rest = r, sd_erange = False\<rparr>
         | Some (NaN, r) \<Rightarrow> \<lparr>sd_value = NaN, sd_rest = r, sd_erange = False\<rparr>)"

section \<open>Conversions to integers\<close>

text \<open>Conversion truncates. Out of range it is undefined in C; the results here are those of the x86-64 instructions.\<close>

definition trunc_rat :: "rat \<Rightarrow> int" where
  "trunc_rat q = (if 0 \<le> q then \<lfloor>q\<rfloor> else \<lceil>q\<rceil>)"

definition double_to_int :: "rat \<Rightarrow> i32" where
  "double_to_int q =
     (let z = trunc_rat q in if - (2 ^ 31) \<le> z \<and> z < 2 ^ 31 then word_of_int z else word_of_int (- (2 ^ 31)))"

definition double_to_uint :: "rat \<Rightarrow> u32" where
  "double_to_uint q =
     (let z = trunc_rat q in if - (2 ^ 63) \<le> z \<and> z < 2 ^ 63 then word_of_int z else 0)"

section \<open>Exact integers\<close>

text \<open>Integers below 2 ^ 53 are represented exactly, so decimal digits read back as their value.\<close>

lemma bits_le: "n < 2 ^ k \<Longrightarrow> bits n \<le> k"
proof (induction n arbitrary: k rule: bits.induct)
  case (1 n)
  show ?case
  proof (cases "n = 0")
    case False
    with "1.prems" obtain j where k: "k = Suc j"
      by (cases k) auto
    with "1.prems" have "n div 2 < 2 ^ j"
      by auto
    with "1.IH" False have "bits (n div 2) \<le> j"
      by simp
    with False k show ?thesis
      by (subst bits.simps) simp
  qed (simp add: bits.simps)
qed

lemma ilog2_int: "0 \<le> a \<Longrightarrow> a < 2 ^ k \<Longrightarrow> ilog2 (of_int a) < int k"
  using bits_le [of "nat a" k] bits.simps [of 1] bits.simps [of 0]
  by (auto simp: ilog2_def Let_def nat_less_iff)

lemma round_half_even_int [simp]: "round_half_even (of_int z) = z"
  by (simp add: round_half_even_def)

lemma pow2_nonpos: "k \<le> 0 \<Longrightarrow> of_int z / pow2 k = (of_int (z * 2 ^ nat (- k)) :: rat)"
  by (auto simp: pow2_def)

lemma pow2_pos [simp]: "0 < pow2 k"
  by (simp add: pow2_def)

lemma round_double_int: "\<bar>z\<bar> < 2 ^ 53 \<Longrightarrow> round_double (of_int z) = Fin (of_int z)"
proof -
  assume z: "\<bar>z\<bar> < 2 ^ 53"
  define e where "e = max (ilog2 \<bar>of_int z\<bar> - 52) (- 1074)"
  have "ilog2 (of_int \<bar>z\<bar>) < 53"
    using ilog2_int [of "\<bar>z\<bar>" 53] z by simp
  then have e: "e \<le> 0"
    by (simp add: e_def)
  have "of_int (round_half_even (of_int z / pow2 e)) * pow2 e = (of_int z :: rat)"
    unfolding pow2_nonpos [OF e] round_half_even_int using e by (simp add: pow2_def)
  moreover have "\<not> 2 ^ 1024 \<le> \<bar>of_int z :: rat\<bar>"
  proof -
    have "(of_int \<bar>z\<bar> :: rat) < of_int (2 ^ 53)"
      using z by (simp only: of_int_less_iff)
    then have "\<bar>of_int z :: rat\<bar> < 2 ^ 53"
      by simp
    also have "(2 ^ 53 :: rat) \<le> 2 ^ 1024"
      by (rule power_increasing) simp_all
    finally show ?thesis
      by simp
  qed
  ultimately show ?thesis
    by (simp add: round_double_def Let_def flip: e_def)
qed

text \<open>A code equation that keeps evaluation away from the powers of two for small integers.\<close>

lemma round_double_code [code]: "round_double q = (let (a,b) = quotient_of q in if b = 1 \<and> \<bar>a\<bar> < 9007199254740992 then Fin q else
     (if q = 0 then Fin 0
      else let e = max (ilog2 \<bar>q\<bar> - 52) (- 1074);
               d = of_int (round_half_even (q / pow2 e)) * pow2 e
           in if 2 ^ 1024 \<le> \<bar>d\<bar> then Inf (q < 0) else Fin d))" 
proof -
  obtain a b where q: "quotient_of q = (a, b)" by (cases "quotient_of q")
  then have "round_double q = Fin q" if "b = 1" "\<bar>a\<bar> < 9007199254740992"
    using quotient_of_div [OF q] round_double_int [of a] that by simp
  with q show ?thesis
    by (cases "b = 1 \<and> \<bar>a\<bar> < 9007199254740992") (simp, simp only: Let_def prod.case if_False round_double_def)
qed

lemma read_base_digits:
  "list_all isdigit ds \<Longrightarrow> (\<forall>c t. rest = c # t \<longrightarrow> \<not> isdigit c) \<Longrightarrow>
   read_base decval 10 (int acc) n (ds @ rest) = (int (read_digits acc ds), n + length ds, rest)"
proof (induction ds arbitrary: acc n)
  case Nil
  then show ?case by (cases rest) (auto simp: decval_def)
next
  case (Cons c ds)
  then have "decval c = Some (int (digit_val c))"
    by (auto simp: decval_def digit_val_def isdigit_def)
  with Cons.IH [of "10 * acc + digit_val c" "Suc n"] Cons.prems show ?case
    by simp
qed

definition number_end :: "string \<Rightarrow> bool" where
  "number_end rest \<longleftrightarrow>
     (case rest of [] \<Rightarrow> True | c # _ \<Rightarrow> \<not> isdigit c \<and> c \<notin> set ''.eExX'')"

lemma ci_prefix_nondigit:
  assumes "list_all isdigit ds" "ds \<noteq> []" "\<not> isdigit p" "islower p"
  shows "\<not> ci_prefix (p # ps) (ds @ rest)"
  using assms by (cases ds) (auto simp: ci_prefix_def lower_def ctype_simps)

lemma ci_prefix_0x:
  assumes "list_all isdigit ds" "ds \<noteq> []" "case rest of [] \<Rightarrow> True | c # _ \<Rightarrow> c \<noteq> CHR ''x'' \<and> c \<noteq> CHR ''X''"
  shows "\<not> ci_prefix ''0x'' (ds @ rest)"
proof -
  have "lower c \<noteq> CHR ''x''" if "isdigit c \<or> c \<noteq> CHR ''x'' \<and> c \<noteq> CHR ''X''" for c
  proof
    assume l: "lower c = CHR ''x''"
    have "c = CHR ''x'' \<or> c = CHR ''X''"
    proof (cases "isupper c")
      case True
      then have "code (lower c) = code c + 32"
        by (simp add: lower_def isupper_def)
      with l have "code c = code (CHR ''X'')"
        by (simp add: code_def)
      then show ?thesis by (simp only: code_inject) simp
    qed (use l in \<open>simp add: lower_def\<close>)
    with that show False
      by (auto simp: ctype_simps)
  qed
  then show ?thesis
    using assms
    by (cases ds; cases "tl ds"; cases rest)
      (auto simp: ci_prefix_def)
qed

lemma strtod_body_digits:
  assumes "list_all isdigit ds" "ds \<noteq> []" "number_end rest"
  shows "strtod_body (ds @ rest) = Some (Fin (of_nat (read_digits 0 ds)), rest)"
proof -
  have "read_base decval 10 0 0 (ds @ rest) = (int (read_digits 0 ds), length ds, rest)"
    using read_base_digits [of ds rest 0 0] assms by (auto simp: number_end_def split: list.splits)
  then have m: "read_mantissa decval 10 (ds @ rest) = Some (int (read_digits 0 ds), 0, rest)"
    using assms by (auto simp: read_mantissa_def number_end_def split: list.splits)
  have "read_exponent (CHR ''e'') (CHR ''E'') rest = (0, rest)"
    using assms by (auto simp: read_exponent_def number_end_def split: list.splits)
  with m show ?thesis
    using assms ci_prefix_0x [OF assms(1,2), of rest]
      ci_prefix_nondigit [OF assms(1,2), of "CHR ''i''"] ci_prefix_nondigit [OF assms(1,2), of "CHR ''n''"]
    by (auto simp: strtod_body_def rpow_def ctype_simps number_end_def split: list.splits)
qed

lemma strtod_digits:
  assumes "list_all isdigit ds" "ds \<noteq> []" "number_end rest" "read_digits 0 ds < 2 ^ 53"
  shows "strtod (ds @ rest) =
     \<lparr>sd_value = Fin (of_nat (read_digits 0 ds)), sd_rest = rest, sd_erange = False\<rparr>"
proof -
  obtain c r where ds: "ds = c # r"
    using assms(2) by (cases ds) auto
  with assms(1) have "\<not> isspace c" "c \<noteq> CHR ''-''" "c \<noteq> CHR ''+''"
    using isdigit_no_sign [of c] by auto
  moreover have "round_double (of_nat (read_digits 0 ds)) = Fin (of_nat (read_digits 0 ds))"
    using round_double_int [of "int (read_digits 0 ds)"] assms(4) by simp
  ultimately show ?thesis
    using strtod_body_digits [OF assms(1-3)] ds by (simp add: strtod_def underflow_def Let_def)
qed

section \<open>The end pointer\<close>

lemma read_base_suffix: "read_base dv b acc n s = (v, k, r) \<Longrightarrow> \<exists>p. s = p @ r"
proof (induction s arbitrary: acc n)
  case (Cons c s)
  then show ?case
    by (auto split: option.splits) (metis append_Cons)
qed simp

lemma read_mantissa_suffix: "read_mantissa dv b s = Some (m, k, r) \<Longrightarrow> \<exists>p. s = p @ r"
proof -
  assume *: "read_mantissa dv b s = Some (m, k, r)"
  obtain i n r0 where r0: "read_base dv b 0 0 s = (i, n, r0)"
    using prod_cases3 by blast
  then obtain p where p: "s = p @ r0"
    using read_base_suffix by blast
  show ?thesis
  proof (cases "\<exists>t. r0 = CHR ''.'' # t")
    case True
    then obtain t where t: "r0 = CHR ''.'' # t" by blast
    obtain m' k' r' where b: "read_base dv b i 0 t = (m', k', r')"
      using prod_cases3 by blast
    then obtain q where "t = q @ r'"
      using read_base_suffix by blast
    with * r0 p t b show ?thesis
      by (auto simp: read_mantissa_def split: if_splits)
  next
    case False
    with * r0 p show ?thesis
      by (auto simp: read_mantissa_def split: list.splits if_splits)
  qed
qed

lemma read_exponent_suffix: "read_exponent lo up s = (e, r) \<Longrightarrow> \<exists>p. s = p @ r"
proof -
  assume *: "read_exponent lo up s = (e, r)"
  show ?thesis
  proof (cases s)
    case (Cons c t)
    define u where "u = snd (case t of [] \<Rightarrow> (False, t)
      | d # t' \<Rightarrow> if d = CHR ''-'' then (True, t') else if d = CHR ''+'' then (False, t') else (False, t))"
    have "\<exists>p. t = p @ u"
      by (auto simp: u_def split: list.splits)
    moreover obtain v n r' where b: "read_base decval 10 0 0 u = (v, n, r')"
      using prod_cases3 by blast
    moreover from b obtain q where "u = q @ r'"
      using read_base_suffix by blast
    moreover have "r = s \<or> r = r'"
      using * Cons b unfolding u_def
      by (auto simp: read_exponent_def Let_def case_prod_unfold split: if_splits)
    ultimately show ?thesis
      using Cons by (metis append_Cons append_Nil append_assoc)
  qed (use * in \<open>simp add: read_exponent_def\<close>)
qed

lemma mantissa_exponent_suffix:
  "read_mantissa dv b s = Some (m, k, q) \<Longrightarrow> read_exponent lo up q = (e, r) \<Longrightarrow> \<exists>p. s = p @ r"
  by (metis append_assoc read_mantissa_suffix read_exponent_suffix)

lemma suffix_drop: "\<exists>p. drop n s = p @ r \<Longrightarrow> \<exists>p. s = p @ r"
  by (metis append_assoc append_take_drop_id)

lemma strtod_body_suffix:
  assumes "strtod_body s = Some (d, r)"
  shows "\<exists>p. s = p @ r"
proof -
  consider (inf) "ci_prefix ''infinity'' s \<or> ci_prefix ''inf'' s"
    | (nan) "\<not> ci_prefix ''infinity'' s" "\<not> ci_prefix ''inf'' s" "ci_prefix ''nan'' s"
    | (num) "\<not> ci_prefix ''infinity'' s" "\<not> ci_prefix ''inf'' s" "\<not> ci_prefix ''nan'' s"
    by blast
  then show ?thesis
  proof cases
    case inf
    then have "r = drop 8 s \<or> r = drop 3 s"
      using assms by (auto simp: strtod_body_def split: if_splits)
    then show ?thesis by (metis append_take_drop_id)
  next
    case nan
    define w where "w = dropWhile (\<lambda>c. isalnum c \<or> c = CHR ''_'') (drop 1 (drop 3 s))"
    have "r = drop 1 w \<or> r = drop 3 s"
      using assms nan unfolding strtod_body_def Let_def w_def [symmetric]
      by (auto split: if_splits)
    moreover have "\<exists>p. drop 4 s = p @ w"
      unfolding w_def by (simp, metis takeWhile_dropWhile_id)
    ultimately show ?thesis
      by (metis append_take_drop_id append_assoc)
  next
    case num
    show ?thesis
    proof (cases "if ci_prefix ''0x'' s then read_mantissa hexval 16 (drop 2 s) else None")
      case None
      with assms num obtain m k q where m: "read_mantissa decval 10 s = Some (m, k, q)"
        and "r = snd (read_exponent (CHR ''e'') (CHR ''E'') q)"
        unfolding strtod_body_def by (auto simp: Let_def case_prod_unfold split: option.splits)
      then show ?thesis
        using mantissa_exponent_suffix [OF m] by (metis prod.collapse)
    next
      case (Some x)
      obtain m k q where x: "x = (m, k, q)" by (cases x)
      with assms num Some have "r = snd (read_exponent (CHR ''p'') (CHR ''P'') q)"
        unfolding strtod_body_def by (simp add: Let_def case_prod_unfold)
      moreover from Some x have m: "read_mantissa hexval 16 (drop 2 s) = Some (m, k, q)"
        by (simp split: if_splits)
      ultimately show ?thesis
        using mantissa_exponent_suffix [OF m] suffix_drop [of 2 s] by (metis prod.collapse)
    qed
  qed
qed

lemma strtod_suffix: "\<exists>p. s = p @ sd_rest (strtod s)"
proof -
  define t where "t = dropWhile isspace s"
  define u where "u = snd (case t of [] \<Rightarrow> (False, t)
    | c # r \<Rightarrow> if c = CHR ''-'' then (True, r) else if c = CHR ''+'' then (False, r) else (False, t))"
  have "\<exists>p. s = p @ t"
    unfolding t_def by (metis takeWhile_dropWhile_id)
  moreover have "\<exists>p. t = p @ u"
    unfolding u_def by (auto split: list.splits)
  ultimately have su: "\<exists>p. s = p @ u"
    by (metis append_assoc)
  have "sd_rest (strtod s) = (case strtod_body u of None \<Rightarrow> s | Some (d, r) \<Rightarrow> r)"
    unfolding strtod_def Let_def t_def [symmetric] u_def case_prod_unfold
    by (auto split: option.splits double.splits)
  then show ?thesis
    using su strtod_body_suffix [of u] by (auto split: option.splits) (metis append_assoc)
qed

end
