(* ===== verification/Parson_Text.thy ===== *)
theory Parson_Text
  imports Parson_Object C_Double
begin

text \<open>
  The lexical layer of \<^verbatim>\<open>parson.c\<close>: hexadecimal escapes, UTF-8 verification, decimal literals,
  comment removal, and the scanning and unescaping of quoted strings.

  A position in a terminated input string is the list of characters still to be read; reading at
  or behind its end gives the terminator (\<open>peek\<close>, \<open>char_at\<close>). An output pointer that is advanced is
  the list of bytes written so far. Code points are 32-bit words as in the source.
\<close>

section \<open>Reading a terminated string\<close>

definition char_at :: "string \<Rightarrow> nat \<Rightarrow> char" where
  "char_at s i = (if i < length s then s ! i else NUL)"

definition peek :: "string \<Rightarrow> char" where
  "peek s = (case s of [] \<Rightarrow> NUL | c # _ \<Rightarrow> c)"

definition byte :: "char \<Rightarrow> u32" where
  "byte c = of_nat (code c)"

definition unbyte :: "u32 \<Rightarrow> char" where
  "unbyte w = char_of (unat w)"

text \<open>\<^verbatim>\<open>SKIP_WHITESPACES\<close>\<close>

definition skip_ws :: "string \<Rightarrow> string" where
  "skip_ws s = dropWhile isspace s"

text \<open>\<^verbatim>\<open>strncmp (token, s, strlen (token)) == 0\<close> for a token without terminators.\<close>

definition starts_with :: "string \<Rightarrow> string \<Rightarrow> bool" where
  "starts_with token s \<longleftrightarrow> take (length token) s = token"

section \<open>Hexadecimal escapes and UTF-8\<close>

definition hex_char_to_int :: "char \<Rightarrow> int" where
  "hex_char_to_int c =
     (if 48 \<le> code c \<and> code c \<le> 57 then int (code c) - 48
      else if 97 \<le> code c \<and> code c \<le> 102 then int (code c) - 97 + 10
      else if 65 \<le> code c \<and> code c \<le> 70 then int (code c) - 65 + 10
      else - 1)"

definition parse_utf16_hex :: "string \<Rightarrow> u32 option" where
  "parse_utf16_hex s =
     (if char_at s 0 = NUL \<or> char_at s 1 = NUL \<or> char_at s 2 = NUL \<or> char_at s 3 = NUL then None
      else
        let x1 = hex_char_to_int (char_at s 0); x2 = hex_char_to_int (char_at s 1);
            x3 = hex_char_to_int (char_at s 2); x4 = hex_char_to_int (char_at s 3)
        in if x1 = - 1 \<or> x2 = - 1 \<or> x3 = - 1 \<or> x4 = - 1 then None
           else Some (push_bit 12 (word_of_int x1) OR push_bit 8 (word_of_int x2)
                       OR push_bit 4 (word_of_int x3) OR word_of_int x4))"

definition IS_CONT :: "u32 \<Rightarrow> bool" where
  "IS_CONT b \<longleftrightarrow> b AND 0xC0 = 0x80"

definition num_bytes_in_utf8_sequence :: "u32 \<Rightarrow> nat" where
  "num_bytes_in_utf8_sequence c =
     (if c = 0xC0 \<or> c = 0xC1 \<or> c > 0xF4 \<or> IS_CONT c then 0
      else if c AND 0x80 = 0 then 1
      else if c AND 0xE0 = 0xC0 then 2
      else if c AND 0xF0 = 0xE0 then 3
      else if c AND 0xF8 = 0xF0 then 4
      else 0)"

definition utf8_cont :: "u32 \<Rightarrow> u32 \<Rightarrow> u32" where
  "utf8_cont cp b = push_bit 6 cp OR (b AND 0x3F)"

definition verify_utf8_sequence :: "string \<Rightarrow> json_status \<times> nat" where
  "verify_utf8_sequence s =
     (let b = (\<lambda>i. byte (char_at s i));
          len = num_bytes_in_utf8_sequence (b 0);
          decoded =
            (if len = 1 then Some (b 0)
             else if len = 2 \<and> IS_CONT (b 1) then Some (utf8_cont (b 0 AND 0x1F) (b 1))
             else if len = 3 \<and> IS_CONT (b 1) \<and> IS_CONT (b 2) then
               Some (utf8_cont (utf8_cont (b 0 AND 0xF) (b 1)) (b 2))
             else if len = 4 \<and> IS_CONT (b 1) \<and> IS_CONT (b 2) \<and> IS_CONT (b 3) then
               Some (utf8_cont (utf8_cont (utf8_cont (b 0 AND 0x7) (b 1)) (b 2)) (b 3))
             else None)
      in case decoded of
           None \<Rightarrow> (JSONFailure, len)
         | Some cp \<Rightarrow>
             if (cp < 0x80 \<and> len > 1) \<or> (cp < 0x800 \<and> len > 2) \<or> (cp < 0x10000 \<and> len > 3) then
               (JSONFailure, len)
             else if cp > 0x10FFFF then (JSONFailure, len)
             else if cp \<ge> 0xD800 \<and> cp \<le> 0xDFFF then (JSONFailure, len)
             else (JSONSuccess, len))"

lemma verify_utf8_sequence_len: "verify_utf8_sequence s = (JSONSuccess, len) \<Longrightarrow> 0 < len"
  by (auto simp: verify_utf8_sequence_def Let_def split: if_splits option.splits)

text \<open>The loop of \<^verbatim>\<open>is_valid_utf8\<close>: \<open>n\<close> bytes lie before \<^verbatim>\<open>string_end\<close>.\<close>

function is_valid_utf8 :: "string \<Rightarrow> nat \<Rightarrow> bool" where
  "is_valid_utf8 s n =
     (if 0 < n then
        case verify_utf8_sequence s of
          (JSONSuccess, len) \<Rightarrow> is_valid_utf8 (drop len s) (n - len)
        | (JSONFailure, len) \<Rightarrow> False
      else True)"
  by pat_completeness auto
termination
  by (relation "measure snd") (auto dest!: verify_utf8_sequence_len [OF sym])

declare is_valid_utf8.simps [simp del]

definition is_decimal :: "string \<Rightarrow> nat \<Rightarrow> bool" where
  "is_decimal s len =
     (if len > 1 \<and> char_at s 0 = CHR ''0'' \<and> char_at s 1 \<noteq> CHR ''.'' then False
      else if len > 2 \<and> starts_with ''-0'' s \<and> char_at s 2 \<noteq> CHR ''.'' then False
      else list_all (\<lambda>c. c \<notin> set ''xX'') (take len s))"

section \<open>Comments\<close>

text \<open>\<^verbatim>\<open>strstr\<close>: the offset of the first occurrence.\<close>

fun strstr :: "string \<Rightarrow> string \<Rightarrow> nat option" where
  "strstr [] token = (if token = [] then Some 0 else None)"
| "strstr (c # s) token =
     (if starts_with token (c # s) then Some 0 else map_option Suc (strstr s token))"

lemma strstr_le: "strstr s token = Some k \<Longrightarrow> k + length token \<le> length s"
proof (induction s token arbitrary: k rule: strstr.induct)
  case (2 c s token)
  show ?case
  proof (cases "starts_with token (c # s)")
    case True
    then have "length token \<le> length (c # s)"
      unfolding starts_with_def by (metis length_take min.cobounded1)
    with "2.prems" True show ?thesis by simp
  qed (use 2 in auto)
qed (auto split: if_splits)

text \<open>
  \<^verbatim>\<open>remove_comments\<close> overwrites the comments of the buffer with blanks; the result is the new
  contents of the buffer from the current position on.
\<close>

function (sequential) remove_comments_loop :: "bool \<Rightarrow> bool \<Rightarrow> string \<Rightarrow> string \<Rightarrow> string \<Rightarrow> string" where
  "remove_comments_loop in_string escaped st en [] = []"
| "remove_comments_loop in_string escaped st en (c # s) =
     (if c = BSLASH \<and> \<not> escaped then c # remove_comments_loop in_string True st en s
      else if c = QUOT \<and> \<not> escaped then c # remove_comments_loop (\<not> in_string) False st en s
      else if \<not> in_string \<and> st \<noteq> [] \<and> starts_with st (c # s) then
        let after = drop (length st) (c # s); blanks = replicate (length st) CHR '' '' in
        case strstr after en of
          None \<Rightarrow> blanks @ after
        | Some k \<Rightarrow>
            blanks @ replicate (k + length en) CHR '' ''
              @ remove_comments_loop in_string False st en (drop (k + length en) after)
      else c # remove_comments_loop in_string False st en s)"
  by pat_completeness auto
termination
proof (relation "measure (\<lambda>(in_string, escaped, st, en, s). length s)")
  fix in_string escaped :: bool and st en :: string and c s x xa k
  assume "\<not> in_string \<and> st \<noteq> [] \<and> starts_with st (c # s)" "x = drop (length st) (c # s)"
  then show "((in_string, False, st, en, drop (k + length en) x), in_string, escaped, st, en, c # s)
      \<in> measure (\<lambda>(in_string, escaped, st, en, s). length s)"
    by (cases st) auto
qed auto

definition remove_comments :: "string \<Rightarrow> string \<Rightarrow> string \<Rightarrow> string" where
  "remove_comments s start_token end_token =
     (if length start_token = 0 \<or> length end_token = 0 then s
      else remove_comments_loop False False start_token end_token s)"

section \<open>Quoted strings\<close>

fun skip_quotes_loop :: "string \<Rightarrow> string option" where
  "skip_quotes_loop [] = None"
| "skip_quotes_loop (c # s) =
     (if c = QUOT then Some s
      else if c = BSLASH then
        (case s of [] \<Rightarrow> None | _ # t \<Rightarrow> skip_quotes_loop t)
      else skip_quotes_loop s)"

definition skip_quotes :: "string \<Rightarrow> string option" where
  "skip_quotes s = (if peek s \<noteq> QUOT then None else skip_quotes_loop (tl s))"

text \<open>
  \<^verbatim>\<open>parse_utf16\<close> starts at the \<^verbatim>\<open>u\<close>; it gives the bytes it writes and how far it advances the input
  pointer. Both pointers end on the last byte handled: the caller's loop makes the final step.
\<close>

definition utf8_bytes :: "u32 \<Rightarrow> u32 list" where
  "utf8_bytes cp =
     (if cp < 0x80 then [cp]
      else if cp < 0x800 then
        [(drop_bit 6 cp AND 0x1F) OR 0xC0, (cp AND 0x3F) OR 0x80]
      else if cp < 0x10000 then
        [(drop_bit 12 cp AND 0x0F) OR 0xE0, (drop_bit 6 cp AND 0x3F) OR 0x80, (cp AND 0x3F) OR 0x80]
      else
        [(drop_bit 18 cp AND 0x07) OR 0xF0, (drop_bit 12 cp AND 0x3F) OR 0x80,
         (drop_bit 6 cp AND 0x3F) OR 0x80, (cp AND 0x3F) OR 0x80])"

definition parse_utf16 :: "string \<Rightarrow> (string \<times> nat) option" where
  "parse_utf16 s =
     (case parse_utf16_hex (drop 1 s) of
        None \<Rightarrow> None
      | Some cp \<Rightarrow>
          if cp < 0x80 \<or> cp < 0x800 \<or> cp < 0xD800 \<or> cp > 0xDFFF then
            Some (map unbyte (utf8_bytes cp), 4)
          else if cp \<ge> 0xD800 \<and> cp \<le> 0xDBFF then
            if char_at s 5 \<noteq> BSLASH \<or> char_at s 6 \<noteq> CHR ''u'' then None
            else
              (case parse_utf16_hex (drop 7 s) of
                 None \<Rightarrow> None
               | Some trail \<Rightarrow>
                   if trail < 0xDC00 \<or> trail > 0xDFFF then None
                   else
                     let cp' = (push_bit 10 ((cp - 0xD800) AND 0x3FF) OR ((trail - 0xDC00) AND 0x3FF))
                               + 0x10000
                     in Some (map unbyte (utf8_bytes cp'), 10))
          else None)"

definition simple_escape :: "char \<Rightarrow> char option" where
  "simple_escape c =
     (if c = QUOT then Some QUOT
      else if c = BSLASH then Some BSLASH
      else if c = CHR ''/'' then Some CHR ''/''
      else if c = CHR ''b'' then Some BS
      else if c = CHR ''f'' then Some FF
      else if c = CHR ''n'' then Some LF
      else if c = CHR ''r'' then Some CR
      else if c = CHR ''t'' then Some TAB
      else None)"

text \<open>The loop of \<^verbatim>\<open>process_string\<close>: \<open>n\<close> is \<^verbatim>\<open>input_len - (input_ptr - input)\<close>.\<close>

function process_string_loop :: "string \<Rightarrow> nat \<Rightarrow> string \<Rightarrow> string option" where
  "process_string_loop s n out =
     (if peek s = NUL \<or> n = 0 then Some out
      else if peek s = BSLASH then
        if char_at s 1 = CHR ''u'' then
          (case parse_utf16 (drop 1 s) of
             None \<Rightarrow> None
           | Some (bytes, k) \<Rightarrow> process_string_loop (drop (k + 2) s) (n - (k + 2)) (out @ bytes))
        else
          (case simple_escape (char_at s 1) of
             None \<Rightarrow> None
           | Some c \<Rightarrow> process_string_loop (drop 2 s) (n - 2) (out @ [c]))
      else if code (peek s) < 0x20 then None
      else process_string_loop (drop 1 s) (n - 1) (out @ [peek s]))"
  by pat_completeness auto
termination
  by (relation "measure (\<lambda>(s, n, out). n)") auto

declare process_string_loop.simps [simp del]

definition process_string :: "string \<Rightarrow> nat \<Rightarrow> string option" where
  "process_string input input_len = process_string_loop input input_len []"

text \<open>The processed contents and the position behind the closing quote.\<close>

definition get_quoted_string :: "string \<Rightarrow> (string \<times> string) option" where
  "get_quoted_string s =
     (case skip_quotes s of
        None \<Rightarrow> None
      | Some rest \<Rightarrow>
          map_option (\<lambda>out. (out, rest)) (process_string (drop 1 s) (length s - length rest - 2)))"

end
