(* ===== verification/Parson_Value.thy ===== *)
theory Parson_Value
  imports Parson_Dict Parson_Text
begin

text \<open>
  JSON values of \<^verbatim>\<open>parson.c\<close> and the operations of its public interface on them: constructors,
  accessors (which take a null pointer: \<open>None\<close>), arrays, dotted paths, deep copy, equality and
  schema validation.

  An object member or array element is a value, not a pointer: a value that is handed to a
  container is taken to be parentless, as the interface demands, so the checks on
  \<^verbatim>\<open>value->parent\<close> do not appear here; they do where values lie in memory (\<^verbatim>\<open>Parson_Owner\<close>).
  An operation that changes a container returns its status and the
  new container. The recursion of the C functions over the value is bounded by a fuel argument
  where it goes through a table lookup; \<open>None\<close> is running out of fuel.
\<close>

section \<open>Data\<close>

datatype 'v json_array = JSON_Array (arr_items: "'v list") (arr_capacity: nat)

datatype json_value =
    VNull
  | VString string
  | VNumber rat
  | VObject "json_value json_object"
  | VArray "json_value json_array"
  | VBoolean bool

datatype json_value_type =
  JSONError | JSONNull | JSONString | JSONNumber | JSONObject | JSONArray | JSONBoolean

section \<open>Accessors\<close>

definition json_value_get_type :: "json_value option \<Rightarrow> json_value_type" where
  "json_value_get_type v =
     (case v of
        None \<Rightarrow> JSONError
      | Some VNull \<Rightarrow> JSONNull
      | Some (VString _) \<Rightarrow> JSONString
      | Some (VNumber _) \<Rightarrow> JSONNumber
      | Some (VObject _) \<Rightarrow> JSONObject
      | Some (VArray _) \<Rightarrow> JSONArray
      | Some (VBoolean _) \<Rightarrow> JSONBoolean)"

definition json_value_get_object :: "json_value option \<Rightarrow> json_value json_object option" where
  "json_value_get_object v = (case v of Some (VObject ob) \<Rightarrow> Some ob | _ \<Rightarrow> None)"

definition json_value_get_array :: "json_value option \<Rightarrow> json_value json_array option" where
  "json_value_get_array v = (case v of Some (VArray a) \<Rightarrow> Some a | _ \<Rightarrow> None)"

definition json_value_get_string_desc :: "json_value option \<Rightarrow> string option" where
  "json_value_get_string_desc v = (case v of Some (VString s) \<Rightarrow> Some s | _ \<Rightarrow> None)"

text \<open>The bytes behind the returned pointer; a C reader stops at an embedded terminator.\<close>

definition json_value_get_string :: "json_value option \<Rightarrow> string option" where
  "json_value_get_string v = json_value_get_string_desc v"

definition json_value_get_string_len :: "json_value option \<Rightarrow> nat" where
  "json_value_get_string_len v = (case json_value_get_string_desc v of Some s \<Rightarrow> length s | None \<Rightarrow> 0)"

definition json_value_get_number :: "json_value option \<Rightarrow> rat" where
  "json_value_get_number v = (case v of Some (VNumber q) \<Rightarrow> q | _ \<Rightarrow> 0)"

definition json_value_get_boolean :: "json_value option \<Rightarrow> int" where
  "json_value_get_boolean v = (case v of Some (VBoolean b) \<Rightarrow> if b then 1 else 0 | _ \<Rightarrow> - 1)"

definition json_object_get_string :: "json_value json_object option \<Rightarrow> string \<Rightarrow> string option" where
  "json_object_get_string ob name = json_value_get_string (json_object_get_value ob name)"

definition json_object_get_number :: "json_value json_object option \<Rightarrow> string \<Rightarrow> rat" where
  "json_object_get_number ob name = json_value_get_number (json_object_get_value ob name)"

definition json_object_get_object :: "json_value json_object option \<Rightarrow> string \<Rightarrow> json_value json_object option" where
  "json_object_get_object ob name = json_value_get_object (json_object_get_value ob name)"

definition json_object_get_array :: "json_value json_object option \<Rightarrow> string \<Rightarrow> json_value json_array option" where
  "json_object_get_array ob name = json_value_get_array (json_object_get_value ob name)"

definition json_object_get_boolean :: "json_value json_object option \<Rightarrow> string \<Rightarrow> int" where
  "json_object_get_boolean ob name = json_value_get_boolean (json_object_get_value ob name)"

definition json_object_has_value_of_type :: "json_value json_object option \<Rightarrow> string \<Rightarrow> json_value_type \<Rightarrow> bool" where
  "json_object_has_value_of_type ob name ty =
     (let val = json_object_get_value ob name in val \<noteq> None \<and> json_value_get_type val = ty)"

text \<open>\<^verbatim>\<open>strchr (name, '.')\<close>: what lies before the first dot and what follows it.\<close>

fun split_dot :: "string \<Rightarrow> (string \<times> string) option" where
  "split_dot [] = None"
| "split_dot (c # s) =
     (if c = CHR ''.'' then Some ([], s)
      else map_option (\<lambda>(p, r). (c # p, r)) (split_dot s))"

lemma split_dot_append: "split_dot s = Some (p, r) \<Longrightarrow> s = p @ CHR ''.'' # r"
  by (induction s arbitrary: p) (auto split: if_splits)

lemma split_dot_length: "split_dot s = Some (p, r) \<Longrightarrow> length r < length s"
  by (drule split_dot_append) simp

function json_object_dotget_value :: "json_value json_object option \<Rightarrow> string \<Rightarrow> json_value option" where
  "json_object_dotget_value ob name =
     (case split_dot name of
        None \<Rightarrow> json_object_get_value ob name
      | Some (prefix, rest) \<Rightarrow>
          json_object_dotget_value
            (json_value_get_object
              (case ob of None \<Rightarrow> None | Some t \<Rightarrow> json_object_getn_value t name (length prefix)))
            rest)"
  by pat_completeness auto
termination
  by (relation "measure (\<lambda>(ob, name). length name)") (auto dest!: split_dot_length [OF sym] split_dot_length)

declare json_object_dotget_value.simps [simp del]

definition json_object_dothas_value :: "json_value json_object option \<Rightarrow> string \<Rightarrow> bool" where
  "json_object_dothas_value ob name \<longleftrightarrow> json_object_dotget_value ob name \<noteq> None"

section \<open>Arrays\<close>

definition json_array_make :: "'v json_array" where
  "json_array_make = JSON_Array [] 0"

definition json_array_get_count :: "'v json_array option \<Rightarrow> nat" where
  "json_array_get_count a = (case a of None \<Rightarrow> 0 | Some t \<Rightarrow> length (arr_items t))"

definition json_array_get_value :: "'v json_array option \<Rightarrow> nat \<Rightarrow> 'v option" where
  "json_array_get_value a index =
     (case a of None \<Rightarrow> None
      | Some t \<Rightarrow> if index \<ge> json_array_get_count a then None else Some (arr_items t ! index))"

definition json_array_get_string :: "json_value json_array option \<Rightarrow> nat \<Rightarrow> string option" where
  "json_array_get_string a index = json_value_get_string (json_array_get_value a index)"

definition json_array_get_number :: "json_value json_array option \<Rightarrow> nat \<Rightarrow> rat" where
  "json_array_get_number a index = json_value_get_number (json_array_get_value a index)"

definition json_array_get_object :: "json_value json_array option \<Rightarrow> nat \<Rightarrow> json_value json_object option" where
  "json_array_get_object a index = json_value_get_object (json_array_get_value a index)"

definition json_array_get_array :: "json_value json_array option \<Rightarrow> nat \<Rightarrow> json_value json_array option" where
  "json_array_get_array a index = json_value_get_array (json_array_get_value a index)"

definition json_array_get_boolean :: "json_value json_array option \<Rightarrow> nat \<Rightarrow> int" where
  "json_array_get_boolean a index = json_value_get_boolean (json_array_get_value a index)"

definition json_array_resize :: "'v json_array \<Rightarrow> nat \<Rightarrow> json_status \<times> 'v json_array" where
  "json_array_resize a new_capacity =
     (if new_capacity = 0 then (JSONFailure, a) else (JSONSuccess, JSON_Array (arr_items a) new_capacity))"

definition json_array_add :: "'v json_array \<Rightarrow> 'v \<Rightarrow> json_status \<times> 'v json_array" where
  "json_array_add a v =
     (case (if length (arr_items a) \<ge> arr_capacity a
            then json_array_resize a (max (arr_capacity a * 2) STARTING_CAPACITY) else (JSONSuccess, a)) of
        (JSONFailure, a') \<Rightarrow> (JSONFailure, a')
      | (JSONSuccess, a') \<Rightarrow> (JSONSuccess, JSON_Array (arr_items a' @ [v]) (arr_capacity a')))"

definition json_array_remove :: "'v json_array \<Rightarrow> nat \<Rightarrow> json_status \<times> 'v json_array" where
  "json_array_remove a ix =
     (if ix \<ge> json_array_get_count (Some a) then (JSONFailure, a)
      else (JSONSuccess, JSON_Array (take ix (arr_items a) @ drop (ix + 1) (arr_items a)) (arr_capacity a)))"

definition json_array_replace_value :: "'v json_array \<Rightarrow> nat \<Rightarrow> 'v option \<Rightarrow> json_status \<times> 'v json_array" where
  "json_array_replace_value a ix v =
     (case v of
        None \<Rightarrow> (JSONFailure, a)
      | Some x \<Rightarrow>
          if ix \<ge> json_array_get_count (Some a) then (JSONFailure, a)
          else (JSONSuccess, JSON_Array ((arr_items a)[ix := x]) (arr_capacity a)))"

definition json_array_append_value :: "'v json_array \<Rightarrow> 'v option \<Rightarrow> json_status \<times> 'v json_array" where
  "json_array_append_value a v = (case v of None \<Rightarrow> (JSONFailure, a) | Some x \<Rightarrow> json_array_add a x)"

definition json_array_clear :: "'v json_array \<Rightarrow> json_status \<times> 'v json_array" where
  "json_array_clear a = (JSONSuccess, JSON_Array [] (arr_capacity a))"

text \<open>The count never exceeds the allocated capacity.\<close>

definition wf_array :: "'v json_array \<Rightarrow> bool" where
  "wf_array a \<longleftrightarrow> length (arr_items a) \<le> arr_capacity a"

lemma json_array_add_ok:
  "fst (json_array_add a v) = JSONSuccess \<and> arr_items (snd (json_array_add a v)) = arr_items a @ [v] \<and>
   (wf_array a \<longrightarrow> wf_array (snd (json_array_add a v)))"
  by (auto simp: json_array_add_def json_array_resize_def STARTING_CAPACITY_def wf_array_def)

section \<open>Constructors\<close>

definition json_value_init_object :: "json_value" where
  "json_value_init_object = VObject json_object_make"

definition json_value_init_array :: "json_value" where
  "json_value_init_array = VArray json_array_make"

definition json_value_init_string_with_len :: "string \<Rightarrow> nat \<Rightarrow> json_value option" where
  "json_value_init_string_with_len s len =
     (if \<not> is_valid_utf8 s len then None else Some (VString (take len s)))"

definition json_value_init_string :: "string option \<Rightarrow> json_value option" where
  "json_value_init_string s =
     (case s of None \<Rightarrow> None | Some t \<Rightarrow> json_value_init_string_with_len t (strlen t))"

definition json_value_init_number :: "double \<Rightarrow> json_value option" where
  "json_value_init_number d = (case d of Fin q \<Rightarrow> Some (VNumber q) | _ \<Rightarrow> None)"

definition json_value_init_boolean :: "int \<Rightarrow> json_value" where
  "json_value_init_boolean b = VBoolean (b \<noteq> 0)"

definition json_value_init_null :: json_value where
  "json_value_init_null = VNull"

section \<open>Typed setters\<close>

definition json_array_append_string :: "json_value json_array \<Rightarrow> string option \<Rightarrow> json_status \<times> json_value json_array" where
  "json_array_append_string a s = json_array_append_value a (json_value_init_string s)"

definition json_array_append_number :: "json_value json_array \<Rightarrow> double \<Rightarrow> json_status \<times> json_value json_array" where
  "json_array_append_number a d = json_array_append_value a (json_value_init_number d)"

definition json_array_append_boolean :: "json_value json_array \<Rightarrow> int \<Rightarrow> json_status \<times> json_value json_array" where
  "json_array_append_boolean a b = json_array_append_value a (Some (json_value_init_boolean b))"

definition json_array_append_null :: "json_value json_array \<Rightarrow> json_status \<times> json_value json_array" where
  "json_array_append_null a = json_array_append_value a (Some json_value_init_null)"

definition json_array_replace_string :: "json_value json_array \<Rightarrow> nat \<Rightarrow> string option \<Rightarrow> json_status \<times> json_value json_array" where
  "json_array_replace_string a i s = json_array_replace_value a i (json_value_init_string s)"

definition json_array_replace_number :: "json_value json_array \<Rightarrow> nat \<Rightarrow> double \<Rightarrow> json_status \<times> json_value json_array" where
  "json_array_replace_number a i d = json_array_replace_value a i (json_value_init_number d)"

definition json_array_replace_boolean :: "json_value json_array \<Rightarrow> nat \<Rightarrow> int \<Rightarrow> json_status \<times> json_value json_array" where
  "json_array_replace_boolean a i b = json_array_replace_value a i (Some (json_value_init_boolean b))"

definition json_array_replace_null :: "json_value json_array \<Rightarrow> nat \<Rightarrow> json_status \<times> json_value json_array" where
  "json_array_replace_null a i = json_array_replace_value a i (Some json_value_init_null)"

definition json_object_set_string ::
  "json_value json_object \<Rightarrow> string \<Rightarrow> string option \<Rightarrow> (json_status \<times> json_value json_object) option" where
  "json_object_set_string ob name s = json_object_set_opt ob name (json_value_init_string s)"

definition json_object_set_number ::
  "json_value json_object \<Rightarrow> string \<Rightarrow> double \<Rightarrow> (json_status \<times> json_value json_object) option" where
  "json_object_set_number ob name d = json_object_set_opt ob name (json_value_init_number d)"

definition json_object_set_boolean ::
  "json_value json_object \<Rightarrow> string \<Rightarrow> int \<Rightarrow> (json_status \<times> json_value json_object) option" where
  "json_object_set_boolean ob name b = json_object_set_opt ob name (Some (json_value_init_boolean b))"

definition json_object_set_null ::
  "json_value json_object \<Rightarrow> string \<Rightarrow> (json_status \<times> json_value json_object) option" where
  "json_object_set_null ob name = json_object_set_opt ob name (Some json_value_init_null)"

section \<open>Dotted paths\<close>

text \<open>
  The object found under a name is changed in place through its pointer: writing its new contents
  back into the slot it was found in.
\<close>

definition json_object_write_back ::
  "'v json_object \<Rightarrow> string \<Rightarrow> nat \<Rightarrow> 'v \<Rightarrow> 'v json_object" where
  "json_object_write_back ob name name_len v =
     (case json_object_get_cell_ix ob name name_len (hash_string name name_len) of
        (Some ix, True) \<Rightarrow>
          (case cells ob ! ix of
             None \<Rightarrow> ob
           | Some item_ix \<Rightarrow>
               JSON_Object (cells ob) (hashes ob) (names ob) ((vals ob)[item_ix := v])
                 (cell_ixs ob) (count ob) (item_capacity ob) (cell_capacity ob))
      | _ \<Rightarrow> ob)"

function json_object_dotset_value ::
  "json_value json_object \<Rightarrow> string \<Rightarrow> json_value \<Rightarrow> (json_status \<times> json_value json_object) option" where
  "json_object_dotset_value ob name v =
     (case split_dot name of
        None \<Rightarrow> json_object_set_opt ob name (Some v)
      | Some (prefix, rest) \<Rightarrow>
          (case json_object_getn_value ob name (length prefix) of
             Some (VObject temp_object) \<Rightarrow>
               (case json_object_dotset_value temp_object rest v of
                  None \<Rightarrow> None
                | Some (st, temp') \<Rightarrow>
                    Some (st, json_object_write_back ob name (length prefix) (VObject temp')))
           | Some _ \<Rightarrow> Some (JSONFailure, ob)
           | None \<Rightarrow>
               (case json_object_dotset_value json_object_make rest v of
                  None \<Rightarrow> None
                | Some (JSONFailure, _) \<Rightarrow> Some (JSONFailure, ob)
                | Some (JSONSuccess, new_object) \<Rightarrow> json_object_add ob prefix (VObject new_object))))"
  by pat_completeness auto
termination
  by (relation "measure (\<lambda>(ob, name, v). length name)") (auto dest!: split_dot_length [OF sym] split_dot_length)

declare json_object_dotset_value.simps [simp del]

function json_object_dotremove_internal ::
  "json_value json_object \<Rightarrow> string \<Rightarrow> json_status \<times> json_value json_object" where
  "json_object_dotremove_internal ob name =
     (case split_dot name of
        None \<Rightarrow> json_object_remove_internal ob name
      | Some (prefix, rest) \<Rightarrow>
          (case json_object_getn_value ob name (length prefix) of
             Some (VObject temp_object) \<Rightarrow>
               (let (st, temp') = json_object_dotremove_internal temp_object rest
                in (st, json_object_write_back ob name (length prefix) (VObject temp')))
           | _ \<Rightarrow> (JSONFailure, ob)))"
  by pat_completeness auto
termination
  by (relation "measure (\<lambda>(ob, name). length name)") (auto dest!: split_dot_length [OF sym] split_dot_length)

declare json_object_dotremove_internal.simps [simp del]

section \<open>Deep copy, equality, validation\<close>

text \<open>
  \<^verbatim>\<open>json_value_deep_copy\<close>: the outer option is the fuel, the inner one the null pointer. The two loops
  walk the positions of the array and of the object.
\<close>

fun json_value_deep_copy :: "nat \<Rightarrow> json_value option \<Rightarrow> json_value option option"
and json_copy_items :: "nat \<Rightarrow> json_value list \<Rightarrow> json_value json_array \<Rightarrow> json_value json_array option option"
and json_copy_members ::
  "nat \<Rightarrow> json_value json_object \<Rightarrow> string list \<Rightarrow> json_value json_object \<Rightarrow> json_value json_object option option" where
  "json_value_deep_copy 0 v = None"
| "json_value_deep_copy (Suc f) v =
     (case v of
        Some (VArray a) \<Rightarrow> map_option (map_option VArray) (json_copy_items f (arr_items a) json_array_make)
      | Some (VObject ob) \<Rightarrow> map_option (map_option VObject) (json_copy_members f ob (names ob) json_object_make)
      | Some (VBoolean b) \<Rightarrow> Some (Some (json_value_init_boolean (json_value_get_boolean v)))
      | Some (VNumber q) \<Rightarrow> Some (json_value_init_number (Fin (json_value_get_number v)))
      | Some (VString s) \<Rightarrow> Some (Some (VString s))
      | Some VNull \<Rightarrow> Some (Some json_value_init_null)
      | None \<Rightarrow> Some None)"
| "json_copy_items f [] copy = Some (Some copy)"
| "json_copy_items f (x # xs) copy =
     (case json_value_deep_copy f (Some x) of
        None \<Rightarrow> None
      | Some None \<Rightarrow> Some None
      | Some (Some y) \<Rightarrow>
          (case json_array_add copy y of
             (JSONSuccess, copy') \<Rightarrow> json_copy_items f xs copy'
           | (JSONFailure, _) \<Rightarrow> Some None))"
| "json_copy_members f ob [] copy = Some (Some copy)"
| "json_copy_members f ob (key # keys) copy =
     (case json_value_deep_copy f (json_object_get_value (Some ob) key) of
        None \<Rightarrow> None
      | Some None \<Rightarrow> Some None
      | Some (Some y) \<Rightarrow>
          (case json_object_add copy key y of
             None \<Rightarrow> None
           | Some (JSONSuccess, copy') \<Rightarrow> json_copy_members f ob keys copy'
           | Some (JSONFailure, _) \<Rightarrow> Some None))"

text \<open>\<^verbatim>\<open>json_value_equals\<close>; numbers are compared up to the double nearest to one millionth.\<close>

fun json_value_equals :: "nat \<Rightarrow> json_value option \<Rightarrow> json_value option \<Rightarrow> bool option"
and json_equals_items :: "nat \<Rightarrow> (json_value option \<times> json_value option) list \<Rightarrow> bool option" where
  "json_value_equals 0 a b = None"
| "json_value_equals (Suc f) a b =
     (if json_value_get_type a \<noteq> json_value_get_type b then Some False
      else
        (case (a, b) of
           (Some (VArray x), Some (VArray y)) \<Rightarrow>
             if json_array_get_count (Some x) \<noteq> json_array_get_count (Some y) then Some False
             else json_equals_items f (map (\<lambda>i. (json_array_get_value (Some x) i, json_array_get_value (Some y) i))
                    [0..<json_array_get_count (Some x)])
         | (Some (VObject x), Some (VObject y)) \<Rightarrow>
             if json_object_get_count (Some x) \<noteq> json_object_get_count (Some y) then Some False
             else json_equals_items f (map (\<lambda>i.
                      let key = names x ! i in (json_object_get_value (Some x) key, json_object_get_value (Some y) key))
                    [0..<json_object_get_count (Some x)])
         | (Some (VString s), Some (VString t)) \<Rightarrow> Some (s = t)
         | (Some (VBoolean p), Some (VBoolean q)) \<Rightarrow> Some (p = q)
         | (Some (VNumber p), Some (VNumber q)) \<Rightarrow>
             Some (case (round_double (p - q), round_double (1 / 1000000)) of
                     (Fin d, Fin eps) \<Rightarrow> \<bar>d\<bar> < eps
                   | _ \<Rightarrow> False)
         | _ \<Rightarrow> Some True))"
| "json_equals_items f [] = Some True"
| "json_equals_items f ((x, y) # xs) =
     (case json_value_equals f x y of
        None \<Rightarrow> None
      | Some False \<Rightarrow> Some False
      | Some True \<Rightarrow> json_equals_items f xs)"

fun json_validate :: "nat \<Rightarrow> json_value option \<Rightarrow> json_value option \<Rightarrow> json_status option"
and json_validate_items :: "nat \<Rightarrow> (json_value option \<times> json_value option) list \<Rightarrow> json_status option" where
  "json_validate 0 schema v = None"
| "json_validate (Suc f) schema v =
     (if schema = None \<or> v = None then Some JSONFailure
      else if json_value_get_type schema \<noteq> json_value_get_type v \<and> json_value_get_type schema \<noteq> JSONNull
      then Some JSONFailure
      else
        (case (schema, v) of
           (Some (VArray s), Some (VArray a)) \<Rightarrow>
             if json_array_get_count (Some s) = 0 then Some JSONSuccess
             else json_validate_items f (map (\<lambda>x. (json_array_get_value (Some s) 0, Some x)) (arr_items a))
         | (Some (VObject s), Some (VObject ob)) \<Rightarrow>
             if json_object_get_count (Some s) = 0 then Some JSONSuccess
             else if json_object_get_count (Some ob) < json_object_get_count (Some s) then Some JSONFailure
             else json_validate_items f (map (\<lambda>i.
                    let key = names s ! i in (json_object_get_value (Some s) key, json_object_get_value (Some ob) key))
                    [0..<json_object_get_count (Some s)])
         | _ \<Rightarrow> Some JSONSuccess))"
| "json_validate_items f [] = Some JSONSuccess"
| "json_validate_items f ((s, x) # xs) =
     (case json_validate f s x of
        None \<Rightarrow> None
      | Some JSONFailure \<Rightarrow> Some JSONFailure
      | Some JSONSuccess \<Rightarrow> json_validate_items f xs)"

end
