(* ===== verification/Parson_Json.thy ===== *)
theory Parson_Json
  imports Parson_Value
begin

text \<open>
  What a JSON value of \<^verbatim>\<open>parson.c\<close> means: well-formed values (every object in it is a well-formed hash
  table and every array fits its capacity), nesting depth, and the abstraction to plain JSON
  documents (\<open>json\<close>), in which an object is its list of members in insertion order. Deep copies are shown
  correct with respect to it; the table is used only through the laws of the \<open>json_dict_mut\<close> interface.
\<close>

section \<open>Well-formedness, depth, abstraction\<close>

lemma size_vals: "v \<in> set (vals ob) \<Longrightarrow> size v < size (VObject ob)"
  by (cases ob) (auto dest!: size_list_estimation' [where f = size, OF _ order_refl])

lemma size_items: "v \<in> set (arr_items a) \<Longrightarrow> size v < size (VArray a)"
  by (cases a) (auto dest!: size_list_estimation' [where f = size, OF _ order_refl])

function wf_json :: "json_value \<Rightarrow> bool" where
  "wf_json (VObject ob) \<longleftrightarrow> wf_object ob \<and> count ob \<le> 2 ^ 31 \<and> (\<forall>v \<in> set (vals ob). wf_json v)"
| "wf_json (VArray a) \<longleftrightarrow> wf_array a \<and> (\<forall>v \<in> set (arr_items a). wf_json v)"
| "wf_json VNull \<longleftrightarrow> True"
| "wf_json (VString s) \<longleftrightarrow> True"
| "wf_json (VNumber q) \<longleftrightarrow> True"
| "wf_json (VBoolean b) \<longleftrightarrow> True"
  by pat_completeness auto
termination
  by (relation "measure size") (auto simp only: in_measure size_vals size_items wf_measure)

function depth :: "json_value \<Rightarrow> nat" where
  "depth (VObject ob) = Suc (Max (insert 0 (depth ` set (vals ob))))"
| "depth (VArray a) = Suc (Max (insert 0 (depth ` set (arr_items a))))"
| "depth VNull = 0"
| "depth (VString s) = 0"
| "depth (VNumber q) = 0"
| "depth (VBoolean b) = 0"
  by pat_completeness auto
termination
  by (relation "measure size") (auto simp only: in_measure size_vals size_items wf_measure)

datatype json = JNull | JString string | JNumber rat | JObject "(string \<times> json) list" | JArray "json list" | JBoolean bool

function abs_json :: "json_value \<Rightarrow> json" where
  "abs_json (VObject ob) = JObject (zip (names ob) (map abs_json (vals ob)))"
| "abs_json (VArray a) = JArray (map abs_json (arr_items a))"
| "abs_json VNull = JNull"
| "abs_json (VString s) = JString s"
| "abs_json (VNumber q) = JNumber q"
| "abs_json (VBoolean b) = JBoolean b"
  by pat_completeness auto
termination
  by (relation "measure size") (auto simp only: in_measure size_vals size_items wf_measure)

lemma depth_vals: "v \<in> set (vals ob) \<Longrightarrow> depth v < depth (VObject ob)"
  by (simp add: le_imp_less_Suc)

lemma depth_items: "v \<in> set (arr_items a) \<Longrightarrow> depth v < depth (VArray a)"
  by (simp add: le_imp_less_Suc)

lemma vals_items: "wf_object ob \<Longrightarrow> vals ob = map snd (items ob)"
  by (simp add: items_def wf_objectD)


definition abs_pair :: "string \<times> json_value \<Rightarrow> string \<times> json" where
  "abs_pair p = (fst p, abs_json (snd p))"

lemma abs_pair_Pair [simp]: "abs_pair (k, v) = (k, abs_json v)"
  by (simp add: abs_pair_def)

lemma wf_json_make [inv_intros]: "wf_json (VObject json_object_make)"
  by (simp add: make_wf) (simp add: json_object_make_def json_object_init_def)

lemma abs_json_object: "wf_object ob \<Longrightarrow> abs_json (VObject ob) = JObject (map abs_pair (items ob))"
  by (simp add: items_def zip_map2 abs_pair_def case_prod_unfold)

lemma get_value_items: "wf_object ob \<Longrightarrow> no_nul k \<Longrightarrow> json_object_get_value (Some ob) k = map_of (items ob) k"
  using ht.look_assoc [of ob k] by (simp add: json_object_get_value_def)

lemma get_value_name:
  assumes "wf_object ob" "k \<in> set (names ob)"
  obtains v where "json_object_get_value (Some ob) k = Some v" "v \<in> set (vals ob)" "map_of (items ob) k = Some v"
proof -
  have k: "no_nul k" "k \<in> fst ` set (items ob)"
    using assms ht.invar_keys [OF assms(1)] by (auto simp: names_fst_items list_all_iff)
  then obtain v where v: "map_of (items ob) k = Some v"
    by (metis domD dom_map_of_conv_image_fst)
  then have "v \<in> set (vals ob)"
    using vals_items [OF assms(1)] by (force dest: map_of_SomeD)
  with v k get_value_items [OF assms(1)] show thesis
    by (intro that) auto
qed

definition copies :: "json_value option option \<Rightarrow> json_value \<Rightarrow> bool" where
  "copies r v \<longleftrightarrow> (\<exists>y. r = Some (Some y) \<and> wf_json y \<and> abs_json y = abs_json v)"

lemma copy_items_ok:
  assumes "\<forall>x \<in> set xs. copies (json_value_deep_copy f (Some x)) x"
    and "wf_json (VArray c)"
  shows "\<exists>c'. json_copy_items f xs c = Some (Some c') \<and> wf_json (VArray c') \<and>
    map abs_json (arr_items c') = map abs_json (arr_items c) @ map abs_json xs"
  using assms
proof (induction xs arbitrary: c)
  case (Cons x xs)
  then obtain y where y: "json_value_deep_copy f (Some x) = Some (Some y)" "wf_json y" "abs_json y = abs_json x"
    by (auto simp: copies_def)
  obtain c1 where c1: "json_array_add c y = (JSONSuccess, c1)" "arr_items c1 = arr_items c @ [y]" "wf_array c1"
    using json_array_add_ok [of c y] Cons.prems(2) by (cases "json_array_add c y") auto
  have "wf_json (VArray c1)"
    using c1 y Cons.prems(2) by auto
  from Cons.IH [OF _ this] Cons.prems y c1 show ?case
    by auto
qed simp

lemma copy_members_ok:
  assumes "\<forall>v \<in> set (vals ob). copies (json_value_deep_copy f (Some v)) v"
    and "wf_object ob" "set ks \<subseteq> set (names ob)" "distinct ks"
    and "wf_json (VObject c)" "set ks \<inter> fst ` set (items c) = {}" "count c + length ks \<le> 2 ^ 31"
  shows "\<exists>c'. json_copy_members f ob ks c = Some (Some c') \<and> wf_json (VObject c') \<and>
    map abs_pair (items c') = map abs_pair (items c) @ map (\<lambda>k. (k, abs_json (the (map_of (items ob) k)))) ks"
  using assms
proof (induction ks arbitrary: c)
  case (Cons k ks)
  obtain v where v: "json_object_get_value (Some ob) k = Some v" "v \<in> set (vals ob)" "map_of (items ob) k = Some v"
    using get_value_name [OF Cons.prems(2), of k] Cons.prems(3) by auto
  then obtain y where y: "json_value_deep_copy f (Some v) = Some (Some y)" "wf_json y" "abs_json y = abs_json v"
    using Cons.prems(1) by (auto simp: copies_def)
  have wc: "wf_object c" and nk: "no_nul k" and kc: "k \<notin> fst ` set (items c)"
    using Cons.prems ht.invar_keys [OF Cons.prems(2)] by (auto simp: map_fst_items list_all_iff)
  then obtain c1 where c1: "json_object_add c k y = Some (JSONSuccess, c1)" "wf_object c1"
      "items c1 = items c @ [(k, y)]"
    using ht.add_fresh [OF wc nk kc, of y] Cons.prems(7) length_items [OF wc] by auto
  then have cnt: "count c1 = Suc (count c)" and vals: "vals c1 = vals c @ [y]"
    using length_items [OF c1(2)] length_items [OF wc] vals_items [OF c1(2)] vals_items [OF wc] by auto
  have "wf_json (VObject c1)"
    using c1 cnt vals y Cons.prems(5,7) by auto
  from Cons.IH [OF Cons.prems(1,2) _ _ this] Cons.prems(3,4,6,7) c1 cnt kc
  obtain c' where "json_copy_members f ob ks c1 = Some (Some c')" "wf_json (VObject c')"
    "map abs_pair (items c') = map abs_pair (items c1) @ map (\<lambda>k. (k, abs_json (the (map_of (items ob) k)))) ks"
    by auto
  with v y c1 show ?case
    by simp
qed simp

lemma map_lookup_items:
  assumes "wf_object ob"
  shows "map (\<lambda>k. (k, abs_json (the (map_of (items ob) k)))) (names ob) = map abs_pair (items ob)"
proof -
  have "map (\<lambda>k. (k, abs_json (the (map_of (items ob) k)))) (map fst (items ob)) = map abs_pair (items ob)"
    using ht.invar_keys [OF assms] by (auto simp: map_of_is_SomeI)
  then show ?thesis
    by (simp add: map_fst_items [OF assms])
qed

lemma deep_copy_ok:
  "wf_json v \<Longrightarrow> depth v < f \<Longrightarrow> copies (json_value_deep_copy f (Some v)) v"
proof (induction f arbitrary: v)
  case (Suc f)
  show ?case
  proof (cases v)
    case (VObject ob)
    then have "\<forall>x \<in> set (vals ob). copies (json_value_deep_copy f (Some x)) x"
      using Suc depth_vals [of _ ob] by fastforce
    then obtain c' where "json_copy_members f ob (names ob) json_object_make = Some (Some c')"
      "wf_json (VObject c')" "map abs_pair (items c') = map abs_pair (items ob)"
      using copy_members_ok [OF _ _ _ _ wf_json_make, of ob f "names ob"] Suc.prems(1) VObject
        wf_objectD [of ob] map_lookup_items [of ob] by (auto simp: json_object_make_def json_object_init_def items_def)
    then show ?thesis
      using VObject Suc.prems(1) by (auto simp: copies_def abs_json_object simp del: abs_json.simps(1))
  next
    case (VArray a)
    then have "\<forall>x \<in> set (arr_items a). copies (json_value_deep_copy f (Some x)) x"
      using Suc depth_items [of _ a] by fastforce
    from copy_items_ok [OF this, of json_array_make] show ?thesis
      using VArray by (auto simp: copies_def json_array_make_def wf_array_def)
  qed (auto simp: copies_def json_value_init_boolean_def json_value_get_boolean_def
       json_value_init_number_def json_value_get_number_def json_value_init_null_def)
qed simp

text \<open>C39. Copying a well-formed value terminates with a copy (one more unit of fuel than the nesting depth
  suffices), the copy is well formed, and it is the same JSON document: the members of every
  object appear in the same order although each of its tables is rebuilt from an empty one.\<close>

theorem json_value_deep_copy_correct:
  assumes "wf_json v" and "depth v < f"
  shows "\<exists>copy. json_value_deep_copy f (Some v) = Some (Some copy) \<and> wf_json copy \<and> abs_json copy = abs_json v"
  using deep_copy_ok [OF assms] by (simp add: copies_def)

theorem json_value_deep_copy_correct_witness:
  "\<exists>copy. json_value_deep_copy 2 (Some (VArray (JSON_Array [VNumber 3, VString ''x''] 2))) = Some (Some copy) \<and>
     wf_json copy \<and> abs_json copy = JArray [JNumber 3, JString ''x'']"
  using json_value_deep_copy_correct [of "VArray (JSON_Array [VNumber 3, VString ''x''] 2)" 2]
  by (simp add: wf_array_def)

end
