(* ===== verification/Parson_Api.thy ===== *)
theory Parson_Api
  imports Parson_Json
begin

text \<open>
  The rest of the public interface of \<^verbatim>\<open>parson.c\<close>: accessors and setters for dotted paths, strings with a length and the
  short names (\<^verbatim>\<open>json_object\<close> and \<^verbatim>\<open>json_array\<close> are \<open>json_object_fn\<close> and \<open>json_array_fn\<close> here, beside the types of these names). A path
  \<^verbatim>\<open>a.b.c\<close> is followed through nested objects; setting a value creates the objects that are missing on its way.

  The reference works on plain documents: a path is a list of names, an object the list of its members (\<open>path_get\<close>, \<open>path_set\<close>).
\<close>

section \<open>Accessors\<close>

definition json_object_get_string_len :: "json_value json_object option \<Rightarrow> string \<Rightarrow> nat" where
  "json_object_get_string_len ob name = json_value_get_string_len (json_object_get_value ob name)"

definition json_object_dotget_string :: "json_value json_object option \<Rightarrow> string \<Rightarrow> string option" where
  "json_object_dotget_string ob name = json_value_get_string (json_object_dotget_value ob name)"

definition json_object_dotget_string_len :: "json_value json_object option \<Rightarrow> string \<Rightarrow> nat" where
  "json_object_dotget_string_len ob name = json_value_get_string_len (json_object_dotget_value ob name)"

definition json_object_dotget_number :: "json_value json_object option \<Rightarrow> string \<Rightarrow> rat" where
  "json_object_dotget_number ob name = json_value_get_number (json_object_dotget_value ob name)"

definition json_object_dotget_object :: "json_value json_object option \<Rightarrow> string \<Rightarrow> json_value json_object option" where
  "json_object_dotget_object ob name = json_value_get_object (json_object_dotget_value ob name)"

definition json_object_dotget_array :: "json_value json_object option \<Rightarrow> string \<Rightarrow> json_value json_array option" where
  "json_object_dotget_array ob name = json_value_get_array (json_object_dotget_value ob name)"

definition json_object_dotget_boolean :: "json_value json_object option \<Rightarrow> string \<Rightarrow> int" where
  "json_object_dotget_boolean ob name = json_value_get_boolean (json_object_dotget_value ob name)"

definition json_object_dothas_value_of_type :: "json_value json_object option \<Rightarrow> string \<Rightarrow> json_value_type \<Rightarrow> bool" where
  "json_object_dothas_value_of_type ob name ty =
     (let val = json_object_dotget_value ob name in val \<noteq> None \<and> json_value_get_type val = ty)"

definition json_array_get_string_len :: "json_value json_array option \<Rightarrow> nat \<Rightarrow> nat" where
  "json_array_get_string_len a index = json_value_get_string_len (json_array_get_value a index)"

definition json_type :: "json_value option \<Rightarrow> json_value_type" where
  "json_type v = json_value_get_type v"

definition json_object_fn :: "json_value option \<Rightarrow> json_value json_object option" where
  "json_object_fn v = json_value_get_object v"

definition json_array_fn :: "json_value option \<Rightarrow> json_value json_array option" where
  "json_array_fn v = json_value_get_array v"

definition json_string :: "json_value option \<Rightarrow> string option" where
  "json_string v = json_value_get_string v"

definition json_string_len :: "json_value option \<Rightarrow> nat" where
  "json_string_len v = json_value_get_string_len v"

definition json_number :: "json_value option \<Rightarrow> rat" where
  "json_number v = json_value_get_number v"

definition json_boolean :: "json_value option \<Rightarrow> int" where
  "json_boolean v = json_value_get_boolean v"

section \<open>Setters\<close>

definition json_array_replace_string_with_len ::
  "json_value json_array \<Rightarrow> nat \<Rightarrow> string \<Rightarrow> nat \<Rightarrow> json_status \<times> json_value json_array" where
  "json_array_replace_string_with_len a i s len = json_array_replace_value a i (json_value_init_string_with_len s len)"

definition json_array_append_string_with_len ::
  "json_value json_array \<Rightarrow> string \<Rightarrow> nat \<Rightarrow> json_status \<times> json_value json_array" where
  "json_array_append_string_with_len a s len = json_array_append_value a (json_value_init_string_with_len s len)"

definition json_object_set_string_with_len ::
  "json_value json_object \<Rightarrow> string \<Rightarrow> string \<Rightarrow> nat \<Rightarrow> (json_status \<times> json_value json_object) option" where
  "json_object_set_string_with_len ob name s len = json_object_set_opt ob name (json_value_init_string_with_len s len)"

text \<open>A value that could not be made is refused.\<close>

definition json_object_dotset_opt ::
  "json_value json_object \<Rightarrow> string \<Rightarrow> json_value option \<Rightarrow> (json_status \<times> json_value json_object) option" where
  "json_object_dotset_opt ob name v =
     (case v of None \<Rightarrow> Some (JSONFailure, ob) | Some x \<Rightarrow> json_object_dotset_value ob name x)"

definition json_object_dotset_string ::
  "json_value json_object \<Rightarrow> string \<Rightarrow> string option \<Rightarrow> (json_status \<times> json_value json_object) option" where
  "json_object_dotset_string ob name s = json_object_dotset_opt ob name (json_value_init_string s)"

definition json_object_dotset_string_with_len ::
  "json_value json_object \<Rightarrow> string \<Rightarrow> string \<Rightarrow> nat \<Rightarrow> (json_status \<times> json_value json_object) option" where
  "json_object_dotset_string_with_len ob name s len = json_object_dotset_opt ob name (json_value_init_string_with_len s len)"

definition json_object_dotset_number ::
  "json_value json_object \<Rightarrow> string \<Rightarrow> double \<Rightarrow> (json_status \<times> json_value json_object) option" where
  "json_object_dotset_number ob name d = json_object_dotset_opt ob name (json_value_init_number d)"

definition json_object_dotset_boolean ::
  "json_value json_object \<Rightarrow> string \<Rightarrow> int \<Rightarrow> (json_status \<times> json_value json_object) option" where
  "json_object_dotset_boolean ob name b = json_object_dotset_opt ob name (Some (json_value_init_boolean b))"

definition json_object_dotset_null ::
  "json_value json_object \<Rightarrow> string \<Rightarrow> (json_status \<times> json_value json_object) option" where
  "json_object_dotset_null ob name = json_object_dotset_opt ob name (Some json_value_init_null)"

definition json_object_remove :: "json_value json_object \<Rightarrow> string \<Rightarrow> json_status \<times> json_value json_object" where
  "json_object_remove ob name = json_object_remove_internal ob name"

definition json_object_dotremove :: "json_value json_object \<Rightarrow> string \<Rightarrow> json_status \<times> json_value json_object" where
  "json_object_dotremove ob name = json_object_dotremove_internal ob name"

section \<open>Paths in documents\<close>

function path_of :: "string \<Rightarrow> string list" where
  "path_of name = (case split_dot name of None \<Rightarrow> [name] | Some (p, r) \<Rightarrow> p # path_of r)"
  by pat_completeness auto
termination
  by (relation "measure length") (auto dest!: split_dot_length [OF sym] split_dot_length)

declare path_of.simps [simp del]

fun path_get :: "string list \<Rightarrow> (string \<times> json) list \<Rightarrow> json option" where
  "path_get [] ms = None"
| "path_get [k] ms = map_of ms k"
| "path_get (k # ks) ms = (case map_of ms k of Some (JObject ms') \<Rightarrow> path_get ks ms' | _ \<Rightarrow> None)"

fun path_set :: "string list \<Rightarrow> json \<Rightarrow> (string \<times> json) list \<Rightarrow> (string \<times> json) list option" where
  "path_set [] x ms = None"
| "path_set [k] x ms = Some (AList.update k x ms)"
| "path_set (k # ks) x ms =
     (case map_of ms k of
        Some (JObject ms') \<Rightarrow> map_option (\<lambda>m. AList.update k (JObject m) ms) (path_set ks x ms')
      | Some _ \<Rightarrow> None
      | None \<Rightarrow> map_option (\<lambda>m. AList.update k (JObject m) ms) (path_set ks x []))"

lemma path_of_ne [simp]: "path_of name \<noteq> []"
  by (subst path_of.simps) (auto split: option.splits)

lemma path_set_step:
  assumes "path_set (k # k2 # ks) x ms = Some ms'"
  obtains m0 m where "map_of ms k = Some (JObject m0) \<or> map_of ms k = None \<and> m0 = []"
    "path_set (k2 # ks) x m0 = Some m" "ms' = AList.update k (JObject m) ms"
  using assms by (auto split: option.splits json.splits)

lemma path_get_Nil [simp]: "path_get ls [] = None"
  by (cases ls rule: list.exhaust; cases "tl ls") auto

lemma path_get_set: "path_set ks x ms = Some ms' \<Longrightarrow> path_get ks ms' = Some x"
proof (induction ks arbitrary: ms ms')
  case (Cons k ks)
  show ?case
  proof (cases ks)
    case ks: (Cons k2 ks2)
    from Cons.prems [unfolded ks] show ?thesis
      by (rule path_set_step) (use Cons.IH ks in \<open>auto simp: update_conv'\<close>)
  qed (use Cons.prems in \<open>auto simp: update_conv'\<close>)
qed simp

text \<open>Paths that part ways do not meet.\<close>

fun path_apart :: "string list \<Rightarrow> string list \<Rightarrow> bool" where
  "path_apart (a # as) (b # bs) \<longleftrightarrow> a \<noteq> b \<or> path_apart as bs"
| "path_apart _ _ \<longleftrightarrow> False"

lemma path_get_update: "l \<noteq> k \<Longrightarrow> path_get (l # ls) (AList.update k y ms) = path_get (l # ls) ms"
  by (cases ls) (auto simp: update_conv')

lemma path_get_set_other: "path_set ks x ms = Some ms' \<Longrightarrow> path_apart ks ls \<Longrightarrow> path_get ls ms' = path_get ls ms"
proof (induction ks arbitrary: ms ms' ls)
  case (Cons k ks)
  then obtain l ls2 where l: "ls = l # ls2" by (cases ls) auto
  show ?case
  proof (cases ks)
    case Nil
    then show ?thesis using Cons.prems l path_get_update by auto
  next
    case ks: (Cons k2 ks2)
    from Cons.prems(1) [unfolded ks] obtain m0 m where
      m: "map_of ms k = Some (JObject m0) \<or> map_of ms k = None \<and> m0 = []" "path_set ks x m0 = Some m"
        "ms' = AList.update k (JObject m) ms"
      unfolding ks by (rule path_set_step)
    show ?thesis
    proof (cases "l = k")
      case True
      then have a: "path_apart ks ls2" using Cons.prems(2) l by simp
      then obtain l2 ls3 where "ls2 = l2 # ls3" by (cases ls2; cases ks) auto
      with Cons.IH [OF m(2) a] m l True show ?thesis by (auto simp: update_conv')
    qed (simp add: m(3) l path_get_update)
  qed
qed simp

section \<open>The functions for dotted paths refine them\<close>

definition members :: "json_value json_object \<Rightarrow> (string \<times> json) list" where
  "members ob = map abs_pair (items ob)"

text \<open>Objects with room for another member\<close>

fun json_small :: "json \<Rightarrow> bool" where
  "json_small (JObject ms) \<longleftrightarrow> length ms < 2 ^ 31 \<and> (\<forall>p \<in> set ms. json_small (snd p))"
| "json_small (JArray js) \<longleftrightarrow> True"
| "json_small JNull \<longleftrightarrow> True"
| "json_small (JString s) \<longleftrightarrow> True"
| "json_small (JNumber q) \<longleftrightarrow> True"
| "json_small (JBoolean b) \<longleftrightarrow> True"

lemma map_abs_update: "map abs_pair (AList.update k v al) = AList.update k (abs_json v) (map abs_pair al)"
  by (induction al) (auto simp: abs_pair_def)

lemma map_of_abs: "map_of (map abs_pair al) k = map_option abs_json (map_of al k)"
  by (induction al) (auto simp: abs_pair_def)

lemma split_dot_take:
  assumes "split_dot name = Some (p, r)" "no_nul name"
  shows "take (length p) name = p" "length p \<le> length name" "no_nul p" "no_nul r"
  using split_dot_append [OF assms(1)] assms(2) by auto

lemma write_back_ok:
  assumes wf: "wf_object ob" and p: "n \<le> length name" "take n name = p" "no_nul p" and x: "map_of (items ob) p = Some x"
  shows "wf_object (json_object_write_back ob name n v)"
    "items (json_object_write_back ob name n v) = AList.update p v (items ob)"
proof -
  have "p \<in> set (names ob)"
    using x map_of_items_None [OF wf, of p] by auto
  then obtain i where i: "i < count ob" "names ob ! i = p"
    using wf_objectD(3) [OF wf] by (auto simp: in_set_conv_nth)
  let ?ob = "JSON_Object (cells ob) (hashes ob) (names ob) ((vals ob)[i := v]) (cell_ixs ob) (count ob)
    (item_capacity ob) (cell_capacity ob)"
  have wb: "json_object_write_back ob name n v = ?ob"
    using get_cell_ix_found [OF wf p(1), of i] wf_cell_ixs [OF wf i(1)] p(2,3) i
    by (simp add: json_object_write_back_def)
  have "masked ?ob = masked ob" by (rule ext) (rule masked_cong, simp)
  then show "wf_object (json_object_write_back ob name n v)"
    unfolding wb using wf by (simp add: wf_object_def)
  show "items (json_object_write_back ob name n v) = AList.update p v (items ob)"
    unfolding wb using set_nth_items [OF wf i(1), of v] i(2) by (simp add: items_def)
qed

lemma wf_json_items:
  assumes "wf_object ob"
  shows "wf_json (VObject ob) \<longleftrightarrow> length (items ob) \<le> 2 ^ 31 \<and> (\<forall>v \<in> snd ` set (items ob). wf_json v)"
  using vals_items [OF assms] length_items [OF assms] assms by simp

lemma snd_update: "snd ` set (AList.update k v al) \<subseteq> insert v (snd ` set al)"
  by (induction al) auto

lemma length_update: "length (AList.update k v al) \<le> Suc (length al)" "map_of al k = Some x \<Longrightarrow> length (AList.update k v al) = length al"
  by (induction al) (auto split: if_splits)

lemma wf_json_update:
  assumes "wf_json (VObject ob)" "wf_object ob'" "items ob' = AList.update k v (items ob)" "wf_json v"
    "length (items ob) < 2 ^ 31 \<or> map_of (items ob) k \<noteq> None"
  shows "wf_json (VObject ob')"
proof -
  have wf: "wf_object ob" using assms(1) by simp
  show ?thesis
    unfolding wf_json_items [OF assms(2)] assms(3)
    using assms(1,4,5) snd_update [of k v "items ob"] length_update(1) [where k = k and v = v and al = "items ob"]
      length_update(2) [where k = k and v = v and al = "items ob"]
    unfolding wf_json_items [OF wf] by fastforce
qed

lemma small_member:
  assumes "json_small (JObject (members ob))" "map_of (items ob) p = Some (VObject t)" "wf_object t"
  shows "json_small (JObject (members t))"
proof -
  have "(p, abs_json (VObject t)) \<in> set (members ob)"
    using map_of_SomeD [OF assms(2)] by (force simp: members_def abs_pair_def)
  with assms(1) have "json_small (snd (p, abs_json (VObject t)))"
    unfolding json_small.simps by blast
  then show ?thesis
    by (simp only: snd_conv abs_json_object [OF assms(3)] members_def)
qed

lemma path_set_empty: "ks \<noteq> [] \<Longrightarrow> path_set ks x [] \<noteq> None"
proof (induction ks)
  case (Cons k ks)
  then show ?case by (cases ks) auto
qed simp

lemma dotset_refines:
  "wf_json (VObject ob) \<Longrightarrow> json_small (JObject (members ob)) \<Longrightarrow> no_nul name \<Longrightarrow> wf_json v \<Longrightarrow>
   \<exists>ob'. json_object_dotset_value ob name v =
       Some (if path_set (path_of name) (abs_json v) (members ob) = None then JSONFailure else JSONSuccess, ob') \<and>
     wf_json (VObject ob') \<and>
     members ob' = (case path_set (path_of name) (abs_json v) (members ob) of None \<Rightarrow> members ob | Some ms \<Rightarrow> ms)"
proof (induction ob name v rule: json_object_dotset_value.induct)
  case (1 ob name v)
  have wf: "wf_object ob" and small: "length (items ob) < 2 ^ 31" using 1(3,4) by (simp_all add: members_def)
  show ?case
  proof (cases "split_dot name")
    case None
    then have p: "path_of name = [name]" by (simp add: path_of.simps)
    obtain ob' where ob': "json_object_set_opt ob name (Some v) = Some (JSONSuccess, ob')" "wf_object ob'"
      "items ob' = AList.update name v (items ob)"
      using ht.upd_ok [OF wf 1(5) small, of v] by blast
    then have "wf_json (VObject ob')"
      using wf_json_update [OF 1(3) ob'(2,3) 1(6)] small by blast
    with ob' None p show ?thesis
      by (simp add: json_object_dotset_value.simps [of ob name] members_def map_abs_update)
  next
    case (Some pr)
    then obtain p r where pr: "split_dot name = Some (p, r)" by (cases pr) auto
    note t = split_dot_take [OF pr 1(5)]
    have pth: "path_of name = p # path_of r" using pr by (simp add: path_of.simps)
    obtain k ks where r: "path_of r = k # ks" by (cases "path_of r") auto
    have get: "json_object_getn_value ob name (length p) = map_of (items ob) p"
      using getn_value_items [OF wf t(2)] t by simp
    have mo: "map_of (members ob) p = map_option abs_json (map_of (items ob) p)"
      by (simp add: members_def map_of_abs)
    have ds: "json_object_dotset_value ob name v =
      (case map_of (items ob) p of
         Some (VObject temp) \<Rightarrow>
           (case json_object_dotset_value temp r v of
              None \<Rightarrow> None
            | Some (st, temp') \<Rightarrow> Some (st, json_object_write_back ob name (length p) (VObject temp')))
       | Some _ \<Rightarrow> Some (JSONFailure, ob)
       | None \<Rightarrow>
           (case json_object_dotset_value json_object_make r v of
              None \<Rightarrow> None
            | Some (JSONFailure, _) \<Rightarrow> Some (JSONFailure, ob)
            | Some (JSONSuccess, new_object) \<Rightarrow> json_object_add ob p (VObject new_object)))"
      using pr get by (simp add: json_object_dotset_value.simps [of ob name])
    show ?thesis
    proof (cases "map_of (items ob) p")
      case None
      obtain n where n: "json_object_dotset_value json_object_make r v = Some (JSONSuccess, n)" "wf_json (VObject n)"
        "path_set (path_of r) (abs_json v) [] = Some (members n)"
        using 1(1) [OF pr refl _ wf_json_make] get None t(4) 1(6) path_set_empty [of "path_of r" "abs_json v"]
        by (auto simp: members_def split: option.splits)
      have fresh: "p \<notin> fst ` set (items ob)" using None by (simp add: map_of_eq_None_iff)
      obtain ob' where ob': "json_object_add ob p (VObject n) = Some (JSONSuccess, ob')" "wf_object ob'"
        "items ob' = AList.update p (VObject n) (items ob)"
        using ht.add_fresh [OF wf t(3) fresh small, of "VObject n"] alist_update_new [OF fresh] by auto
      have "wf_json (VObject ob')"
        using wf_json_update [OF 1(3) ob'(2,3) n(2)] small by blast
      moreover have "abs_json (VObject n) = JObject (members n)"
        using n(2) abs_json_object [of n] by (simp add: members_def)
      ultimately show ?thesis
        using ds None n ob' mo pth r by (simp add: members_def map_abs_update del: abs_json.simps)
    next
      case (Some x)
      show ?thesis
      proof (cases "\<exists>temp. x = VObject temp")
        case False
        then have "path_set (path_of name) (abs_json v) (members ob) = None"
          using Some mo pth r by (cases x) auto
        with False ds Some 1(3) show ?thesis by (cases x) auto
      next
        case True
        then obtain temp where x: "x = VObject temp" by blast
        have "wf_json (VObject temp)"
          using 1(3) Some x wf_json_items [OF wf] by (force dest: map_of_SomeD)
        then have wt: "wf_json (VObject temp)" "wf_object temp" "json_small (JObject (members temp))"
          using small_member [OF 1(4)] Some x by auto
        obtain st temp' where t': "json_object_dotset_value temp r v = Some (st, temp')" "wf_json (VObject temp')"
          "st = (if path_set (path_of r) (abs_json v) (members temp) = None then JSONFailure else JSONSuccess)"
          "members temp' = (case path_set (path_of r) (abs_json v) (members temp) of None \<Rightarrow> members temp | Some ms \<Rightarrow> ms)"
          using 1(2) [OF pr refl _ _ wt(1,3) t(4) 1(6)] get Some x by auto
        let ?ob = "json_object_write_back ob name (length p) (VObject temp')"
        have wb: "wf_object ?ob" "items ?ob = AList.update p (VObject temp') (items ob)"
          using write_back_ok [OF wf t(2,1,3) Some] by auto
        have "wf_json (VObject ?ob)"
          using wf_json_update [OF 1(3) wb t'(2)] small by blast
        moreover have ab: "abs_json (VObject temp') = JObject (members temp')" "abs_json (VObject temp) = JObject (members temp)"
          using t'(2) wt(2) abs_json_object by (simp_all add: members_def)
        moreover have "AList.update p (JObject (members temp)) (members ob) = members ob"
          using mo Some x ab(2) by (intro update_triv) simp
        ultimately show ?thesis
          using ds Some x t' wb mo pth r
          by (auto simp: members_def map_abs_update simp del: abs_json.simps split: option.splits)
      qed
    qed
  qed
qed

lemma dotget_None: "json_object_dotget_value None name = None"
  by (induction "None :: json_value json_object option" name rule: json_object_dotget_value.induct)
    (subst json_object_dotget_value.simps, auto simp: json_object_get_value_def json_value_get_object_def split: option.splits)

lemma dotget_refines:
  "wf_json (VObject ob) \<Longrightarrow> no_nul name \<Longrightarrow>
   map_option abs_json (json_object_dotget_value (Some ob) name) = path_get (path_of name) (members ob)"
proof (induction name arbitrary: ob rule: path_of.induct)
  case (1 name)
  have wf: "wf_object ob" using "1.prems"(1) by simp
  show ?case
  proof (cases "split_dot name")
    case None
    then show ?thesis
      using get_value_items [OF wf "1.prems"(2)]
      by (simp add: json_object_dotget_value.simps path_of.simps members_def map_of_abs)
  next
    case (Some pr)
    then obtain p r where pr: "split_dot name = Some (p, r)" by (cases pr) auto
    note t = split_dot_take [OF pr "1.prems"(2)]
    obtain k ks where r: "path_of r = k # ks" by (cases "path_of r") auto
    have pth: "path_of name = p # path_of r" using pr by (simp add: path_of.simps)
    have get: "json_object_dotget_value (Some ob) name = json_object_dotget_value (json_value_get_object (map_of (items ob) p)) r"
      using pr getn_value_items [OF wf t(2)] t by (simp add: json_object_dotget_value.simps [of "Some ob" name])
    have mo: "map_of (members ob) p = map_option abs_json (map_of (items ob) p)"
      by (simp add: members_def map_of_abs)
    show ?thesis
    proof (cases "json_value_get_object (map_of (items ob) p)")
      case None
      then have "path_get (path_of name) (members ob) = None"
        using mo pth r by (auto simp: json_value_get_object_def split: option.splits json_value.splits)
      with None get show ?thesis by (simp add: dotget_None)
    next
      case (Some temp)
      then have x: "map_of (items ob) p = Some (VObject temp)"
        by (auto simp: json_value_get_object_def split: option.splits json_value.splits)
      then have wt: "wf_json (VObject temp)"
        using "1.prems"(1) wf_json_items [OF wf] by (force dest: map_of_SomeD)
      then have "abs_json (VObject temp) = JObject (members temp)"
        using abs_json_object [of temp] by (simp add: members_def)
      then show ?thesis
        using get Some x mo pth r "1.IH" [OF pr refl wt t(4)] by (simp del: abs_json.simps)
    qed
  qed
qed

text \<open>C24. Setting a value under a dotted path, creating the objects that are missing: the call fails exactly when something on the way is there and is no
  object, and then the document is unchanged. Otherwise the path leads to the value, and every path that parts from it somewhere leads where it led before.
  The tables of all objects on the way stay well formed.\<close>

theorem json_object_dotset_value_refines:
  assumes "wf_json (VObject ob)" and "json_small (JObject (members ob))" and "no_nul name" and "wf_json v"
  shows "\<exists>st ob'. json_object_dotset_value ob name v = Some (st, ob') \<and> wf_json (VObject ob') \<and>
    (st = JSONFailure \<longleftrightarrow> path_set (path_of name) (abs_json v) (members ob) = None) \<and>
    (if st = JSONFailure then members ob' = members ob
     else map_option abs_json (json_object_dotget_value (Some ob') name) = Some (abs_json v) \<and>
       (\<forall>other. no_nul other \<and> path_apart (path_of name) (path_of other) \<longrightarrow>
          map_option abs_json (json_object_dotget_value (Some ob') other) =
          map_option abs_json (json_object_dotget_value (Some ob) other)))"
proof -
  obtain ob' where ob': "json_object_dotset_value ob name v =
       Some (if path_set (path_of name) (abs_json v) (members ob) = None then JSONFailure else JSONSuccess, ob')"
     "wf_json (VObject ob')"
     "members ob' = (case path_set (path_of name) (abs_json v) (members ob) of None \<Rightarrow> members ob | Some ms \<Rightarrow> ms)"
    using dotset_refines [OF assms] by blast
  show ?thesis
  proof (cases "path_set (path_of name) (abs_json v) (members ob)")
    case None
    with ob' show ?thesis by (simp del: wf_json.simps)
  next
    case (Some ms)
    with ob' have "members ob' = ms" by simp
    then have "map_option abs_json (json_object_dotget_value (Some ob') name) = Some (abs_json v)"
      "\<forall>other. no_nul other \<and> path_apart (path_of name) (path_of other) \<longrightarrow>
          map_option abs_json (json_object_dotget_value (Some ob') other) =
          map_option abs_json (json_object_dotget_value (Some ob) other)"
      using dotget_refines [OF ob'(2)] dotget_refines [OF assms(1)] assms(3) path_get_set [OF Some] path_get_set_other [OF Some]
      by auto
    with ob'(1,2) Some show ?thesis by (simp del: wf_json.simps)
  qed
qed

theorem json_object_dotset_value_refines_witness:
  "\<exists>ob'. json_object_dotset_value json_object_make ''a.b'' VNull = Some (JSONSuccess, ob') \<and>
     map_option abs_json (json_object_dotget_value (Some ob') ''a.b'') = Some JNull"
proof -
  have "path_set (path_of ''a.b'') (abs_json VNull) (members json_object_make) \<noteq> None"
    by (simp add: path_set_empty members_def)
  then show ?thesis
    using json_object_dotset_value_refines [OF wf_json_make, of "''a.b''" VNull]
    by (auto simp: members_def split: if_splits) (metis json_status.exhaust)
qed

end
