(* ===== verification/Parson_Utf8.thy ===== *)
theory Parson_Utf8
  imports Parson_Text
begin

text \<open>
  What the lexical layer computes: \<open>is_valid_utf8\<close> accepts exactly the UTF-8 encodings of
  sequences of Unicode scalar values, \<^verbatim>\<open>\u\<close> escapes are decoded to the encoding of the scalar value they
  name, and unescaping a quoted string never writes more bytes than the quoted text has.

  The reference encoder \<open>utf8_code\<close> is plain arithmetic on natural numbers; the word operations of
  the source are related to it through their \<open>unat\<close> values.
\<close>

section \<open>Reference encoder\<close>

definition scalar :: "nat \<Rightarrow> bool" where
  "scalar n \<longleftrightarrow> n < 0xD800 \<or> (0xE000 \<le> n \<and> n < 0x110000)"

definition utf8_enc :: "nat \<Rightarrow> nat list" where
  "utf8_enc n =
     (if n < 0x80 then [n]
      else if n < 0x800 then [192 + n div 64, 128 + n mod 64]
      else if n < 0x10000 then [224 + n div 4096, 128 + n div 64 mod 64, 128 + n mod 64]
      else [240 + n div 262144, 128 + n div 4096 mod 64, 128 + n div 64 mod 64, 128 + n mod 64])"

definition utf8_code :: "nat \<Rightarrow> string" where
  "utf8_code n = map char_of (utf8_enc n)"

section \<open>Word operations as arithmetic\<close>

lemma unat_and_mask: "unat ((x :: u32) AND mask k) = unat x mod 2 ^ k"
  by (simp only: take_bit_eq_mask [symmetric] unsigned_take_bit_eq) (simp add: take_bit_eq_mod)

lemma masks32: "(0x3F :: u32) = mask 6" "(0x1F :: u32) = mask 5" "(0xF :: u32) = mask 4"
  "(0x7 :: u32) = mask 3" "(0x3FF :: u32) = mask 10" "(0x1 :: u32) = mask 1" "(0x3 :: u32) = mask 2"
  by (simp_all add: mask_eq_exp_minus_1)

lemma unat_and_low:
  "unat ((x :: u32) AND 0x3F) = unat x mod 64" "unat (x AND 0x1F) = unat x mod 32"
  "unat (x AND 0xF) = unat x mod 16" "unat (x AND 0x7) = unat x mod 8"
  "unat (x AND 0x3FF) = unat x mod 1024"
  "unat (x AND 0x3) = unat x mod 4" "unat (x AND 0x1) = unat x mod 2"
  unfolding masks32 unat_and_mask by simp_all

lemma unat_drop_bit32: "unat (drop_bit k (x :: u32)) = unat x div 2 ^ k"
  using unsigned_less [of x, where 'a = nat]
  by (simp only: unsigned_drop_bit_eq) (simp add: drop_bit_eq_div take_bit_eq_mod)

lemma unat_push_bit32: "unat (x :: u32) * 2 ^ k < 2 ^ 32 \<Longrightarrow> unat (push_bit k x) = unat x * 2 ^ k"
  unfolding unsigned_push_bit_eq by (simp add: push_bit_eq_mult take_bit_nat_eq_self)

lemma unat_or_disjoint:
  assumes "(x :: u32) AND y = 0" "unat x + unat y < 2 ^ 32"
  shows "unat (x OR y) = unat x + unat y"
  using assms disjunctive_add_eq_or [OF assms(1)] unat_add_lem [of x y] by simp

lemma push_or_low:
  assumes "unat (x :: u32) * 2 ^ k < 2 ^ 32" "unat y < 2 ^ k" "unat x * 2 ^ k + unat y < 2 ^ 32"
  shows "unat (push_bit k x OR y) = unat x * 2 ^ k + unat y"
proof -
  have "y = take_bit k y"
    using assms(2) by (metis take_bit_nat_eq_self unsigned_take_bit_eq word_unat_eq_iff)
  then have "push_bit k x AND y = 0"
    by (intro bit_word_eqI) (metis bit_0_eq bit_and_iff bit_push_bit_iff bit_take_bit_iff bot_apply bot_bool_def leD)
  then show ?thesis
    using unat_or_disjoint unat_push_bit32 assms by simp
qed

lemma unat_or_tag:
  "unat (((x :: u32) AND 0x3F) OR 0x80) = unat x mod 64 + 128"
  "unat ((x AND 0x1F) OR 0xC0) = unat x mod 32 + 192"
  "unat ((x AND 0xF) OR 0xE0) = unat x mod 16 + 224"
  "unat ((x AND 0x7) OR 0xF0) = unat x mod 8 + 240"
  by (subst unat_or_disjoint; simp add: and.assoc unat_and_low)+

lemma unat_utf8_cont: "unat cp < 2 ^ 26 \<Longrightarrow> unat (utf8_cont cp b) = unat cp * 64 + unat b mod 64"
  unfolding utf8_cont_def by (subst push_or_low) (auto simp: unat_and_low)

section \<open>Verification of one sequence\<close>

lemma and_push_mask: "(x :: u32) AND push_bit k (mask m) = push_bit k (drop_bit k x AND mask m)"
  by (rule bit_word_eqI) (auto simp: bit_simps)

lemma unat_and_high:
  "unat ((x :: u32) AND push_bit k (mask m)) = unat x div 2 ^ k mod 2 ^ m * 2 ^ k"
proof -
  have "unat x div 2 ^ k mod 2 ^ m * 2 ^ k \<le> unat x"
    using order_trans [OF mult_le_mono1 [OF mod_less_eq_dividend] div_times_less_eq_dividend] .
  also have "\<dots> < 2 ^ 32"
    using unsigned_less [of x, where 'a = nat] by simp
  finally have b: "unat (drop_bit k x AND mask m) * 2 ^ k < 2 ^ 32"
    by (simp only: unat_and_mask unat_drop_bit32)
  show ?thesis
    by (simp only: and_push_mask unat_push_bit32 [OF b] unat_and_mask unat_drop_bit32)
qed

lemma high_masks: "(0x80 :: u32) = push_bit 7 (mask 1)" "(0xC0 :: u32) = push_bit 6 (mask 2)"
  "(0xE0 :: u32) = push_bit 5 (mask 3)" "(0xF0 :: u32) = push_bit 4 (mask 4)" "(0xF8 :: u32) = push_bit 3 (mask 5)"
  by (simp_all add: mask_eq_exp_minus_1)

lemma unat_and_tags:
  "unat ((x :: u32) AND 0x80) = unat x div 128 mod 2 * 128"
  "unat (x AND 0xC0) = unat x div 64 mod 4 * 64"
  "unat (x AND 0xE0) = unat x div 32 mod 8 * 32"
  "unat (x AND 0xF0) = unat x div 16 mod 16 * 16"
  "unat (x AND 0xF8) = unat x div 8 mod 32 * 8"
  unfolding high_masks unat_and_high by simp_all

lemma div_eq_range: "0 < k \<Longrightarrow> n div k = q \<longleftrightarrow> q * k \<le> n \<and> n < q * k + (k :: nat)"
  using dividend_less_div_times [of k n] by (auto intro!: div_nat_eqI simp: algebra_simps)

lemma unat_byte [simp]: "unat (byte c) = code c"
  using code_le [of c] by (simp add: byte_def unat_of_nat)

definition nb :: "nat \<Rightarrow> nat" where
  "nb n = (if n < 128 then 1 else if n < 194 then 0 else if n < 224 then 2
           else if n < 240 then 3 else if n < 245 then 4 else 0)"

lemma IS_CONT_byte: "IS_CONT (byte c) \<longleftrightarrow> 128 \<le> code c \<and> code c < 192"
proof -
  have "code c div 64 mod 4 = code c div 64"
    using code_le [of c] by simp
  then show ?thesis
    by (simp add: IS_CONT_def word_unat_eq_iff unat_and_tags div_eq_range)
qed

lemma num_bytes_byte: "num_bytes_in_utf8_sequence (byte c) = nb (code c)"
proof -
  have m: "code c div 128 mod 2 = code c div 128" "code c div 32 mod 8 = code c div 32"
    "code c div 16 mod 16 = code c div 16" "code c div 8 mod 32 = code c div 8"
    using code_le [of c] by simp_all
  have d: "code c div 32 = 6 \<longleftrightarrow> 192 \<le> code c \<and> code c < 224" "code c div 16 = 14 \<longleftrightarrow> 224 \<le> code c \<and> code c < 240"
    "code c div 8 = 30 \<longleftrightarrow> 240 \<le> code c \<and> code c < 248" "code c div 128 = 0 \<longleftrightarrow> code c < 128"
    by (simp_all add: div_eq_range)
  show ?thesis
    unfolding num_bytes_in_utf8_sequence_def IS_CONT_byte nb_def
    by (simp add: word_unat_eq_iff word_less_nat_alt unat_and_tags m d) 
qed

lemma utf8_bytes_enc: "unat cp < 0x110000 \<Longrightarrow> map unat (utf8_bytes cp) = utf8_enc (unat cp)"
  by (auto simp: utf8_bytes_def utf8_enc_def unat_or_tag unat_drop_bit32 word_less_nat_alt)

lemma utf8_enc_byte: "n < 0x110000 \<Longrightarrow> x \<in> set (utf8_enc n) \<Longrightarrow> x < 256"
  by (auto simp: utf8_enc_def split: if_splits)

lemma map_unbyte_utf8_bytes: "unat cp < 0x110000 \<Longrightarrow> map unbyte (utf8_bytes cp) = utf8_code (unat cp)"
  using utf8_bytes_enc [of cp] unfolding utf8_code_def 
  by (metis (no_types, lifting) comp_apply list.map_comp map_eq_conv unbyte_def)



definition cont :: "char \<Rightarrow> bool" where
  "cont c \<longleftrightarrow> 128 \<le> code c \<and> code c < 192"

lemmas verify_arith = verify_utf8_sequence_def num_bytes_byte IS_CONT_byte nb_def unat_utf8_cont
  unat_and_low word_less_nat_alt word_le_nat_alt char_at_def

lemma mod_tags:
  "x < 32 \<Longrightarrow> (192 + x) mod 32 = (x :: nat)" "x < 16 \<Longrightarrow> (224 + x) mod 16 = (x :: nat)"
  "x < 8 \<Longrightarrow> (240 + x) mod 8 = (x :: nat)" "x < 64 \<Longrightarrow> (128 + x) mod 64 = (x :: nat)"
  using mod_mult_self4 [of 32 6 x] mod_mult_self4 [of 16 14 x] mod_mult_self4 [of 8 30 x]
    mod_mult_self4 [of 64 2 x] by simp_all

lemma verify_utf8_1: "code a < 128 \<Longrightarrow> verify_utf8_sequence (a # r) = (JSONSuccess, 1)"
  by (simp add: verify_arith)

lemma verify_utf8_2:
  assumes "code a = 192 + x" "2 \<le> x" "x < 32" "code b = 128 + y" "y < 64"
  shows "verify_utf8_sequence (a # b # r) = (JSONSuccess, 2)"
  using assms by (simp add: verify_arith mod_tags)

lemma verify_utf8_3:
  assumes "code a = 224 + x" "x < 16" "code b = 128 + y" "y < 64" "code c = 128 + z" "z < 64"
  shows "verify_utf8_sequence (a # b # c # r) =
     (if 0x800 \<le> (x * 64 + y) * 64 + z \<and> scalar ((x * 64 + y) * 64 + z) then JSONSuccess else JSONFailure, 3)"
  using assms by (simp add: verify_arith mod_tags Let_def) (auto simp: scalar_def)

lemma verify_utf8_4:
  assumes "code a = 240 + x" "x < 5" "code b = 128 + y" "y < 64" "code c = 128 + z" "z < 64"
    "code d = 128 + u" "u < 64"
  shows "verify_utf8_sequence (a # b # c # d # r) =
     (if 0x10000 \<le> ((x * 64 + y) * 64 + z) * 64 + u \<and> scalar (((x * 64 + y) * 64 + z) * 64 + u)
      then JSONSuccess else JSONFailure, 4)"
  using assms by (simp add: verify_arith mod_tags Let_def) (auto simp: scalar_def)


lemma spec_of_cont: "cont c \<Longrightarrow> code c = 128 + (code c - 128) \<and> code c - 128 < 64"
  by (auto simp: cont_def)

lemma contE: "cont c \<Longrightarrow> (\<And>y. code c = 128 + y \<Longrightarrow> y < 64 \<Longrightarrow> P) \<Longrightarrow> P"
  by (drule spec_of_cont) blast

lemma verify_decoded:
  assumes "verify_utf8_sequence s = (JSONSuccess, len)"
  shows "len = num_bytes_in_utf8_sequence (byte (char_at s 0)) \<and>
    (2 \<le> len \<longrightarrow> IS_CONT (byte (char_at s 1))) \<and> (3 \<le> len \<longrightarrow> IS_CONT (byte (char_at s 2)))
    \<and> (4 \<le> len \<longrightarrow> IS_CONT (byte (char_at s 3)))"
  using assms by (auto simp: verify_utf8_sequence_def Let_def split: if_splits option.splits)

lemma nb_cases:
  assumes "0 < nb m"
  shows "nb m = 1 \<and> m < 128 \<or> nb m = 2 \<and> 194 \<le> m \<and> m < 224
    \<or> nb m = 3 \<and> 224 \<le> m \<and> m < 240 \<or> nb m = 4 \<and> 240 \<le> m \<and> m < 245"
proof -
  consider "m < 128" | "128 \<le> m" "m < 194" | "194 \<le> m" "m < 224" | "224 \<le> m" "m < 240"
    | "240 \<le> m" "m < 245" | "245 \<le> m"
    by linarith
  then show ?thesis
    using assms by cases (simp_all add: nb_def)
qed

lemma verify_success_cases:
  assumes "verify_utf8_sequence s = (JSONSuccess, len)" and "s \<noteq> []"
  obtains (one) a r where "s = a # r" "code a < 128" "len = 1"
  | (two) a b r where "s = a # b # r" "194 \<le> code a" "code a < 224" "cont b" "len = 2"
  | (three) a b c r where "s = a # b # c # r" "224 \<le> code a" "code a < 240" "cont b" "cont c" "len = 3"
  | (four) a b c d r where "s = a # b # c # d # r" "240 \<le> code a" "code a < 245" "cont b" "cont c" "cont d" "len = 4"
proof -
  have len: "len = nb (code (char_at s 0))"
    and ct: "2 \<le> len \<Longrightarrow> cont (char_at s 1)" "3 \<le> len \<Longrightarrow> cont (char_at s 2)" "4 \<le> len \<Longrightarrow> cont (char_at s 3)"
    and pos: "0 < len"
    using verify_decoded [OF assms(1)] verify_utf8_sequence_len [OF assms(1)]
    by (simp_all only: num_bytes_byte IS_CONT_byte cont_def simp_thms)
  have nul: "\<not> cont NUL" by (simp add: cont_def code_def)
  have l: "len = 1 \<and> code (char_at s 0) < 128
     \<or> len = 2 \<and> 194 \<le> code (char_at s 0) \<and> code (char_at s 0) < 224
     \<or> len = 3 \<and> 224 \<le> code (char_at s 0) \<and> code (char_at s 0) < 240
     \<or> len = 4 \<and> 240 \<le> code (char_at s 0) \<and> code (char_at s 0) < 245"
    using nb_cases len pos by simp
  obtain a r where s: "s = a # r" using assms(2) by (cases s) auto
  have *: "\<exists>b r'. drop k s = b # r' \<and> cont b" if "cont (char_at s k)" for k
    using that nul by (cases "drop k s") (auto simp: char_at_def nth_via_drop split: if_splits)
  from l show thesis
  proof (elim disjE)
    assume "len = 1 \<and> code (char_at s 0) < 128" then show thesis using one s by (simp add: char_at_def)
  next
    assume "len = 2 \<and> 194 \<le> code (char_at s 0) \<and> code (char_at s 0) < 224" then show thesis using two s ct * [of 1] by (fastforce simp: char_at_def)
  next
    assume "len = 3 \<and> 224 \<le> code (char_at s 0) \<and> code (char_at s 0) < 240" then show thesis using three s ct * [of 1] * [of 2] by (fastforce simp: char_at_def numeral_2_eq_2)
  next
    assume "len = 4 \<and> 240 \<le> code (char_at s 0) \<and> code (char_at s 0) < 245" then show thesis using four s ct * [of 1] * [of 2] * [of 3] by (fastforce simp: char_at_def numeral_2_eq_2 numeral_3_eq_3)
  qed
qed

lemma div_mod_tags:
  assumes "y < 64"
  shows "(x * 64 + y) div 64 = (x :: nat)" "(x * 64 + y) mod 64 = y"
    "(x * 64 + y) div 4096 = x div 64" "(x * 64 + y) div 262144 = x div 4096"
proof -
  show d: "(x * 64 + y) div 64 = (x :: nat)" and "(x * 64 + y) mod 64 = y"
    using assms by simp_all
  show "(x * 64 + y) div 4096 = x div 64" "(x * 64 + y) div 262144 = x div 4096"
    using div_mult2_eq [of "x * 64 + y" 64 64] div_mult2_eq [of "x * 64 + y" 64 4096] by (simp_all add: d)
qed

lemma char_of_tag: "code c = n \<Longrightarrow> char_of n = c" by auto

lemma verify_sound:
  assumes "verify_utf8_sequence s = (JSONSuccess, len)" and "s \<noteq> []"
  shows "\<exists>n r. scalar n \<and> s = utf8_code n @ r \<and> len = length (utf8_code n)"
  using assms
proof (cases rule: verify_success_cases)
  case (one a r)
  then show ?thesis
    by (intro exI [of _ "code a"] exI [of _ r]) (simp add: scalar_def utf8_code_def utf8_enc_def)
next
  case (two a b r)
  then obtain x y where "code a = 192 + x" "2 \<le> x" "x < 32" "code b = 128 + y" "y < 64"
    by (elim contE) (auto intro: that [of "code a - 192"])
  with two show ?thesis
    by (intro exI [of _ "x * 64 + y"] exI [of _ r])
      (simp add: scalar_def utf8_code_def utf8_enc_def char_of_tag div_mod_tags)
next
  case (three a b c r)
  then obtain x y z where xyz: "code a = 224 + x" "x < 16" "code b = 128 + y" "y < 64" "code c = 128 + z" "z < 64"
    by (elim contE) (auto intro: that [of "code a - 224"])
  define n where "n = (x * 64 + y) * 64 + z"
  have n: "n div 64 = x * 64 + y" "n div 4096 = x" "n mod 64 = z" "n div 64 mod 64 = y"
    unfolding n_def by (simp_all only: xyz div_mod_tags)
  have "n < 65536"
    using xyz by (simp add: n_def)
  moreover have "0x800 \<le> n \<and> scalar n"
    using verify_utf8_3 [OF xyz, of r] assms three by (simp add: n_def split: if_splits)
  ultimately show ?thesis
    using three xyz n
    by (intro exI [of _ n] exI [of _ r]) (simp add: utf8_code_def utf8_enc_def char_of_tag)
next
  case (four a b c d r)
  then obtain x y z u where xyz: "code a = 240 + x" "x < 5" "code b = 128 + y" "y < 64" "code c = 128 + z" "z < 64"
     "code d = 128 + u" "u < 64"
    by (elim contE) (auto intro: that [of "code a - 240"])
  define n where "n = ((x * 64 + y) * 64 + z) * 64 + u"
  have n: "n div 64 = (x * 64 + y) * 64 + z" "n div 4096 = x * 64 + y" "n div 262144 = x" "n mod 64 = u"
    "n div 64 mod 64 = z" "n div 4096 mod 64 = y" 
    unfolding n_def by (simp_all only: xyz div_mod_tags)
  have "0x10000 \<le> n \<and> scalar n"
    using verify_utf8_4 [OF xyz, of r] assms four by (simp add: n_def split: if_splits)
  with four xyz n show ?thesis
    by (intro exI [of _ n] exI [of _ r]) (simp add: utf8_code_def utf8_enc_def char_of_tag)
qed

lemma verify_complete:
  assumes "scalar n"
  shows "verify_utf8_sequence (utf8_code n @ r) = (JSONSuccess, length (utf8_code n))"
proof -
  consider (one) "n < 0x80" | (two) "0x80 \<le> n" "n < 0x800" | (three) "0x800 \<le> n" "n < 0x10000"
    | (four) "0x10000 \<le> n" "n < 0x110000"
    using assms unfolding scalar_def by linarith
  then show ?thesis
  proof cases
    case one
    then show ?thesis by (simp add: utf8_code_def utf8_enc_def verify_utf8_1)
  next
    case two
    then have "verify_utf8_sequence (char_of (192 + n div 64) # char_of (128 + n mod 64) # r) = (JSONSuccess, 2)"
      by (intro verify_utf8_2 [of _ "n div 64" _ "n mod 64"]) auto
    with two show ?thesis by (simp add: utf8_code_def utf8_enc_def)
  next
    case three
    have n: "(n div 4096 * 64 + n div 64 mod 64) * 64 + n mod 64 = n"
      using div_mult2_eq [of n 64 64] by simp
    have "verify_utf8_sequence (char_of (224 + n div 4096) # char_of (128 + n div 64 mod 64) # char_of (128 + n mod 64) # r) = (JSONSuccess, 3)"
      using three assms by (subst verify_utf8_3 [of _ "n div 4096" _ "n div 64 mod 64" _ "n mod 64"]) (auto simp only: n code_char_of, auto)
    with three show ?thesis by (simp add: utf8_code_def utf8_enc_def)
  next
    case four
    have n: "((n div 262144 * 64 + n div 4096 mod 64) * 64 + n div 64 mod 64) * 64 + n mod 64 = n"
      using div_mult2_eq [of n 64 64] div_mult2_eq [of n 64 4096] div_mult2_eq [of "n div 64" 64 64] by simp
    have "verify_utf8_sequence (char_of (240 + n div 262144) # char_of (128 + n div 4096 mod 64) # char_of (128 + n div 64 mod 64) # char_of (128 + n mod 64) # r) = (JSONSuccess, 4)"
      using four assms by (subst verify_utf8_4 [of _ "n div 262144" _ "n div 4096 mod 64" _ "n div 64 mod 64" _ "n mod 64"]) (auto simp only: n code_char_of, auto)
    with four show ?thesis by (simp add: utf8_code_def utf8_enc_def)
  qed
qed

lemma utf8_code_nonempty [simp]: "utf8_code n \<noteq> []"
  by (simp add: utf8_code_def utf8_enc_def)

section \<open>Whole strings\<close>

text \<open>C37. A byte string passes \<open>is_valid_utf8\<close> over its whole length exactly when it is the concatenation of the UTF-8 encodings of some sequence of Unicode scalar values.\<close>

theorem is_valid_utf8_iff:
  "is_valid_utf8 s (length s) \<longleftrightarrow> (\<exists>ns. (list_all scalar ns) \<and> s = concat (map utf8_code ns))"
proof (induction "length s" arbitrary: s rule: less_induct)
  case less
  show ?case
  proof
    assume v: "is_valid_utf8 s (length s)"
    show "\<exists>ns. (list_all scalar ns) \<and> s = concat (map utf8_code ns)"
    proof (cases "s = []")
      case False
      with v obtain len where l: "verify_utf8_sequence s = (JSONSuccess, len)"
        and d: "is_valid_utf8 (drop len s) (length s - len)"
        by (subst (asm) is_valid_utf8.simps) (auto split: prod.splits json_status.splits)
      from verify_sound [OF l False] obtain n r where n: "scalar n" "s = utf8_code n @ r" "len = length (utf8_code n)"
        by blast
      with d less have "\<exists>ns. (list_all scalar ns) \<and> r = concat (map utf8_code ns)"
        by simp
      then obtain ns where "list_all scalar ns" "r = concat (map utf8_code ns)" by blast
      with n show ?thesis by (intro exI [of _ "n # ns"]) simp
    qed (auto intro: exI [of _ "[]"])
  next
    assume "\<exists>ns. (list_all scalar ns) \<and> s = concat (map utf8_code ns)"
    then obtain ns where ns: "list_all scalar ns" "s = concat (map utf8_code ns)" by blast
    show "is_valid_utf8 s (length s)"
    proof (cases ns)
      case Nil
      with ns show ?thesis by (simp add: is_valid_utf8.simps)
    next
      case (Cons n ns')
      with ns have s: "s = utf8_code n @ concat (map utf8_code ns')" "scalar n" by auto
      have "is_valid_utf8 (concat (map utf8_code ns')) (length (concat (map utf8_code ns')))"
        using less [of "concat (map utf8_code ns')"] s ns Cons by auto
      then show ?thesis
        unfolding s(1) by (subst is_valid_utf8.simps) (simp add: verify_complete s(2))
    qed
  qed
qed

section \<open>Escapes\<close>

definition hex4 :: "string \<Rightarrow> nat" where
  "hex4 s = nat (((hex_char_to_int (char_at s 0) * 16 + hex_char_to_int (char_at s 1)) * 16
     + hex_char_to_int (char_at s 2)) * 16 + hex_char_to_int (char_at s 3))"

lemma hex_char_range: "hex_char_to_int c = - 1 \<or> (0 \<le> hex_char_to_int c \<and> hex_char_to_int c < 16)"
  by (auto simp: hex_char_to_int_def)

lemma hex_char_not_special: "hex_char_to_int c \<noteq> - 1 \<Longrightarrow> c \<noteq> QUOT \<and> c \<noteq> BSLASH \<and> c \<noteq> NUL"
  by (auto simp: hex_char_to_int_def code_def)

lemma hex_word:
  assumes "0 \<le> a" "a < 16" "0 \<le> b" "b < 16" "0 \<le> c" "c < 16" "0 \<le> d" "d < (16 :: int)"
  shows "unat (push_bit 12 (word_of_int a) OR push_bit 8 (word_of_int b)
                       OR push_bit 4 (word_of_int c) OR word_of_int d :: u32)
     = nat (((a * 16 + b) * 16 + c) * 16 + d)"
proof -
  have u: "unat (word_of_int z :: u32) = nat z" if "0 \<le> z" "z < 16" for z
    using that by (simp add: unat_eq_nat_uint uint_word_of_int_eq take_bit_eq_mod)
  have A: "push_bit 12 x OR push_bit 8 y OR push_bit 4 z OR w =
     push_bit 4 (push_bit 4 (push_bit 4 x OR y) OR z) OR w" for x y z w :: u32
    by (simp add: push_bit_or or.assoc)
  define p where "p = (push_bit 4 (word_of_int a) OR word_of_int b :: u32)"
  have p: "unat p = nat a * 16 + nat b"
    unfolding p_def using assms by (subst push_or_low) (simp_all add: u)
  define q where "q = (push_bit 4 p OR word_of_int c :: u32)"
  have q: "unat q = (nat a * 16 + nat b) * 16 + nat c"
    unfolding q_def using assms by (subst push_or_low) (simp_all add: u p)
  have "unat (push_bit 4 q OR word_of_int d :: u32) = ((nat a * 16 + nat b) * 16 + nat c) * 16 + nat d"
    using assms by (subst push_or_low) (simp_all add: u q)
  also have "\<dots> = nat (((a * 16 + b) * 16 + c) * 16 + d)"
    using assms by (simp add: nat_add_distrib nat_mult_distrib)
  finally show ?thesis
    unfolding A q_def p_def .
qed

lemma parse_utf16_hexD:
  assumes "parse_utf16_hex s = Some cp"
  shows "\<exists>a b c d r. s = a # b # c # d # r \<and> (\<forall>x \<in> {a, b, c, d}. hex_char_to_int x \<noteq> - 1)"
    and "unat cp = hex4 s" and "unat cp < 65536"
proof -
  let ?h = "\<lambda>i. hex_char_to_int (char_at s i)"
  from assms have ne: "char_at s 3 \<noteq> NUL" and h: "?h 0 \<noteq> - 1" "?h 1 \<noteq> - 1" "?h 2 \<noteq> - 1" "?h 3 \<noteq> - 1"
    and cp: "cp = push_bit 12 (word_of_int (?h 0)) OR push_bit 8 (word_of_int (?h 1))
                       OR push_bit 4 (word_of_int (?h 2)) OR word_of_int (?h 3)"
    by (auto simp: parse_utf16_hex_def Let_def split: if_splits)
  have r: "0 \<le> ?h i \<and> ?h i < 16" if "?h i \<noteq> - 1" for i
    using hex_char_range [of "char_at s i"] that by auto
  show "unat cp = hex4 s"
    unfolding cp hex4_def using r h by (intro hex_word) auto
  then show "unat cp < 65536"
    unfolding hex4_def using r [OF h(1)] r [OF h(2)] r [OF h(3)] r [OF h(4)] by auto
  have "3 < length s"
    using ne by (auto simp: char_at_def split: if_splits)
  then obtain a b c d r where "s = a # b # c # d # r"
    by (cases s; cases "tl s"; cases "tl (tl s)"; cases "tl (tl (tl s))") auto
  with h show "\<exists>a b c d r. s = a # b # c # d # r \<and> (\<forall>x \<in> {a, b, c, d}. hex_char_to_int x \<noteq> - 1)"
    by (auto simp: char_at_def)
qed

definition utf16_value :: "string \<Rightarrow> nat" where
  "utf16_value s =
     (let hi = hex4 (drop 1 s) in
      if 0xD800 \<le> hi \<and> hi \<le> 0xDBFF then 0x10000 + (hi - 0xD800) * 1024 + (hex4 (drop 7 s) - 0xDC00)
      else hi)"

lemma parse_utf16_value:
  assumes "parse_utf16 s = Some (bytes, k)"
  shows "scalar (utf16_value s) \<and> bytes = utf8_code (utf16_value s)"
proof -
  from assms obtain cp where cp: "parse_utf16_hex (drop 1 s) = Some cp"
    by (auto simp: parse_utf16_def split: option.splits)
  note h = parse_utf16_hexD(2,3) [OF cp]
  show ?thesis
  proof (cases "cp < 0xD800 \<or> cp > 0xDFFF")
    case True
    then have "cp < 0x80 \<or> cp < 0x800 \<or> cp < 0xD800 \<or> cp > 0xDFFF"
      by blast
    with assms cp have "bytes = map unbyte (utf8_bytes cp)"
      by (simp add: parse_utf16_def)
    with True h show ?thesis
      using map_unbyte_utf8_bytes [of cp]
      by (auto simp: utf16_value_def scalar_def word_less_nat_alt)
  next
    case False
    then have np: "\<not> (cp < 0x80 \<or> cp < 0x800 \<or> cp < 0xD800 \<or> cp > 0xDFFF)"
      by (auto simp: word_less_nat_alt)
    with assms cp obtain trail where t: "parse_utf16_hex (drop 7 s) = Some trail"
      and tr: "\<not> (trail < 0xDC00 \<or> trail > 0xDFFF)" and c: "cp \<ge> 0xD800 \<and> cp \<le> 0xDBFF"
      and b: "bytes = map unbyte (utf8_bytes ((push_bit 10 ((cp - 0xD800) AND 0x3FF) OR ((trail - 0xDC00) AND 0x3FF)) + 0x10000))"
      by (simp add: parse_utf16_def Let_def split: if_splits option.splits)
    note ht = parse_utf16_hexD(2,3) [OF t]
    let ?x = "unat cp - 0xD800" and ?y = "unat trail - 0xDC00"
    have xy: "?x < 1024" "?y < 1024" "0xD800 \<le> unat cp" "0xDC00 \<le> unat trail"
      using c tr by (auto simp: word_le_nat_alt word_less_nat_alt)
    have u: "unat ((cp - 0xD800) AND 0x3FF) = ?x" "unat ((trail - 0xDC00) AND 0x3FF) = ?y"
      using xy by (simp_all add: unat_and_low unat_sub word_le_nat_alt)
    define w where "w = (push_bit 10 ((cp - 0xD800) AND 0x3FF) OR ((trail - 0xDC00) AND 0x3FF))"
    have o1: "unat w = ?x * 1024 + ?y"
      unfolding w_def using xy by (subst push_or_low) (simp_all add: u)
    have cp': "unat (w + 0x10000) = 0x10000 + ?x * 1024 + ?y"
      using xy by (subst unat_add_lem [THEN iffD1]) (simp_all add: o1)
    show ?thesis
      using b [folded w_def] map_unbyte_utf8_bytes [of "w + 0x10000"] cp' xy h ht c
      by (simp add: utf16_value_def scalar_def word_le_nat_alt)
  qed
qed

section \<open>Quoted strings\<close>

lemma skip_quotes_loop_length: "skip_quotes_loop s = Some r \<Longrightarrow> length r < length s"
proof (induction s arbitrary: r rule: skip_quotes_loop.induct)
  case (2 c s)
  then show ?case
    by (fastforce split: if_splits list.splits)
qed simp

lemma skip_quotes_length [consume]: "skip_quotes s = Some r \<Longrightarrow> length r + 2 \<le> length s"
  using skip_quotes_loop_length [of "tl s" r]
  by (cases s) (auto simp: skip_quotes_def peek_def split: if_splits)

lemma skip_quotes_hex4:
  assumes "parse_utf16_hex s = Some cp" "skip_quotes_loop s = Some rest"
  shows "skip_quotes_loop (drop 4 s) = Some rest"
proof -
  obtain a b c d r where s: "s = a # b # c # d # r" and h: "\<forall>x \<in> {a, b, c, d}. hex_char_to_int x \<noteq> - 1"
    using parse_utf16_hexD(1) [OF assms(1)] by blast
  from h have "\<forall>x \<in> {a, b, c, d}. x \<noteq> QUOT \<and> x \<noteq> BSLASH"
    using hex_char_not_special by blast
  with assms(2) show ?thesis
    by (simp add: s)
qed

text \<open>An escape lies inside the quoted text: scanning goes on behind what it consumes.\<close>

lemma skip_quotes_utf16:
  assumes "parse_utf16 s = Some (bytes, k)" "skip_quotes_loop (drop 1 s) = Some rest"
  shows "skip_quotes_loop (drop (k + 1) s) = Some rest" "length bytes < k"
proof -
  from assms(1) obtain cp where cp: "parse_utf16_hex (drop 1 s) = Some cp"
    by (auto simp: parse_utf16_def split: option.splits)
  have sk: "skip_quotes_loop (drop 5 s) = Some rest"
    using skip_quotes_hex4 [OF cp assms(2)] by simp
  have "skip_quotes_loop (drop (k + 1) s) = Some rest \<and> length bytes < k"
  proof (cases "cp < 0x80 \<or> cp < 0x800 \<or> cp < 0xD800 \<or> cp > 0xDFFF")
    case True
    with assms(1) cp have "k = 4" "bytes = map unbyte (utf8_bytes cp)"
      by (simp_all add: parse_utf16_def)
    moreover have "length (utf8_bytes cp) < 4"
      using parse_utf16_hexD(3) [OF cp] by (simp add: utf8_bytes_def word_less_nat_alt)
    ultimately show ?thesis
      using sk by simp
  next
    case False
    with assms(1) cp obtain trail cp' where k: "k = 10" "bytes = map unbyte (utf8_bytes cp')"
      and t: "parse_utf16_hex (drop 7 s) = Some trail" and at: "char_at s 5 = BSLASH" "char_at s 6 = CHR ''u''"
      by (auto simp: parse_utf16_def Let_def split: if_splits option.splits)
    have "6 < length s"
      using at by (auto simp: char_at_def split: if_splits)
    then have "drop 5 s = BSLASH # CHR ''u'' # drop 7 s"
      using at by (simp add: char_at_def Cons_nth_drop_Suc flip: Cons_nth_drop_Suc)
    with sk have "skip_quotes_loop (drop 7 s) = Some rest"
      by simp
    then have "skip_quotes_loop (drop 4 (drop 7 s)) = Some rest"
      by (rule skip_quotes_hex4 [OF t])
    then show ?thesis
      using k by (simp add: utf8_bytes_def)
  qed
  then show "skip_quotes_loop (drop (k + 1) s) = Some rest" "length bytes < k"
    by simp_all
qed

lemma process_string_loop_step:
  assumes "skip_quotes_loop s = Some rest" "n = length s - length rest - 1" "n \<noteq> 0"
    and "process_string_loop s n out = Some res" "no_nul s"
  obtains bytes m where "0 < m" "m \<le> n" "length bytes \<le> m" "skip_quotes_loop (drop m s) = Some rest"
    "process_string_loop (drop m s) (n - m) (out @ bytes) = Some res"
proof -
  have bound: "m \<le> n" if "skip_quotes_loop (drop m s) = Some rest" for m
    using skip_quotes_loop_length [OF that] assms(2) by simp
  obtain c t where s: "s = c # t" "c \<noteq> NUL"
    using assms(1,5) by (cases s) auto
  have "c \<noteq> QUOT"
    using assms(1-3) s by auto
  note p = assms(4) [unfolded process_string_loop.simps [of s n out]]
  show thesis
  proof (cases "c = BSLASH")
    case True
    with assms(1) s obtain e u where t: "t = e # u" and sk: "skip_quotes_loop u = Some rest"
      by (cases t) auto
    show thesis
    proof (cases "e = CHR ''u''")
      case eu: True
      with p True s t assms(3) obtain bytes k where k: "parse_utf16 (drop 1 s) = Some (bytes, k)"
        and nx: "process_string_loop (drop (k + 2) s) (n - (k + 2)) (out @ bytes) = Some res"
        by (auto simp: peek_def char_at_def split: option.splits)
      have sk': "skip_quotes_loop (drop (k + 1) (drop 1 s)) = Some rest" "length bytes < k"
        using skip_quotes_utf16 [OF k] sk s t by simp_all
      then have "skip_quotes_loop (drop (k + 2) s) = Some rest"
        by simp
      with nx sk'(2) bound show thesis
        by (intro that [of "k + 2" bytes]) auto
    next
      case False
      with p True s t assms(3) obtain x where
        "process_string_loop (drop 2 s) (n - 2) (out @ [x]) = Some res"
        by (auto simp: peek_def char_at_def split: option.splits)
      moreover have "skip_quotes_loop (drop 2 s) = Some rest"
        using s t sk by simp
      ultimately show thesis
        using bound by (intro that [of 2 "[x]"]) auto
    qed
  next
    case False
    with p s assms(3) have "process_string_loop (drop 1 s) (n - 1) (out @ [c]) = Some res"
      by (auto simp: peek_def split: if_splits)
    moreover have "skip_quotes_loop (drop 1 s) = Some rest"
      using assms(1) s False \<open>c \<noteq> QUOT\<close> by simp
    ultimately show thesis
      using bound by (intro that [of 1 "[c]"]) auto
  qed
qed

lemma process_string_loop_bound:
  assumes "skip_quotes_loop s = Some rest" "no_nul s"
    "process_string_loop s (length s - length rest - 1) out = Some res"
  shows "length res \<le> length out + (length s - length rest - 1)"
  using assms
proof (induction "length s" arbitrary: s out rule: less_induct)
  case less
  let ?n = "length s - length rest - 1"
  show ?case
  proof (cases "?n = 0")
    case True
    with less.prems show ?thesis
      by (subst (asm) process_string_loop.simps) simp
  next
    case False
    from process_string_loop_step [OF less.prems(1) refl False less.prems(3,2)]
    obtain bytes m where m: "0 < m" "m \<le> ?n" "length bytes \<le> m" "skip_quotes_loop (drop m s) = Some rest"
      "process_string_loop (drop m s) (?n - m) (out @ bytes) = Some res" .
    have eq: "length (drop m s) - length rest - 1 = ?n - m"
      by simp
    have "length res \<le> length (out @ bytes) + (?n - m)"
      using less.hyps [of "drop m s" "out @ bytes"] m less.prems(2) unfolding eq by simp
    with m show ?thesis
      by simp
  qed
qed

lemma skip_quotes_loop_split: "skip_quotes_loop s = Some r \<Longrightarrow> \<exists>b. s = b @ QUOT # r"
proof (induction s arbitrary: r rule: skip_quotes_loop.induct)
  case (2 c s)
  then show ?case
    by (auto split: if_splits list.splits) (metis append_Cons)+
qed simp

lemma get_quoted_string_body:
  assumes "no_nul s" "get_quoted_string s = Some (out, rest)"
  shows "\<exists>body. s = QUOT # body @ QUOT # rest \<and> length out \<le> length body"
proof -
  from assms(2) have sk: "skip_quotes s = Some rest"
    and p: "process_string (drop 1 s) (length s - length rest - 2) = Some out"
    by (auto simp: get_quoted_string_def split: option.splits)
  then obtain t where s: "s = QUOT # t" and l: "skip_quotes_loop t = Some rest"
    by (cases s) (auto simp: skip_quotes_def peek_def split: if_splits)
  from skip_quotes_loop_split [OF l] obtain body where t: "t = body @ QUOT # rest"
    by blast
  from p s t l have "length out \<le> length ([] :: string) + (length t - length rest - 1)"
    using assms(1) by (intro process_string_loop_bound) (simp_all add: process_string_def)
  with s t show ?thesis
    by simp
qed

text \<open>Every successfully scanned string literal is an opening quote, a body, a closing quote and the
  rest of the input, and unescaping the body writes at most as many bytes as the body has, so the
  buffer of \<^verbatim>\<open>input_len + 1\<close> bytes of \<^verbatim>\<open>process_string\<close> is never overrun.\<close>

theorem get_quoted_string_bound:
  assumes "no_nul s" "get_quoted_string s = Some (out, rest)"
  shows "\<exists>body. s = QUOT # body @ QUOT # rest \<and> length out \<le> length body"
  using assms by (rule get_quoted_string_body)

theorem get_quoted_string_bound_witness:
  "\<exists>body. [QUOT, BSLASH, CHR ''u'', CHR ''0'', CHR ''0'', CHR ''e'', CHR ''9'', QUOT, CHR '','']
       = QUOT # body @ QUOT # '','' \<and> length (map char_of [0xC3, 0xA9 :: nat]) \<le> length body"
  by (rule get_quoted_string_bound) code_simp+

text \<open>C38. A \<^verbatim>\<open>\u\<close> escape that is accepted (a single unit outside the surrogate range, or a lead and a trail
  surrogate) names a Unicode scalar value, and exactly its UTF-8 encoding is written.\<close>

theorem parse_utf16_utf8:
  assumes "parse_utf16 s = Some (bytes, k)"
  shows "scalar (utf16_value s) \<and> bytes = utf8_code (utf16_value s)"
  using assms by (rule parse_utf16_value)

theorem parse_utf16_utf8_witness:
  "scalar (utf16_value (''ud83d'' @ [BSLASH] @ ''ude00'')) \<and>
   map char_of [0xF0, 0x9F, 0x98, 0x80 :: nat] = utf8_code (utf16_value (''ud83d'' @ [BSLASH] @ ''ude00''))"
  by (rule parse_utf16_utf8 [where k = 10]) code_simp
end
