(* ===== verification/Parson_Parse.thy ===== *)
theory Parson_Parse
  imports Parson_Json Parson_Utf8
begin

text \<open>
  The recursive-descent parser of \<^verbatim>\<open>parson.c\<close>. A parsing function maps the unread input to a
  value and the new unread input (\<open>POk\<close>), or to a null pointer (\<open>PNull\<close>). The recursion is bounded
  by fuel: \<open>POut\<close> is running out of it, and also stands for the impossible case that adding a member
  indexes outside its table. Both are shown not to happen with \<open>parse_fuel\<close>. The two \<^verbatim>\<open>while\<close>
  loops over members and elements are functions of their own.
\<close>

section \<open>The parser\<close>

datatype 'a presult = POut | PNull | POk 'a string

definition MAX_NESTING :: nat where
  "MAX_NESTING = 2048"

definition parse_string_value :: "string \<Rightarrow> json_value presult" where
  "parse_string_value s =
     (case get_quoted_string s of None \<Rightarrow> PNull | Some (new_string, r) \<Rightarrow> POk (VString new_string) r)"

definition parse_boolean_value :: "string \<Rightarrow> json_value presult" where
  "parse_boolean_value s =
     (if starts_with ''true'' s then POk (json_value_init_boolean 1) (drop 4 s)
      else if starts_with ''false'' s then POk (json_value_init_boolean 0) (drop 5 s)
      else PNull)"

definition parse_number_value :: "string \<Rightarrow> json_value presult" where
  "parse_number_value s =
     (let r = strtod s in
      if sd_erange r \<and> (case sd_value r of Inf _ \<Rightarrow> True | _ \<Rightarrow> False) then PNull
      else if \<not> is_decimal s (length s - length (sd_rest r)) then PNull
      else (case json_value_init_number (sd_value r) of
              None \<Rightarrow> PNull
            | Some v \<Rightarrow> POk v (sd_rest r)))"

definition parse_null_value :: "string \<Rightarrow> json_value presult" where
  "parse_null_value s = (if starts_with ''null'' s then POk json_value_init_null (drop 4 s) else PNull)"

function (sequential) parse_value :: "nat \<Rightarrow> string \<Rightarrow> nat \<Rightarrow> json_value presult"
and parse_object_value :: "nat \<Rightarrow> string \<Rightarrow> nat \<Rightarrow> json_value presult"
and parse_object_loop :: "nat \<Rightarrow> string \<Rightarrow> nat \<Rightarrow> json_value json_object \<Rightarrow> json_value json_object presult"
and parse_array_value :: "nat \<Rightarrow> string \<Rightarrow> nat \<Rightarrow> json_value presult"
and parse_array_loop :: "nat \<Rightarrow> string \<Rightarrow> nat \<Rightarrow> json_value json_array \<Rightarrow> json_value json_array presult" where
  "parse_value 0 s nesting = POut"
| "parse_value (Suc f) s nesting =
     (if nesting > MAX_NESTING then PNull
      else
        let t = skip_ws s; c = peek t in
        if c = CHR ''{'' then parse_object_value f t (nesting + 1)
        else if c = CHR ''['' then parse_array_value f t (nesting + 1)
        else if c = QUOT then parse_string_value t
        else if c = CHR ''f'' \<or> c = CHR ''t'' then parse_boolean_value t
        else if c = CHR ''-'' \<or> isdigit c then parse_number_value t
        else if c = CHR ''n'' then parse_null_value t
        else PNull)"
| "parse_object_value 0 s nesting = POut"
| "parse_object_value (Suc f) s nesting =
     (if peek s \<noteq> CHR ''{'' then PNull
      else
        let t = skip_ws (tl s) in
        if peek t = CHR ''}'' then POk json_value_init_object (tl t)
        else (case parse_object_loop f t nesting json_object_make of
                POut \<Rightarrow> POut
              | PNull \<Rightarrow> PNull
              | POk ob r \<Rightarrow>
                  let u = skip_ws r in
                  if peek u \<noteq> CHR ''}'' then PNull else POk (VObject ob) (tl u)))"
| "parse_object_loop 0 s nesting ob = POut"
| "parse_object_loop (Suc f) s nesting ob =
     (if peek s = NUL then POk ob s
      else (case get_quoted_string s of
              None \<Rightarrow> PNull
            | Some (new_key, r) \<Rightarrow>
                if length new_key \<noteq> strlen new_key then PNull
                else
                  let t = skip_ws r in
                  if peek t \<noteq> CHR '':'' then PNull
                  else (case parse_value f (tl t) nesting of
                          POut \<Rightarrow> POut
                        | PNull \<Rightarrow> PNull
                        | POk new_value r' \<Rightarrow>
                            (case json_object_add ob new_key new_value of
                               None \<Rightarrow> POut
                             | Some (JSONFailure, _) \<Rightarrow> PNull
                             | Some (JSONSuccess, ob') \<Rightarrow>
                                 let u = skip_ws r' in
                                 if peek u \<noteq> CHR '','' then POk ob' u
                                 else
                                   let w = skip_ws (tl u) in
                                   if peek w = CHR ''}'' then POk ob' w
                                   else parse_object_loop f w nesting ob'))))"
| "parse_array_value 0 s nesting = POut"
| "parse_array_value (Suc f) s nesting =
     (if peek s \<noteq> CHR ''['' then PNull
      else
        let t = skip_ws (tl s) in
        if peek t = CHR '']'' then POk json_value_init_array (tl t)
        else (case parse_array_loop f t nesting json_array_make of
                POut \<Rightarrow> POut
              | PNull \<Rightarrow> PNull
              | POk a r \<Rightarrow>
                  let u = skip_ws r in
                  if peek u \<noteq> CHR '']'' then PNull
                  else (case json_array_resize a (json_array_get_count (Some a)) of
                          (JSONFailure, _) \<Rightarrow> PNull
                        | (JSONSuccess, a') \<Rightarrow> POk (VArray a') (tl u))))"
| "parse_array_loop 0 s nesting a = POut"
| "parse_array_loop (Suc f) s nesting a =
     (if peek s = NUL then POk a s
      else (case parse_value f s nesting of
              POut \<Rightarrow> POut
            | PNull \<Rightarrow> PNull
            | POk new_value r \<Rightarrow>
                (case json_array_add a new_value of
                   (JSONFailure, _) \<Rightarrow> PNull
                 | (JSONSuccess, a') \<Rightarrow>
                     let u = skip_ws r in
                     if peek u \<noteq> CHR '','' then POk a' u
                     else
                       let w = skip_ws (tl u) in
                       if peek w = CHR '']'' then POk a' w
                       else parse_array_loop f w nesting a')))"

  by pat_completeness auto
termination
  by (relation "measure (\<lambda>x. case x of
        Inl (Inl (f, s, n)) \<Rightarrow> f
      | Inl (Inr (f, s, n)) \<Rightarrow> f
      | Inr (Inl (f, s, n, ob)) \<Rightarrow> f
      | Inr (Inr (Inl (f, s, n))) \<Rightarrow> f
      | Inr (Inr (Inr (f, s, n, a))) \<Rightarrow> f)") simp_all

declare parse_value.simps [simp del] parse_object_value.simps [simp del] parse_object_loop.simps [simp del]
  parse_array_value.simps [simp del] parse_array_loop.simps [simp del]

text \<open>Fuel for an input of the given length: every recursive call but three consumes a character.\<close>

definition parse_fuel :: "string \<Rightarrow> nat" where
  "parse_fuel s = 3 * length s + 3"

definition presult_ptr :: "'a presult \<Rightarrow> 'a option" where
  "presult_ptr r = (case r of POk v _ \<Rightarrow> Some v | _ \<Rightarrow> None)"

definition json_parse_string :: "string option \<Rightarrow> json_value option" where
  "json_parse_string string =
     (case string of
        None \<Rightarrow> None
      | Some s \<Rightarrow>
          let t = cstr s;
              u = (if starts_with (map char_of [0xEF, 0xBB, 0xBF :: nat]) t then drop 3 t else t)
          in presult_ptr (parse_value (parse_fuel u) u 0))"

definition json_parse_string_with_comments :: "string \<Rightarrow> json_value option" where
  "json_parse_string_with_comments string =
     (let t = remove_comments (remove_comments (cstr string) ''/*'' ''*/'') ''//'' [LF]
      in presult_ptr (parse_value (parse_fuel t) t 0))"

section \<open>Consumption\<close>

lemma skip_ws_length [consume]: "length (skip_ws s) \<le> length s"
  unfolding skip_ws_def by (rule length_dropWhile_le)

lemma skip_ws_no_nul [simp]: "no_nul s \<Longrightarrow> no_nul (skip_ws s)"
  unfolding skip_ws_def no_nul_def by (auto dest: set_dropWhileD)

lemma no_nul_tl [simp]: "no_nul s \<Longrightarrow> no_nul (tl s)"
  by (cases s) auto

lemma peek_NUL [simp]: "no_nul s \<Longrightarrow> peek s = NUL \<longleftrightarrow> s = []"
  by (cases s) (auto simp: peek_def)

lemma peek_length: "peek s = c \<Longrightarrow> c \<noteq> NUL \<Longrightarrow> Suc (length (tl s)) = length s"
  by (cases s) (auto simp: peek_def)

section \<open>Soundness\<close>

definition rest_of :: "string \<Rightarrow> string \<Rightarrow> bool" where
  "rest_of r s \<longleftrightarrow> length r \<le> length s \<and> (no_nul s \<longrightarrow> no_nul r)"

lemma rest_of_append: "s = p @ r \<Longrightarrow> rest_of r s"
  by (auto simp: rest_of_def)

lemma rest_of_trans: "rest_of r s \<Longrightarrow> rest_of s t \<Longrightarrow> rest_of r t"
  by (auto simp: rest_of_def)

lemma rest_of_refl [simp]: "rest_of s s"
  by (simp add: rest_of_def)

lemma rest_of_skip_ws [simp]: "rest_of (skip_ws s) s"
  by (simp add: rest_of_def skip_ws_length)

lemma rest_of_tl [simp]: "rest_of (tl s) s"
  by (simp add: rest_of_def)

lemma rest_of_drop [simp]: "rest_of (drop n s) s"
  by (simp add: rest_of_def)

definition fits :: "nat \<Rightarrow> json_value \<Rightarrow> bool" where
  "fits n v \<longleftrightarrow> wf_json v \<and> depth v + n \<le> MAX_NESTING + 1"

definition V_ok :: "nat \<Rightarrow> bool" where
  "V_ok f \<longleftrightarrow> (\<forall>s n v r. no_nul s \<longrightarrow> length s < 2 ^ 31 \<longrightarrow> parse_value f s n = POk v r \<longrightarrow>
     rest_of r s \<and> fits n v)"

definition O_ok :: "nat \<Rightarrow> bool" where
  "O_ok f \<longleftrightarrow> (\<forall>s n v r. no_nul s \<longrightarrow> length s < 2 ^ 31 \<longrightarrow> n \<le> MAX_NESTING \<longrightarrow>
     parse_object_value f s (n + 1) = POk v r \<longrightarrow> rest_of r s \<and> fits n v)"

definition A_ok :: "nat \<Rightarrow> bool" where
  "A_ok f \<longleftrightarrow> (\<forall>s n v r. no_nul s \<longrightarrow> length s < 2 ^ 31 \<longrightarrow> n \<le> MAX_NESTING \<longrightarrow>
     parse_array_value f s (n + 1) = POk v r \<longrightarrow> rest_of r s \<and> fits n v)"

definition OL_ok :: "nat \<Rightarrow> bool" where
  "OL_ok f \<longleftrightarrow> (\<forall>s n ob ob' r. no_nul s \<longrightarrow> count ob + length s < 2 ^ 31 \<longrightarrow> wf_object ob \<longrightarrow>
     (\<forall>x \<in> set (vals ob). fits n x) \<longrightarrow> parse_object_loop f s n ob = POk ob' r \<longrightarrow>
     rest_of r s \<and> wf_object ob' \<and> count ob' < 2 ^ 31 \<and> (\<forall>x \<in> set (vals ob'). fits n x))"

definition AL_ok :: "nat \<Rightarrow> bool" where
  "AL_ok f \<longleftrightarrow> (\<forall>s n a a' r. no_nul s \<longrightarrow> length s < 2 ^ 31 \<longrightarrow> wf_array a \<longrightarrow>
     (\<forall>x \<in> set (arr_items a). fits n x) \<longrightarrow> parse_array_loop f s n a = POk a' r \<longrightarrow>
     rest_of r s \<and> wf_array a' \<and> (\<forall>x \<in> set (arr_items a'). fits n x))"

lemmas OL_okD = OL_ok_def [THEN iffD1, rule_format]
lemmas AL_okD = AL_ok_def [THEN iffD1, rule_format]

lemma count_make [simp]: "count json_object_make = 0" "vals json_object_make = []"
  by (simp_all add: json_object_make_def json_object_init_def)

lemma fits_object:
  assumes "wf_object ob" "count ob \<le> 2 ^ 31" "\<forall>x \<in> set (vals ob). fits (n + 1) x" "n \<le> MAX_NESTING"
  shows "fits n (VObject ob)"
proof -
  have "Max (insert 0 (depth ` set (vals ob))) + (n + 1) \<le> MAX_NESTING + 1"
    using assms(3,4) Max_in [of "insert 0 (depth ` set (vals ob))"] by (auto simp: fits_def)
  with assms show ?thesis
    by (auto simp: fits_def)
qed

lemma fits_array:
  assumes "wf_array a" "\<forall>x \<in> set (arr_items a). fits (n + 1) x" "n \<le> MAX_NESTING"
  shows "fits n (VArray a)"
proof -
  have "Max (insert 0 (depth ` set (arr_items a))) + (n + 1) \<le> MAX_NESTING + 1"
    using assms(2,3) Max_in [of "insert 0 (depth ` set (arr_items a))"] by (auto simp: fits_def)
  with assms show ?thesis
    by (auto simp: fits_def)
qed

lemma get_quoted_string_rest:
  assumes "no_nul s" "get_quoted_string s = Some (out, rest)"
  shows "rest_of rest s" "length rest + 2 \<le> length s"
  using get_quoted_string_body [OF assms] by (auto simp: rest_of_def)

lemma add_member:
  assumes "wf_object ob" "no_nul k" "count ob < 2 ^ 31" "json_object_add ob k v = Some (JSONSuccess, ob')"
  shows "wf_object ob'" "count ob' = Suc (count ob)" "set (vals ob') = insert v (set (vals ob))"
proof -
  from ht.add_success [OF assms(1,2) _ assms(4)] assms(3) length_items [OF assms(1)]
  have ob': "wf_object ob'" "items ob' = items ob @ [(k, v)]"
    by auto
  then show "wf_object ob'" "count ob' = Suc (count ob)" "set (vals ob') = insert v (set (vals ob))"
    using length_items [OF assms(1)] length_items [OF ob'(1)] vals_items [OF assms(1)] vals_items [OF ob'(1)]
    by auto
qed

lemma no_nul_strlen: "length k = strlen k \<Longrightarrow> no_nul k"
  unfolding strlen_def cstr_def no_nul_def
  by (metis (mono_tags, lifting) nth_mem order_less_irrefl set_takeWhileD takeWhile_eq_all_conv length_takeWhile_le takeWhile_eq_take take_all order_refl)

lemma object_loop_inv:
  assumes "parse_object_loop (Suc f) s n ob = POk ob' r" "peek s \<noteq> NUL"
  obtains k t v u ob1 w where "get_quoted_string s = Some (k, t)" "length k = strlen k"
    "parse_value f (tl (skip_ws t)) n = POk v u" "json_object_add ob k v = Some (JSONSuccess, ob1)"
    "w = skip_ws u \<and> ob' = ob1 \<and> r = w \<or>
     w = skip_ws (tl (skip_ws u)) \<and> peek (skip_ws u) = CHR '','' \<and>
       (ob' = ob1 \<and> r = w \<or> parse_object_loop f w n ob1 = POk ob' r)"
proof -
  from assms obtain k t where q: "get_quoted_string s = Some (k, t)" and k: "length k = strlen k"
    by (auto simp: parse_object_loop.simps split: option.splits if_splits)
  from assms q k obtain v u where c: "peek (skip_ws t) = CHR '':''"
    and v: "parse_value f (tl (skip_ws t)) n = POk v u"
    by (auto simp: parse_object_loop.simps Let_def split: if_splits presult.splits)
  from assms q k c v obtain ob1 where a: "json_object_add ob k v = Some (JSONSuccess, ob1)"
    by (auto simp: parse_object_loop.simps Let_def split: option.splits json_status.splits)
  from assms q k c v a show thesis
    by (intro that [OF q k v a, of "if peek (skip_ws u) = CHR '','' then skip_ws (tl (skip_ws u)) else skip_ws u"])
      (auto simp: parse_object_loop.simps Let_def split: if_splits)
qed

lemma object_loop_step:
  assumes V: "V_ok f" and L: "OL_ok f"
  shows "OL_ok (Suc f)"
  unfolding OL_ok_def
proof (intro allI impI)
  fix s n ob ob' r
  assume s: "no_nul s" "count ob + length s < 2 ^ 31" and ob: "wf_object ob" "\<forall>x \<in> set (vals ob). fits n x"
    and p: "parse_object_loop (Suc f) s n ob = POk ob' r"
  show "rest_of r s \<and> wf_object ob' \<and> count ob' < 2 ^ 31 \<and> (\<forall>x \<in> set (vals ob'). fits n x)"
  proof (cases "peek s = NUL")
    case True
    with p s ob show ?thesis by (simp add: parse_object_loop.simps)
  next
    case False
    from object_loop_inv [OF p False] obtain k t v u ob1 w where
      q: "get_quoted_string s = Some (k, t)" "length k = strlen k"
      and v: "parse_value f (tl (skip_ws t)) n = POk v u" and a: "json_object_add ob k v = Some (JSONSuccess, ob1)"
      and w: "w = skip_ws u \<and> ob' = ob1 \<and> r = w \<or>
        w = skip_ws (tl (skip_ws u)) \<and> peek (skip_ws u) = CHR '','' \<and>
          (ob' = ob1 \<and> r = w \<or> parse_object_loop f w n ob1 = POk ob' r)" .
    have t: "rest_of (tl (skip_ws t)) s" "length (tl (skip_ws t)) < length s"
      using get_quoted_string_rest [OF s(1) q(1)] skip_ws_length [of t] by (auto simp: rest_of_def)
    have u: "rest_of u (tl (skip_ws t))" "fits n v"
      using V t s v unfolding V_ok_def rest_of_def by fastforce+
    have ws: "rest_of w s" "length w < length s"
      using w t u s skip_ws_length [of u] skip_ws_length [of "tl (skip_ws u)"] by (auto simp: rest_of_def)
    have w1: "wf_object ob1" "count ob1 = Suc (count ob)" "\<forall>x \<in> set (vals ob1). fits n x"
      using add_member [OF ob(1) no_nul_strlen [OF q(2)] _ a] s ob u by auto
    then have fin: "rest_of w s \<and> wf_object ob1 \<and> count ob1 < 2 ^ 31 \<and> (\<forall>x \<in> set (vals ob1). fits n x)"
      using ws s by auto
    have nw: "no_nul w" "count ob1 + length w < 2 ^ 31"
      using ws w1 s by (auto simp: rest_of_def)
    have "rest_of r w \<and> wf_object ob' \<and> count ob' < 2 ^ 31 \<and> (\<forall>x \<in> set (vals ob'). fits n x)"
      if "parse_object_loop f w n ob1 = POk ob' r"
      using L nw w1(1,3) that unfolding OL_ok_def by blast
    with w fin rest_of_trans show ?thesis by metis
  qed
qed

lemma array_loop_inv:
  assumes "parse_array_loop (Suc f) s n a = POk a' r" "peek s \<noteq> NUL"
  obtains v u a1 w where "parse_value f s n = POk v u" "json_array_add a v = (JSONSuccess, a1)"
    "w = skip_ws u \<and> a' = a1 \<and> r = w \<or>
     w = skip_ws (tl (skip_ws u)) \<and> peek (skip_ws u) = CHR '','' \<and>
       (a' = a1 \<and> r = w \<or> parse_array_loop f w n a1 = POk a' r)"
proof -
  from assms obtain v u where v: "parse_value f s n = POk v u"
    by (auto simp: parse_array_loop.simps split: presult.splits)
  obtain a1 where a: "json_array_add a v = (JSONSuccess, a1)"
    using json_array_add_ok [of a v] by (cases "json_array_add a v") auto
  from assms v a show thesis
    by (intro that [OF v a, of "if peek (skip_ws u) = CHR '','' then skip_ws (tl (skip_ws u)) else skip_ws u"])
      (auto simp: parse_array_loop.simps Let_def split: if_splits)
qed

lemma array_loop_step:
  assumes V: "V_ok f" and L: "AL_ok f"
  shows "AL_ok (Suc f)"
  unfolding AL_ok_def
proof (intro allI impI)
  fix s n a a' r
  assume s: "no_nul s" "length s < 2 ^ 31" and a: "wf_array a" "\<forall>x \<in> set (arr_items a). fits n x"
    and p: "parse_array_loop (Suc f) s n a = POk a' r"
  show "rest_of r s \<and> wf_array a' \<and> (\<forall>x \<in> set (arr_items a'). fits n x)"
  proof (cases "peek s = NUL")
    case True
    with p s a show ?thesis by (simp add: parse_array_loop.simps)
  next
    case False
    from array_loop_inv [OF p False] obtain v u a1 w where
      v: "parse_value f s n = POk v u" and a1: "json_array_add a v = (JSONSuccess, a1)"
      and w: "w = skip_ws u \<and> a' = a1 \<and> r = w \<or>
        w = skip_ws (tl (skip_ws u)) \<and> peek (skip_ws u) = CHR '','' \<and>
          (a' = a1 \<and> r = w \<or> parse_array_loop f w n a1 = POk a' r)" .
    have u: "rest_of u s" "fits n v"
      using V s v unfolding V_ok_def by blast+
    have ws: "rest_of w s" "no_nul w" "length w < 2 ^ 31"
      using w u s skip_ws_length [of u] skip_ws_length [of "tl (skip_ws u)"] by (auto simp: rest_of_def)
    have w1: "wf_array a1" "\<forall>x \<in> set (arr_items a1). fits n x"
      using json_array_add_ok [of a v] a1 a u by auto
    have "rest_of r w \<and> wf_array a' \<and> (\<forall>x \<in> set (arr_items a'). fits n x)"
      if "parse_array_loop f w n a1 = POk a' r"
      using L ws(2,3) w1 that unfolding AL_ok_def by blast
    with w w1 ws(1) rest_of_trans show ?thesis by metis
  qed
qed

lemma object_step:
  assumes "OL_ok f"
  shows "O_ok (Suc f)"
  unfolding O_ok_def
proof (intro allI impI)
  fix s n v r
  assume s: "no_nul s" "length s < 2 ^ 31" "n \<le> MAX_NESTING" and p: "parse_object_value (Suc f) s (n + 1) = POk v r"
  let ?t = "skip_ws (tl s)"
  have t: "rest_of ?t s"
    by (auto intro: rest_of_trans [OF rest_of_skip_ws rest_of_tl])
  show "rest_of r s \<and> fits n v"
  proof (cases "peek ?t = CHR ''}''")
    case True
    then have "v = VObject json_object_make" "r = tl ?t"
      using p by (auto simp: parse_object_value.simps json_value_init_object_def split: if_splits)
    moreover have "fits n (VObject json_object_make)"
      using s(3) by (intro fits_object make_wf) simp_all
    ultimately show ?thesis
      using rest_of_trans [OF rest_of_tl t] by simp
  next
    case False
    then obtain ob u where l: "parse_object_loop f ?t (n + 1) json_object_make = POk ob u"
      and v: "v = VObject ob" "r = tl (skip_ws u)"
      using p by (auto simp: parse_object_value.simps Let_def split: if_splits presult.splits)
    have "rest_of u ?t \<and> wf_object ob \<and> count ob < 2 ^ 31 \<and> (\<forall>x \<in> set (vals ob). fits (n + 1) x)"
      using s t by (intro OL_okD [OF assms _ _ make_wf _ l]) (auto simp: rest_of_def)
    moreover have "rest_of (tl (skip_ws u)) u"
      by (rule rest_of_trans [OF rest_of_tl rest_of_skip_ws])
    ultimately show ?thesis
      using v s(3) fits_object [of ob n] rest_of_trans t by (metis less_imp_le)
  qed
qed

lemma array_step:
  assumes "AL_ok f"
  shows "A_ok (Suc f)"
  unfolding A_ok_def
proof (intro allI impI)
  fix s n v r
  assume s: "no_nul s" "length s < 2 ^ 31" "n \<le> MAX_NESTING" and p: "parse_array_value (Suc f) s (n + 1) = POk v r"
  let ?t = "skip_ws (tl s)"
  have t: "rest_of ?t s"
    by (auto intro: rest_of_trans [OF rest_of_skip_ws rest_of_tl])
  show "rest_of r s \<and> fits n v"
  proof (cases "peek ?t = CHR '']''")
    case True
    then have "v = VArray json_array_make" "r = tl ?t"
      using p by (auto simp: parse_array_value.simps json_value_init_array_def split: if_splits)
    moreover have "fits n (VArray json_array_make)"
      using s(3) by (intro fits_array) (simp_all add: json_array_make_def wf_array_def)
    ultimately show ?thesis
      using rest_of_trans [OF rest_of_tl t] by simp
  next
    case False
    then obtain a u where l: "parse_array_loop f ?t (n + 1) json_array_make = POk a u"
      and v: "v = VArray (JSON_Array (arr_items a) (length (arr_items a)))" "r = tl (skip_ws u)"
      using p by (auto simp: parse_array_value.simps Let_def json_array_resize_def json_array_get_count_def
          split: if_splits presult.splits)
    have "rest_of u ?t \<and> wf_array a \<and> (\<forall>x \<in> set (arr_items a). fits (n + 1) x)"
      using s t by (intro AL_okD [OF assms _ _ _ _ l]) (auto simp: rest_of_def json_array_make_def wf_array_def)
    moreover have "rest_of (tl (skip_ws u)) u"
      by (rule rest_of_trans [OF rest_of_tl rest_of_skip_ws])
    moreover have "wf_array (JSON_Array (arr_items a) (length (arr_items a)))"
      by (simp add: wf_array_def)
    ultimately show ?thesis
      using v s(3) fits_array [of "JSON_Array (arr_items a) (length (arr_items a))" n] rest_of_trans t
      by (metis json_array.sel(1))
  qed
qed

lemma leaf_sound:
  assumes "no_nul s"
  shows "parse_string_value s = POk v r \<Longrightarrow> rest_of r s \<and> wf_json v \<and> depth v = 0"
    and "parse_boolean_value s = POk v r \<Longrightarrow> rest_of r s \<and> wf_json v \<and> depth v = 0"
    and "parse_number_value s = POk v r \<Longrightarrow> rest_of r s \<and> wf_json v \<and> depth v = 0"
    and "parse_null_value s = POk v r \<Longrightarrow> rest_of r s \<and> wf_json v \<and> depth v = 0"
proof -
  show "parse_string_value s = POk v r \<Longrightarrow> rest_of r s \<and> wf_json v \<and> depth v = 0"
    using get_quoted_string_rest [OF assms]
    by (auto simp: parse_string_value_def split: option.splits)
  show "parse_boolean_value s = POk v r \<Longrightarrow> rest_of r s \<and> wf_json v \<and> depth v = 0"
    by (auto simp: parse_boolean_value_def json_value_init_boolean_def split: if_splits)
  show "parse_number_value s = POk v r \<Longrightarrow> rest_of r s \<and> wf_json v \<and> depth v = 0"
    using strtod_suffix [of s] rest_of_append
    by (auto simp: parse_number_value_def Let_def json_value_init_number_def split: if_splits double.splits)
  show "parse_null_value s = POk v r \<Longrightarrow> rest_of r s \<and> wf_json v \<and> depth v = 0"
    by (auto simp: parse_null_value_def json_value_init_null_def split: if_splits)
qed

lemma value_step:
  assumes "O_ok f" "A_ok f"
  shows "V_ok (Suc f)"
  unfolding V_ok_def
proof (intro allI impI)
  fix s n v r
  assume s: "no_nul s" "length s < 2 ^ 31" and p: "parse_value (Suc f) s n = POk v r"
  let ?t = "skip_ws s"
  have n: "n \<le> MAX_NESTING"
    using p by (auto simp: parse_value.simps split: if_splits)
  have t: "no_nul ?t" "length ?t < 2 ^ 31"
    using s skip_ws_length [of s] by auto
  have leaf: "rest_of r s \<and> fits n v" if "rest_of r ?t \<and> wf_json v \<and> depth v = 0"
    using that n rest_of_trans [OF _ rest_of_skip_ws] by (simp add: fits_def)
  have "rest_of r s \<and> fits n v" if "parse_object_value f ?t (n + 1) = POk v r"
    using assms(1) t n that rest_of_trans [OF _ rest_of_skip_ws] unfolding O_ok_def by blast
  moreover have "rest_of r s \<and> fits n v" if "parse_array_value f ?t (n + 1) = POk v r"
    using assms(2) t n that rest_of_trans [OF _ rest_of_skip_ws] unfolding A_ok_def by blast
  moreover have "rest_of r s \<and> fits n v"
    if "parse_string_value ?t = POk v r \<or> parse_boolean_value ?t = POk v r \<or>
        parse_number_value ?t = POk v r \<or> parse_null_value ?t = POk v r"
    using leaf leaf_sound [OF t(1)] that by blast
  ultimately show "rest_of r s \<and> fits n v"
    using p by (auto simp: parse_value.simps Let_def split: if_splits)
qed

lemma parse_sound: "V_ok f \<and> O_ok f \<and> A_ok f \<and> OL_ok f \<and> AL_ok f"
proof (induction f)
  case 0
  show ?case
    by (simp add: V_ok_def O_ok_def A_ok_def OL_ok_def AL_ok_def parse_value.simps parse_object_value.simps
        parse_array_value.simps parse_object_loop.simps parse_array_loop.simps)
next
  case (Suc f)
  then show ?case
    using value_step object_step array_step object_loop_step array_loop_step by blast
qed

section \<open>Totality\<close>

lemma leaf_total:
  "parse_string_value s \<noteq> POut" "parse_boolean_value s \<noteq> POut" "parse_number_value s \<noteq> POut" "parse_null_value s \<noteq> POut"
  by (auto simp: parse_string_value_def parse_boolean_value_def parse_number_value_def parse_null_value_def Let_def
      split: option.splits)

definition V_tot :: "nat \<Rightarrow> bool" where
  "V_tot f \<longleftrightarrow> (\<forall>s n. no_nul s \<longrightarrow> length s < 2 ^ 31 \<longrightarrow> 3 * length s + 3 \<le> f \<longrightarrow> parse_value f s n \<noteq> POut)"

definition C_tot :: "nat \<Rightarrow> bool" where
  "C_tot f \<longleftrightarrow> (\<forall>s n. no_nul s \<longrightarrow> length s < 2 ^ 31 \<longrightarrow> 3 * length s + 2 \<le> f \<longrightarrow>
     parse_object_value f s n \<noteq> POut \<and> parse_array_value f s n \<noteq> POut)"

definition L_tot :: "nat \<Rightarrow> bool" where
  "L_tot f \<longleftrightarrow> (\<forall>s n ob a. no_nul s \<longrightarrow> 3 * length s + 4 \<le> f \<longrightarrow>
     (wf_object ob \<longrightarrow> count ob + length s < 2 ^ 31 \<longrightarrow> parse_object_loop f s n ob \<noteq> POut) \<and>
     (length s < 2 ^ 31 \<longrightarrow> parse_array_loop f s n a \<noteq> POut))"

lemma value_total:
  assumes "C_tot f"
  shows "V_tot (Suc f)"
  unfolding V_tot_def
proof (intro allI impI)
  fix s n
  assume s: "no_nul s" "length s < 2 ^ 31" "3 * length s + 3 \<le> Suc f"
  then have "no_nul (skip_ws s)" "length (skip_ws s) < 2 ^ 31" "3 * length (skip_ws s) + 2 \<le> f"
    using skip_ws_length [of s] by auto
  with assms have "parse_object_value f (skip_ws s) m \<noteq> POut \<and> parse_array_value f (skip_ws s) m \<noteq> POut" for m
    unfolding C_tot_def by blast
  then show "parse_value (Suc f) s n \<noteq> POut"
    using leaf_total by (simp add: parse_value.simps Let_def)
qed

lemma container_total:
  assumes "L_tot f"
  shows "C_tot (Suc f)"
  unfolding C_tot_def
proof (intro allI impI)
  fix s n
  assume s: "no_nul s" "length s < 2 ^ 31" "3 * length s + 2 \<le> Suc f"
  let ?t = "skip_ws (tl s)"
  have t: "no_nul ?t" "length ?t < 2 ^ 31" "s \<noteq> [] \<Longrightarrow> 3 * length ?t + 4 \<le> f"
    using s skip_ws_length [of "tl s"] by (auto simp: Suc_le_eq length_greater_0_conv [symmetric] simp del: length_greater_0_conv)
  have "parse_object_loop f ?t n json_object_make \<noteq> POut \<and> parse_array_loop f ?t n a \<noteq> POut" if "s \<noteq> []" for a
  proof -
    have "count (json_object_make :: json_value json_object) + length ?t < 2 ^ 31"
      using t(2) by simp
    then show ?thesis
      using assms t that make_wf unfolding L_tot_def by blast
  qed
  moreover have "peek s = c \<Longrightarrow> c \<noteq> NUL \<Longrightarrow> s \<noteq> []" for c
    by (auto simp: peek_def)
  ultimately show "parse_object_value (Suc f) s n \<noteq> POut \<and> parse_array_value (Suc f) s n \<noteq> POut"
    by (auto simp: parse_object_value.simps parse_array_value.simps Let_def json_array_resize_def split: presult.splits)
qed

lemma object_loop_total:
  assumes V: "V_tot f" and L: "L_tot f"
    and s: "no_nul s" "3 * length s + 4 \<le> Suc f" and ob: "wf_object ob" "count ob + length s < 2 ^ 31"
  shows "parse_object_loop (Suc f) s n ob \<noteq> POut"
proof
  assume out: "parse_object_loop (Suc f) s n ob = POut"
  then have ne: "peek s \<noteq> NUL"
    by (auto simp: parse_object_loop.simps)
  with out obtain k t where q: "get_quoted_string s = Some (k, t)" and k: "length k = strlen k"
    and c: "peek (skip_ws t) = CHR '':''"
    by (auto simp: parse_object_loop.simps Let_def split: option.splits if_splits)
  let ?t = "tl (skip_ws t)"
  have t: "no_nul ?t" "length ?t < length s"
    using get_quoted_string_rest [OF s(1) q(1)] skip_ws_length [of t] s by (auto simp: rest_of_def)
  then have "parse_value f ?t n \<noteq> POut"
    using V s ob unfolding V_tot_def by auto
  with out ne q k c obtain v u where v: "parse_value f ?t n = POk v u"
    by (auto simp: parse_object_loop.simps Let_def split: presult.splits)
  have u: "rest_of u ?t"
    using parse_sound [of f] v t ob unfolding V_ok_def by fastforce
  obtain st ob1 where a: "json_object_add ob k v = Some (st, ob1)"
    using ht.add_total [OF ob(1) no_nul_strlen [OF k], of v] ob length_items [OF ob(1)] by auto
  with out ne q k c v have st: "st = JSONSuccess"
    by (cases st) (auto simp: parse_object_loop.simps Let_def)
  let ?w = "skip_ws (tl (skip_ws u))"
  have w: "no_nul ?w" "length ?w < length s"
    using u t skip_ws_length [of u] skip_ws_length [of "tl (skip_ws u)"] by (auto simp: rest_of_def)
  have "wf_object ob1" "count ob1 = Suc (count ob)"
    using add_member [OF ob(1) no_nul_strlen [OF k]] a st ob by auto
  then have "parse_object_loop f ?w n ob1 \<noteq> POut"
    using L w s ob unfolding L_tot_def by auto
  with out ne q k c v a st show False
    by (auto simp: parse_object_loop.simps Let_def split: if_splits)
qed

lemma array_loop_total:
  assumes V: "V_tot f" and L: "L_tot f" and s: "no_nul s" "3 * length s + 4 \<le> Suc f" "length s < 2 ^ 31"
  shows "parse_array_loop (Suc f) s n a \<noteq> POut"
proof
  assume out: "parse_array_loop (Suc f) s n a = POut"
  then have ne: "peek s \<noteq> NUL"
    by (auto simp: parse_array_loop.simps)
  have "parse_value f s n \<noteq> POut"
    using V s unfolding V_tot_def by auto
  with out ne obtain v u where v: "parse_value f s n = POk v u"
    by (auto simp: parse_array_loop.simps split: presult.splits)
  have u: "rest_of u s"
    using parse_sound [of f] v s unfolding V_ok_def by blast
  obtain a1 where a1: "json_array_add a v = (JSONSuccess, a1)"
    using json_array_add_ok [of a v] by (cases "json_array_add a v") auto
  let ?w = "skip_ws (tl (skip_ws u))"
  have "parse_array_loop f ?w n a1 \<noteq> POut" if c: "peek (skip_ws u) = CHR '',''"
  proof -
    have "length (tl (skip_ws u)) < length s"
      using peek_length [OF c] u skip_ws_length [of u] by (simp add: rest_of_def)
    then have "no_nul ?w" "length ?w < length s"
      using u s skip_ws_length [of "tl (skip_ws u)"] by (auto simp: rest_of_def)
    then show ?thesis
      using L s unfolding L_tot_def by auto
  qed
  with out ne v a1 show False
    by (auto simp: parse_array_loop.simps Let_def split: if_splits)
qed

lemma parse_total: "V_tot f \<and> C_tot f \<and> L_tot f"
proof (induction f)
  case 0
  show ?case by (simp add: V_tot_def C_tot_def L_tot_def)
next
  case (Suc f)
  then have "L_tot (Suc f)"
    using object_loop_total [of f] array_loop_total [of f] unfolding L_tot_def [of "Suc f"] by blast
  with Suc show ?case
    using value_total container_total by blast
qed

section \<open>Properties of the parser\<close>

text \<open>C32. The parser is total on every terminated input below 2 GiB: the fuel \<open>parse_fuel\<close> is never used up and no
  member is ever stored outside its table, whatever the input.\<close>

theorem parse_value_total:
  assumes "no_nul s" and "length s < 2 ^ 31"
  shows "parse_value (parse_fuel s) s n \<noteq> POut"
  using parse_total [of "parse_fuel s"] assms unfolding V_tot_def parse_fuel_def by blast

theorem parse_value_total_witness:
  "parse_value (parse_fuel ''[[null'') ''[[null'' 0 \<noteq> POut"
  by (rule parse_value_total) simp_all

text \<open>C31. Whatever the parser accepts is well formed: every object in the result is a well-formed hash table and
  every array fits its capacity, the containers are nested at most \<open>MAX_NESTING + 1\<close> deep (counting the
  nesting the call starts with), and the unread rest is not longer than the input.\<close>

theorem parse_value_sound:
  assumes "no_nul s" and "length s < 2 ^ 31" and "parse_value f s n = POk v r"
  shows "wf_json v \<and> depth v + n \<le> MAX_NESTING + 1 \<and> length r \<le> length s \<and> no_nul r"
  using parse_sound [of f] assms unfolding V_ok_def fits_def rest_of_def by blast

theorem parse_value_sound_witness:
  "\<exists>v. parse_value 9 ''[[]]x'' 0 = POk v ''x'' \<and>
     wf_json v \<and> depth v + 0 \<le> MAX_NESTING + 1 \<and> length ''x'' \<le> length ''[[]]x'' \<and> no_nul ''x''"
proof -
  obtain v where "parse_value 9 ''[[]]x'' 0 = POk v ''x''"
    by (subgoal_tac "\<exists>v. parse_value 9 ''[[]]x'' 0 = POk v ''x''", blast) (rule exI, code_simp)
  then show ?thesis
    using parse_value_sound [of "''[[]]x''" 9 0 v "''x''"] by simp
qed

end
