(* ===== verification/C_Printf.thy ===== *)
theory C_Printf
  imports C_Double
begin

text \<open>
  \<^verbatim>\<open>sprintf (s, "%1.17g", d)\<close>: seventeen significant digits, the fixed or the scientific notation, no trailing zeros. What it
  prints for a double fits into 24 characters, and \<^verbatim>\<open>strtod\<close> reads the same double back.

  The printed decimal is the one next to the value (ties to even, as in glibc); the sign of zero is not kept by \<open>double\<close>.
\<close>

section \<open>Printing\<close>

text \<open>The largest \<open>k\<close> with \<open>rpow 10 k \<le> q\<close>, for a positive rational.\<close>

definition ilog10 :: "rat \<Rightarrow> int" where
  "ilog10 q =
     (let (a, b) = quotient_of q;
          k = int (length (show_nat (nat a))) - int (length (show_nat (nat b)))
      in if rpow 10 k \<le> q then k else k - 1)"

text \<open>The seventeen digits as a number and the decimal exponent of the first of them.\<close>

definition decimal17 :: "rat \<Rightarrow> nat \<times> int" where
  "decimal17 q =
     (let x = ilog10 q; m = nat (round_half_even (q / rpow 10 (x - 16)))
      in if m = 10 ^ 17 then (10 ^ 16, x + 1) else (m, x))"

definition strip_zeros :: "string \<Rightarrow> string" where
  "strip_zeros ds = rev (dropWhile (\<lambda>c. c = CHR ''0'') (rev ds))"

definition fraction :: "string \<Rightarrow> string" where
  "fraction ds = (let u = strip_zeros ds in if u = [] then [] else CHR ''.'' # u)"

definition exponent_text :: "int \<Rightarrow> string" where
  "exponent_text x =
     CHR ''e'' # (if x < 0 then CHR ''-'' else CHR ''+'')
       # (if \<bar>x\<bar> < 10 then ''0'' else []) @ show_nat (nat \<bar>x\<bar>)"

definition unsigned_17g :: "rat \<Rightarrow> string" where
  "unsigned_17g q =
     (if q = 0 then ''0''
      else
        let (m, x) = decimal17 q; ds = show_nat m in
        if 0 \<le> x \<and> x < 17 then take (nat x + 1) ds @ fraction (drop (nat x + 1) ds)
        else if - 4 \<le> x \<and> x < 0 then ''0.'' @ replicate (nat (- x) - 1) CHR ''0'' @ strip_zeros ds
        else take 1 ds @ fraction (drop 1 ds) @ exponent_text x)"

definition sprintf_17g :: "rat \<Rightarrow> string" where
  "sprintf_17g q = (if q < 0 then CHR ''-'' # unsigned_17g (- q) else unsigned_17g q)"

section \<open>Logarithms\<close>

lemma rpow_powi: "rpow b k = of_nat b powi k"
  by (simp add: rpow_def power_int_def field_simps)

lemma pow2_powi: "pow2 k = 2 powi k"
  by (simp add: pow2_def power_int_def field_simps)

lemma show_nat_bounds: "0 < n \<Longrightarrow> 10 ^ (length (show_nat n) - 1) \<le> n \<and> n < 10 ^ length (show_nat n)"
proof (induction n rule: show_nat.induct)
  case (1 n)
  show ?case
  proof (cases "n < 10")
    case True
    with "1.prems" show ?thesis by (subst (1 2) show_nat.simps) simp
  next
    case False
    then have IH: "10 ^ (length (show_nat (n div 10)) - 1) \<le> n div 10" "n div 10 < 10 ^ length (show_nat (n div 10))"
      using 1 by auto
    obtain k where k: "length (show_nat (n div 10)) = Suc k"
      by (cases "length (show_nat (n div 10))") auto
    from IH k have "10 * 10 ^ k \<le> n" "n < 10 * 10 ^ Suc k"
      by auto
    with False k show ?thesis
      by (subst (1 2) show_nat.simps) simp
  qed
qed

lemma bits_bounds: "0 < n \<Longrightarrow> 2 ^ (bits n - 1) \<le> n \<and> n < 2 ^ bits n"
proof (induction n rule: bits.induct)
  case (1 n)
  show ?case
  proof (cases "n = 1")
    case True
    then show ?thesis by (simp add: bits.simps [of "Suc 0"] bits.simps [of 0])
  next
    case False
    then have IH: "2 ^ (bits (n div 2) - 1) \<le> n div 2" "n div 2 < 2 ^ bits (n div 2)"
      using 1 by auto
    with False 1 obtain k where k: "bits (n div 2) = Suc k"
      by (cases "bits (n div 2)") auto
    from IH k have "2 * 2 ^ k \<le> n" "n < 2 * 2 ^ Suc k"
      by auto
    with "1.prems" k show ?thesis
      by (subst (1 2) bits.simps) simp
  qed
qed

text \<open>The two logarithms are instances of one computation from the lengths of numerator and denominator.\<close>

lemma log_quotient:
  fixes q :: rat and g :: nat
  assumes q: "quotient_of q = (a, b)" "0 < q" and g: "1 < g"
    and la: "g ^ (la - 1) \<le> nat a" "nat a < g ^ la" and lb: "g ^ (lb - 1) \<le> nat b" "nat b < g ^ lb"
    and pos: "0 < la" "0 < lb"
  shows "of_nat g powi (int la - int lb - 1) < q \<and> q < of_nat g powi (int la - int lb + 1)"
proof -
  have ab: "q = of_int a / of_int b" "0 < b"
    using quotient_of_div [OF q(1)] quotient_of_denom_pos [OF q(1)] by auto
  then have a: "0 < a"
    using q(2) by (simp add: zero_less_divide_iff)
  let ?g = "of_nat g :: rat"
  have num: "?g powi (int la - 1) \<le> of_int a" "of_int a < ?g powi int la"
  proof -
    have "(of_nat (g ^ (la - 1)) :: rat) \<le> of_nat (nat a)" "(of_nat (nat a) :: rat) < of_nat (g ^ la)"
      using la by (simp_all only: of_nat_le_iff of_nat_less_iff)
    then show "?g powi (int la - 1) \<le> of_int a" "of_int a < ?g powi int la"
      using a pos by (simp_all add: power_int_def nat_diff_distrib of_nat_nat)
  qed
  have den: "?g powi (int lb - 1) \<le> of_int b" "of_int b < ?g powi int lb"
  proof -
    have "(of_nat (g ^ (lb - 1)) :: rat) \<le> of_nat (nat b)" "(of_nat (nat b) :: rat) < of_nat (g ^ lb)"
      using lb by (simp_all only: of_nat_le_iff of_nat_less_iff)
    then show "?g powi (int lb - 1) \<le> of_int b" "of_int b < ?g powi int lb"
      using ab pos by (simp_all add: power_int_def nat_diff_distrib of_nat_nat)
  qed
  have g0: "0 < ?g" "?g \<noteq> 0" using g by auto
  have "?g powi (int la - int lb - 1) * of_int b < ?g powi (int la - int lb - 1) * ?g powi int lb"
    using den g0 by (intro mult_strict_left_mono) auto
  also have "\<dots> = ?g powi (int la - 1)"
    using g0 by (subst power_int_add [symmetric]) simp_all
  finally have lo: "?g powi (int la - int lb - 1) * of_int b < of_int a"
    using num by linarith
  have "of_int a < ?g powi (int la - int lb + 1) * ?g powi (int lb - 1)"
    using num g0 by (simp flip: power_int_add)
  also have "\<dots> \<le> ?g powi (int la - int lb + 1) * of_int b"
    using den g0 by (intro mult_left_mono) auto
  finally show ?thesis
    using lo ab by (simp add: pos_less_divide_eq pos_divide_less_eq)
qed

lemma ilog10_bounds:
  assumes "0 < q"
  shows "10 powi ilog10 q \<le> q \<and> q < 10 powi (ilog10 q + 1)"
proof -
  obtain a b where q: "quotient_of q = (a, b)" by (cases "quotient_of q")
  then have "0 < b" "0 < a"
    using quotient_of_div [OF q] quotient_of_denom_pos [OF q] assms by (auto simp: zero_less_divide_iff)
  then show ?thesis
    using log_quotient [OF q assms, of 10 "length (show_nat (nat a))" "length (show_nat (nat b))"]
      show_nat_bounds [of "nat a"] show_nat_bounds [of "nat b"] q
    by (auto simp: ilog10_def Let_def rpow_powi)
qed

lemma ilog2_bounds:
  assumes "0 < q"
  shows "2 powi ilog2 q \<le> q \<and> q < 2 powi (ilog2 q + 1)"
proof -
  obtain a b where q: "quotient_of q = (a, b)" by (cases "quotient_of q")
  then have "0 < b" "0 < a"
    using quotient_of_div [OF q] quotient_of_denom_pos [OF q] assms by (auto simp: zero_less_divide_iff)
  moreover have "0 < bits n" if "0 < n" for n
    using that by (subst bits.simps) simp
  ultimately show ?thesis
    using log_quotient [OF q assms, of 2 "bits (nat a)" "bits (nat b)"]
      bits_bounds [of "nat a"] bits_bounds [of "nat b"] q
    by (auto simp: ilog2_def Let_def pow2_powi)
qed

section \<open>Rounding\<close>

lemma round_half_even_unique: "\<bar>q - of_int z\<bar> < 1 / 2 \<Longrightarrow> round_half_even q = z"
proof -
  assume *: "\<bar>q - of_int z\<bar> < 1 / 2"
  then have z: "- (1 / 2) < q - of_int z" "q - of_int z < 1 / 2"
    by linarith+
  show ?thesis
  proof (cases "of_int z \<le> q")
    case True
    then have "\<lfloor>q\<rfloor> = z" using z by (intro floor_unique) linarith+
    with z show ?thesis by (simp add: round_half_even_def)
  next
    case False
    then have "\<lfloor>q\<rfloor> = z - 1" using z by (intro floor_unique) (simp, linarith)+
    with z show ?thesis by (simp add: round_half_even_def)
  qed
qed

lemma round_half_even_error: "\<bar>of_int (round_half_even q) - q\<bar> \<le> 1 / 2"
proof -
  have "of_int \<lfloor>q\<rfloor> \<le> q" "q < of_int \<lfloor>q\<rfloor> + 1"
    by (rule of_int_floor_le) (rule floor_correct [THEN conjunct2, simplified of_int_add of_int_1])
  then show ?thesis
    by (auto simp: round_half_even_def Let_def abs_le_iff)
qed

lemma round_half_even_range:
  assumes "of_int a \<le> q" "q < of_int b"
  shows "a \<le> round_half_even q" "round_half_even q \<le> b"
proof -
  have "of_int (round_half_even q) - q \<le> 1 / 2" "q - of_int (round_half_even q) \<le> 1 / 2"
    using round_half_even_error [of q] by (simp_all only: abs_le_iff) simp_all
  with assms have "(of_int (a - 1) :: rat) < of_int (round_half_even q)"
    "(of_int (round_half_even q) :: rat) < of_int (b + 1)"
    unfolding of_int_diff of_int_add of_int_1 by linarith+
  then show "a \<le> round_half_even q" "round_half_even q \<le> b"
    by (simp_all only: of_int_less_iff)
qed

text \<open>The numbers a \<open>double\<close> holds\<close>

definition is_double :: "rat \<Rightarrow> bool" where
  "is_double q \<longleftrightarrow> round_double q = Fin q"

definition ulp_exp :: "rat \<Rightarrow> int" where
  "ulp_exp q = max (ilog2 \<bar>q\<bar> - 52) (- 1074)"

lemma round_double_ulp:
  "q \<noteq> 0 \<Longrightarrow> round_double q =
     (let d = of_int (round_half_even (q / 2 powi ulp_exp q)) * 2 powi ulp_exp q
      in if 2 ^ 1024 \<le> \<bar>d\<bar> then Inf (q < 0) else Fin d)"
  by (simp add: round_double_def ulp_exp_def pow2_powi Let_def)

lemma is_double_ulp:
  assumes "is_double q" "q \<noteq> 0"
  obtains z where "q = of_int z * 2 powi ulp_exp q" "\<bar>z\<bar> < 2 ^ 53" "\<bar>q\<bar> < 2 ^ 1024"
proof -
  let ?z = "round_half_even (q / 2 powi ulp_exp q)"
  have q: "q = of_int ?z * 2 powi ulp_exp q" "\<bar>q\<bar> < 2 ^ 1024"
    using assms by (auto simp: is_double_def round_double_ulp Let_def split: if_splits)
  have "\<bar>q\<bar> < 2 powi (ilog2 \<bar>q\<bar> + 1)"
    using ilog2_bounds [of "\<bar>q\<bar>"] assms by simp
  also have "\<dots> \<le> 2 powi (53 + ulp_exp q)"
    by (intro power_int_increasing) (auto simp: ulp_exp_def)
  also have "\<dots> = 2 powi 53 * 2 powi ulp_exp q"
    by (subst power_int_add) simp_all
  finally have "\<bar>of_int ?z\<bar> * 2 powi ulp_exp q < (2 powi 53 * 2 powi ulp_exp q :: rat)"
    by (subst (asm) q(1)) (simp add: abs_mult)
  then have "\<bar>of_int ?z :: rat\<bar> < of_int (2 ^ 53)"
    by (simp add: mult_less_cancel_right)
  then have "\<bar>?z\<bar> < 2 ^ 53"
    by (simp only: of_int_less_iff flip: of_int_abs)
  with q that show thesis by blast
qed

lemma quarter: "0 < a \<Longrightarrow> d * 4 \<le> a \<Longrightarrow> a \<le> b + d \<Longrightarrow> a < 2 * (b :: rat)"
  by linarith

lemma near_ulp:
  assumes w: "\<bar>w - of_int z\<bar> \<le> \<bar>of_int z\<bar> / (2 * 10 ^ 16)" and z: "\<bar>z\<bar> < 2 ^ 53" "z \<noteq> 0"
  shows "\<bar>w - of_int z\<bar> < (1 / 2 :: rat)" and "\<bar>w\<bar> < 2 ^ 53" and "\<bar>of_int z\<bar> < 2 * \<bar>w\<bar>"
    and "\<bar>w\<bar> < 2 ^ 52 \<Longrightarrow> \<bar>2 * w - of_int (2 * z)\<bar> < 1 / 2"
proof -
  have zl: "\<bar>of_int z\<bar> \<le> (9007199254740991 :: rat)"
  proof -
    have "\<bar>z\<bar> \<le> 9007199254740991" using z by simp
    then have "(of_int \<bar>z\<bar> :: rat) \<le> of_int 9007199254740991" by (simp only: of_int_le_iff)
    then show ?thesis by simp
  qed
  have w1: "\<bar>w\<bar> \<le> \<bar>of_int z\<bar> + \<bar>w - of_int z\<bar>" "\<bar>of_int z\<bar> \<le> \<bar>w\<bar> + \<bar>w - of_int z\<bar>"
    by linarith+
  have p: "\<bar>of_int z\<bar> / (2 * 10 ^ 16) \<le> (9007199254740991 :: rat) / (2 * 10 ^ 16)"
    using zl by (simp add: divide_right_mono)
  show h: "\<bar>w - of_int z\<bar> < 1 / 2"
    using w p by simp
  show "\<bar>w\<bar> < 2 ^ 53"
    using w1 h zl by simp
  have "(0 :: rat) < \<bar>of_int z\<bar>" using z by simp
  moreover have "\<bar>w - of_int z\<bar> * 4 \<le> \<bar>w - of_int z\<bar> * (2 * 10 ^ 16)"
    by (intro mult_left_mono) simp_all
  then have "\<bar>w - of_int z\<bar> * 4 \<le> \<bar>of_int z\<bar>"
    by (rule order_trans) (use w in \<open>simp add: pos_le_divide_eq\<close>)
  ultimately show "\<bar>of_int z\<bar> < 2 * \<bar>w\<bar>"
    using w1(2) by (rule quarter)
  show "\<bar>2 * w - of_int (2 * z)\<bar> < 1 / 2" if s: "\<bar>w\<bar> < 2 ^ 52"
  proof -
    have "\<bar>of_int z :: rat\<bar> < of_int (2 ^ 52 + 1)"
      using w1 h s by simp
    then have "\<bar>z\<bar> \<le> 2 ^ 52"
      by (simp only: of_int_less_iff flip: of_int_abs)
    then have "(of_int \<bar>z\<bar> :: rat) \<le> of_int (2 ^ 52)"
      by (simp only: of_int_le_iff)
    then have "\<bar>of_int z\<bar> / (2 * 10 ^ 16) \<le> (2 ^ 52 :: rat) / (2 * 10 ^ 16)"
      by (intro divide_right_mono) simp_all
    then have "\<bar>w - of_int z\<bar> < 1 / 4"
      using w by simp
    moreover have "2 * w - of_int (2 * z) = 2 * (w - of_int z)"
      by simp
    ultimately show ?thesis
      by (simp only: abs_mult)
  qed
qed

text \<open>A value that is nearer to a double than a half of \<open>10 ^ - 16\<close> of it is rounded to it.\<close>

lemma round_double_near:
  assumes q: "is_double q" "q \<noteq> 0" and v: "\<bar>v - q\<bar> \<le> \<bar>q\<bar> / (2 * 10 ^ 16)"
  shows "round_double v = Fin q"
proof -
  obtain z where z: "q = of_int z * 2 powi ulp_exp q" "\<bar>z\<bar> < 2 ^ 53" and big: "\<bar>q\<bar> < 2 ^ 1024"
    using is_double_ulp [OF q] .
  define e where "e = ulp_exp q"
  define w where "w = v / 2 powi e"
  have e_lo: "- 1074 \<le> e"
    by (simp add: e_def ulp_exp_def)
  have vw: "v = w * 2 powi e" and qz: "q = of_int z * 2 powi e" and z0: "z \<noteq> 0"
    using z(1) q(2) by (auto simp: w_def e_def)
  have "\<bar>w - of_int z\<bar> * 2 powi e = \<bar>v - q\<bar>"
    unfolding vw qz by (simp add: abs_mult flip: left_diff_distrib)
  also have "\<dots> \<le> \<bar>of_int z\<bar> / (2 * 10 ^ 16) * 2 powi e"
    using v unfolding qz by (simp add: abs_mult)
  finally have w: "\<bar>w - of_int z\<bar> \<le> \<bar>of_int z\<bar> / (2 * 10 ^ 16)"
    by (simp add: mult_le_cancel_right)
  note near = near_ulp [OF w z(2) z0]
  have w0: "0 < \<bar>w\<bar>"
    using less_trans [OF _ near(3), of 0] z0 by simp
  then have v0: "0 < \<bar>v\<bar>"
    by (auto simp: vw)
  note lv = ilog2_bounds [OF v0] and lq = ilog2_bounds [of "\<bar>q\<bar>"]
  have up: "ilog2 \<bar>v\<bar> - 52 \<le> e"
  proof (rule ccontr)
    assume "\<not> ilog2 \<bar>v\<bar> - 52 \<le> e"
    then have "(2 powi (53 + e) :: rat) \<le> 2 powi ilog2 \<bar>v\<bar>"
      by (intro power_int_increasing) auto
    with lv have "2 powi (53 + e) \<le> \<bar>w\<bar> * 2 powi e"
      by (simp add: vw abs_mult)
    then have "2 ^ 53 \<le> \<bar>w\<bar>"
      by (subst (asm) power_int_add) (simp_all add: mult_le_cancel_right)
    with near(2) show False by simp
  qed
  have fin: "round_double v = Fin q" if "of_int (round_half_even (v / 2 powi ulp_exp v)) * 2 powi ulp_exp v = q"
    using v0 that big by (simp add: round_double_ulp Let_def)
  show ?thesis
  proof (cases "ulp_exp v = e")
    case True
    have "v / 2 powi ulp_exp v = w"
      by (simp add: True w_def)
    then show ?thesis
      using fin round_half_even_unique [OF near(1)] qz by (simp add: True)
  next
    case False
    with up e_lo have e: "e > - 1074" "ulp_exp v \<le> e - 1" "ilog2 \<bar>v\<bar> - 52 \<le> e - 1"
      by (auto simp: ulp_exp_def max_def split: if_splits)
    then have eq: "e = ilog2 \<bar>q\<bar> - 52"
      by (auto simp: e_def ulp_exp_def)
    have "\<bar>w\<bar> * 2 powi e < 2 powi (ilog2 \<bar>v\<bar> + 1)"
      using lv by (simp add: vw abs_mult)
    also have "\<dots> \<le> 2 powi (52 + e)"
      using e by (intro power_int_increasing) auto
    finally have small: "\<bar>w\<bar> < 2 ^ 52"
      by (subst (asm) power_int_add) (simp_all add: mult_less_cancel_right)
    have "2 powi (52 + e) \<le> \<bar>q\<bar>"
      using lq q(2) by (simp add: eq)
    also have "\<bar>q\<bar> = \<bar>of_int z\<bar> * 2 powi e"
      by (subst qz) (simp add: abs_mult)
    finally have "2 powi (52 + e) \<le> (\<bar>of_int z\<bar> * 2 powi e :: rat)" .
    then have zl: "2 ^ 52 \<le> \<bar>of_int z :: rat\<bar>"
      by (subst (asm) power_int_add) (simp_all add: mult_le_cancel_right)
    have "e - 1 \<le> ulp_exp v"
    proof (rule ccontr)
      assume "\<not> e - 1 \<le> ulp_exp v"
      then have "ilog2 \<bar>v\<bar> + 1 \<le> 51 + e"
        by (simp add: ulp_exp_def)
      then have "(2 powi (ilog2 \<bar>v\<bar> + 1) :: rat) \<le> 2 powi (51 + e)"
        by (intro power_int_increasing) auto
      with lv have "\<bar>w\<bar> * 2 powi e < 2 powi (51 + e)"
        by (simp add: vw abs_mult)
      then have "\<bar>w\<bar> < 2 ^ 51"
        by (subst (asm) power_int_add) (simp_all add: mult_less_cancel_right)
      with zl near(3) show False by simp
    qed
    with e have u: "ulp_exp v = e - 1" by simp
    have p: "(2 powi e :: rat) = 2 * 2 powi (e - 1)"
      by (simp add: power_int_diff)
    then have "v / 2 powi ulp_exp v = 2 * w"
      unfolding u by (simp add: vw)
    then have "round_half_even (v / 2 powi ulp_exp v) = 2 * z"
      using round_half_even_unique [OF near(4) [OF small]] by simp
    then show ?thesis
      using fin qz p by (simp add: u)
  qed
qed

section \<open>Seventeen digits\<close>

lemma decimal17_ok:
  assumes "0 < q" "decimal17 q = (m, x)"
  shows "10 ^ 16 \<le> m" "m < 10 ^ 17" "\<bar>of_nat m * 10 powi (x - 16) - q\<bar> \<le> q / (2 * 10 ^ 16)"
    "ilog10 q \<le> x" "x \<le> ilog10 q + 1"
proof -
  let ?k = "ilog10 q" and ?s = "10 powi (ilog10 q - 16) :: rat"
  let ?r = "q / ?s"
  let ?z = "round_half_even ?r"
  note lq = ilog10_bounds [OF assms(1)]
  have s: "0 < ?s" by simp
  have p: "(10 powi ?k :: rat) = 10 ^ 16 * ?s" "(10 powi (?k + 1) :: rat) = 10 ^ 17 * ?s"
    by (simp_all add: power_int_diff power_int_add)
  have r: "10 ^ 16 \<le> ?r" "?r < 10 ^ 17"
    using lq s by (simp_all only: p pos_le_divide_eq pos_divide_less_eq)
  have e: "\<bar>of_int ?z - ?r\<bar> \<le> 1 / 2"
    by (rule round_half_even_error)
  have z: "10 ^ 16 \<le> ?z" "?z \<le> 10 ^ 17"
    using r round_half_even_range [of "10 ^ 16" ?r "10 ^ 17"] by simp_all
  have "\<bar>of_int ?z * ?s - q\<bar> = \<bar>of_int ?z - ?r\<bar> * ?s"
  proof -
    have "of_int ?z * ?s - q = (of_int ?z - ?r) * ?s" by (simp add: left_diff_distrib)
    then show ?thesis by (simp only: abs_mult abs_of_pos [OF s])
  qed
  also have "\<dots> \<le> 1 / 2 * ?s"
    using e s by (intro mult_right_mono) auto
  also have "\<dots> \<le> q / (2 * 10 ^ 16)"
    using lq by (simp add: p)
  finally have err: "\<bar>of_int ?z * ?s - q\<bar> \<le> q / (2 * 10 ^ 16)" .
  have up: "(10 ^ 16 * 10 powi (?k + 1 - 16) :: rat) = 10 ^ 17 * ?s"
    by (simp add: power_int_diff power_int_add)
  show "10 ^ 16 \<le> m" "m < 10 ^ 17" "?k \<le> x" "x \<le> ?k + 1"
    using assms(2) z by (auto simp: decimal17_def Let_def rpow_powi nat_less_iff le_nat_iff split: if_splits)
  show "\<bar>of_nat m * 10 powi (x - 16) - q\<bar> \<le> q / (2 * 10 ^ 16)"
  proof (cases "nat ?z = 10 ^ 17")
    case True
    then have "m = 10 ^ 16" "x = ?k + 1" "?z = 10 ^ 17"
      using assms(2) z by (auto simp: decimal17_def Let_def rpow_powi)
    with err up show ?thesis by simp
  next
    case False
    then have "m = nat ?z" "x = ?k"
      using assms(2) by (auto simp: decimal17_def Let_def rpow_powi)
    with err z show ?thesis by simp
  qed
qed

lemma strip_zeros_split: "\<exists>k. ds = strip_zeros ds @ replicate k CHR ''0'' \<and> length ds = length (strip_zeros ds) + k"
proof -
  let ?t = "takeWhile (\<lambda>c. c = CHR ''0'') (rev ds)"
  have "?t = replicate (length ?t) CHR ''0''"
    by (metis (full_types) replicate_length_same set_takeWhileD)
  then have "rev ds = replicate (length ?t) CHR ''0'' @ rev (strip_zeros ds)"
    unfolding strip_zeros_def by (metis rev_rev_ident takeWhile_dropWhile_id)
  then have "ds = strip_zeros ds @ replicate (length ?t) CHR ''0''"
    by (metis rev_append rev_replicate rev_rev_ident)
  then show ?thesis
    by (metis length_append length_replicate)
qed

lemma read_digits_zeros [simp]: "read_digits acc (replicate k CHR ''0'') = acc * 10 ^ k"
  by (induction k arbitrary: acc) (simp_all add: isdigit_def digit_val_def code_def)

lemma strip_zeros_digits: "list_all isdigit ds \<Longrightarrow> list_all isdigit (strip_zeros ds)"
  using strip_zeros_split [of ds] by (metis list_all_append)

definition after_digits :: "string \<Rightarrow> bool" where
  "after_digits r \<longleftrightarrow> (case r of [] \<Rightarrow> True | c # _ \<Rightarrow> \<not> isdigit c \<and> c \<noteq> CHR ''.'')"

lemma read_mantissa_decimal:
  assumes "list_all isdigit ds" "ds \<noteq> []" "list_all isdigit fs" "after_digits r"
  shows "read_mantissa decval 10 (ds @ (if fs = [] then [] else CHR ''.'' # fs) @ r) =
    Some (int (read_digits 0 (ds @ fs)), length fs, r)"
proof (cases "fs = []")
  case True
  then show ?thesis
    using assms read_base_digits [of ds r 0 0]
    by (cases r) (auto simp: read_mantissa_def after_digits_def)
next
  case False
  have "\<not> isdigit CHR ''.''" by (simp add: isdigit_def code_def)
  then show ?thesis
    using assms False read_base_digits [of ds "CHR ''.'' # fs @ r" 0 0]
      read_base_digits [of fs r "read_digits 0 ds" 0]
    by (cases r) (auto simp: read_mantissa_def after_digits_def read_digits_append)
qed

section \<open>Reading back\<close>

lemma read_exponent_text:
  assumes "case rest of [] \<Rightarrow> True | c # _ \<Rightarrow> \<not> isdigit c"
  shows "read_exponent (CHR ''e'') (CHR ''E'') (exponent_text x @ rest) = (x, rest)"
proof -
  define es where "es = (if \<bar>x\<bar> < 10 then ''0'' else []) @ show_nat (nat \<bar>x\<bar>)"
  have "read_digits 0 es = nat \<bar>x\<bar>"
    using read_digits_zeros [of 0 1]
    by (simp add: es_def read_digits_append read_digits_show_nat isdigit_def code_def digit_val_def)
  moreover have "list_all isdigit es" "es \<noteq> []"
    by (simp_all add: es_def show_nat_digits isdigit_def code_def)
  moreover have "\<forall>c t. rest = c # t \<longrightarrow> \<not> isdigit c"
    using assms by (auto split: list.splits)
  ultimately have "read_base decval 10 0 0 (es @ rest) = (\<bar>x\<bar>, length es, rest)" "length es \<noteq> 0"
    using read_base_digits [of es rest 0 0] by simp_all
  moreover have "exponent_text x = CHR ''e'' # (if x < 0 then CHR ''-'' else CHR ''+'') # es"
    by (simp add: exponent_text_def es_def)
  ultimately show ?thesis
    by (simp add: read_exponent_def)
qed

definition exponent_opt :: "int option \<Rightarrow> string" where
  "exponent_opt e = (case e of None \<Rightarrow> [] | Some x \<Rightarrow> exponent_text x)"

lemma strtod_body_decimal:
  assumes "list_all isdigit ds" "ds \<noteq> []" "list_all isdigit fs" "number_end rest"
  shows "strtod_body (ds @ (if fs = [] then [] else CHR ''.'' # fs) @ exponent_opt e @ rest) =
    Some (Fin (of_nat (read_digits 0 (ds @ fs)) * 10 powi (case_option 0 id e - int (length fs))), rest)"
proof -
  let ?r = "exponent_opt e @ rest"
  let ?t = "(if fs = [] then [] else CHR ''.'' # fs) @ ?r"
  have m: "read_mantissa decval 10 (ds @ ?t) = Some (int (read_digits 0 (ds @ fs)), length fs, ?r)"
    using read_mantissa_decimal [OF assms(1-3), of ?r] assms(4)
    by (cases e; cases rest) (auto simp: after_digits_def exponent_opt_def exponent_text_def number_end_def isdigit_def code_def)
  have e: "read_exponent (CHR ''e'') (CHR ''E'') ?r = (case_option 0 id e, rest)"
  proof (cases e)
    case None
    then show ?thesis
      using assms(4) by (cases rest) (auto simp: exponent_opt_def read_exponent_def number_end_def)
  next
    case (Some x)
    then show ?thesis
      using read_exponent_text [of rest x] assms(4) by (cases rest) (auto simp: exponent_opt_def number_end_def)
  qed
  have "case ?t of [] \<Rightarrow> True | c # _ \<Rightarrow> c \<noteq> CHR ''x'' \<and> c \<noteq> CHR ''X''"
    using assms(4) by (cases "fs = []"; cases e; cases rest) (auto simp: exponent_opt_def exponent_text_def number_end_def)
  then have "\<not> ci_prefix ''0x'' (ds @ ?t)"
    by (rule ci_prefix_0x [OF assms(1,2)])
  moreover have "\<not> ci_prefix (CHR ''i'' # ps) (ds @ ?t)" "\<not> ci_prefix (CHR ''n'' # ps) (ds @ ?t)" for ps
    using ci_prefix_nondigit [OF assms(1,2), of "CHR ''i''" ps ?t] ci_prefix_nondigit [OF assms(1,2), of "CHR ''n''" ps ?t]
    by (simp_all add: ctype_simps)
  ultimately show ?thesis
    using m e by (simp add: strtod_body_def rpow_powi del: append.simps)
qed

lemma fraction_split:
  assumes "list_all isdigit ds"
  obtains fs k where "fraction ds = (if fs = [] then [] else CHR ''.'' # fs)" "list_all isdigit fs"
    "length ds = length fs + k" "\<forall>acc. read_digits acc ds = read_digits acc fs * 10 ^ k"
proof -
  obtain k where k: "ds = strip_zeros ds @ replicate k CHR ''0''" "length ds = length (strip_zeros ds) + k"
    using strip_zeros_split by blast
  have "read_digits acc ds = read_digits acc (strip_zeros ds) * 10 ^ k" for acc
    by (subst k(1)) (simp add: read_digits_append strip_zeros_digits assms)
  with k that [of "strip_zeros ds" k] show thesis
    by (simp add: fraction_def Let_def strip_zeros_digits assms)
qed

lemma digits17:
  assumes "10 ^ 16 \<le> m" "m < 10 ^ 17"
  shows "length (show_nat m) = 17" "hd (show_nat m) \<noteq> CHR ''0''"
proof -
  let ?l = "length (show_nat m)"
  have "10 ^ (?l - 1) \<le> m" "m < 10 ^ ?l"
    using show_nat_bounds [of m] assms by auto
  then have "(10 :: nat) ^ (?l - 1) < 10 ^ 17" "(10 :: nat) ^ 16 < 10 ^ ?l"
    using assms by linarith+
  then have "?l - 1 < 17" "16 < ?l"
    by (simp_all only: power_strict_increasing_iff numeral_less_iff)
  then show "?l = 17" by simp
  show "hd (show_nat m) \<noteq> CHR ''0''"
    using assms by (intro show_nat_hd) simp
qed

lemma scale10: "m = r * 10 ^ k \<Longrightarrow> int k + y = z \<Longrightarrow> of_nat m * 10 powi y = (of_nat r * 10 powi z :: rat)"
  by (auto simp: power_int_add)

lemma strtod_body_17g:
  assumes "0 < q" "decimal17 q = (m, x)" "number_end rest"
  shows "strtod_body (unsigned_17g q @ rest) = Some (Fin (of_nat m * 10 powi (x - 16)), rest)"
proof -
  define ds where "ds = show_nat m"
  have ds: "length ds = 17" "hd ds \<noteq> CHR ''0''" "list_all isdigit ds" "read_digits 0 ds = m"
    using digits17 [of m] decimal17_ok(1,2) [OF assms(1,2)]
    by (simp_all add: ds_def show_nat_digits read_digits_show_nat)
  have u: "unsigned_17g q =
      (if 0 \<le> x \<and> x < 17 then take (nat x + 1) ds @ fraction (drop (nat x + 1) ds)
       else if - 4 \<le> x \<and> x < 0 then ''0.'' @ replicate (nat (- x) - 1) CHR ''0'' @ strip_zeros ds
       else take 1 ds @ fraction (drop 1 ds) @ exponent_text x)"
    using assms(1,2) by (simp add: unsigned_17g_def ds_def Let_def)
  have split: "strtod_body (take n ds @ fraction (drop n ds) @ exponent_opt e @ rest) =
      Some (Fin (of_nat m * 10 powi (case_option 0 id e + int n - 17)), rest)" if n: "0 < n" "n \<le> 17" for n e
  proof -
    have d: "list_all isdigit (take n ds)" "list_all isdigit (drop n ds)" "take n ds \<noteq> []"
      using ds(1,3) n by (auto simp: list_all_iff dest: in_set_takeD in_set_dropD)
    obtain fs k where fs: "fraction (drop n ds) = (if fs = [] then [] else CHR ''.'' # fs)" "list_all isdigit fs"
      "length (drop n ds) = length fs + k" "\<forall>acc. read_digits acc (drop n ds) = read_digits acc fs * 10 ^ k"
      using fraction_split [OF d(2)] .
    have "m = read_digits 0 (take n ds @ drop n ds)"
      by (simp add: ds)
    also have "\<dots> = read_digits 0 (take n ds @ fs) * 10 ^ k"
      using d by (simp only: read_digits_append fs(4) [rule_format])
    finally have "of_nat m * 10 powi (case_option 0 id e + int n - 17) =
        (of_nat (read_digits 0 (take n ds @ fs)) * 10 powi (case_option 0 id e - int (length fs)) :: rat)"
      by (rule scale10) (use fs(3) ds(1) n in simp)
    then show ?thesis
      using strtod_body_decimal [OF d(1,3) fs(2) assms(3), of e] fs(1) by simp
  qed
  consider "0 \<le> x \<and> x < 17" | "- 4 \<le> x \<and> x < 0" | "\<not> (0 \<le> x \<and> x < 17)" "\<not> (- 4 \<le> x \<and> x < 0)"
    by blast
  then show ?thesis
  proof cases
    case 1
    then show ?thesis
      using split [of "nat x + 1" None] u by (auto simp: exponent_opt_def nat_le_iff)
  next
    case 2
    obtain k where k: "ds = strip_zeros ds @ replicate k CHR ''0''" "length ds = length (strip_zeros ds) + k"
      using strip_zeros_split by blast
    define fs where "fs = replicate (nat (- x) - 1) CHR ''0'' @ strip_zeros ds"
    have ne: "strip_zeros ds \<noteq> []"
      using k ds(1,2) by (cases k) auto
    have z: "isdigit CHR ''0''" "digit_val CHR ''0'' = 0"
      by (simp_all add: isdigit_def digit_val_def code_def)
    have "list_all isdigit (replicate (nat (- x) - 1) CHR ''0'')"
      using z by (simp add: list_all_iff)
    then have "list_all isdigit fs" "read_digits 0 (''0'' @ fs) = read_digits 0 (strip_zeros ds)"
      using z ds(3) by (simp_all add: fs_def read_digits_append strip_zeros_digits)
    moreover have "m = read_digits 0 (strip_zeros ds) * 10 ^ k"
      using ds(3,4) by (subst (asm) (2) k(1)) (simp add: read_digits_append strip_zeros_digits)
    then have "of_nat m * 10 powi (x - 16) = (of_nat (read_digits 0 (strip_zeros ds)) * 10 powi (- int (length fs)) :: rat)"
      by (rule scale10) (use 2 k(2) ds(1) in \<open>simp add: fs_def, linarith\<close>)
    ultimately show ?thesis
      using strtod_body_decimal [of "''0''" fs rest None] assms(3) 2 u ne z
      by (simp add: exponent_opt_def fs_def)
  next
    case 3
    then show ?thesis
      using split [of 1 "Some x"] u by (auto simp: exponent_opt_def)
  qed
qed

text \<open>The characters that are printed, and how many\<close>

definition number_char :: "char \<Rightarrow> bool" where
  "number_char c \<longleftrightarrow> isdigit c \<or> c \<in> set ''.e+-''"

lemma number_charD: "number_char c \<Longrightarrow> c \<noteq> NUL \<and> c \<noteq> CHR ''x'' \<and> c \<noteq> CHR ''X''"
  unfolding number_char_def by (elim disjE) (auto simp: isdigit_def code_def)

lemma digits_number: "list_all isdigit ds \<Longrightarrow> list_all number_char ds"
  by (auto simp: list_all_iff number_char_def)

lemma length_strip_zeros: "length (strip_zeros ds) \<le> length ds"
  using length_dropWhile_le [of _ "rev ds"] by (simp add: strip_zeros_def)

lemma fraction_number:
  assumes "list_all isdigit ds"
  shows "list_all number_char (fraction ds)" "length (fraction ds) \<le> Suc (length ds)"
    "fraction ds = [] \<or> hd (fraction ds) = CHR ''.''"
  using digits_number [OF strip_zeros_digits [OF assms]] length_strip_zeros [of ds]
  by (auto simp: fraction_def Let_def number_char_def)

lemma exponent_number:
  "list_all number_char (exponent_text x)" "\<bar>x\<bar> < 1000 \<Longrightarrow> length (exponent_text x) \<le> 5"
  using digits_number [OF show_nat_digits, of "nat \<bar>x\<bar>"] length_show_nat_pow [of "nat \<bar>x\<bar>" 3]
    length_show_nat_pow [of "nat \<bar>x\<bar>" 1]
  by (auto simp: exponent_text_def number_char_def isdigit_def code_def nat_less_iff)

lemma unsigned_17g_shape:
  assumes "0 \<le> q"
  obtains c s where "unsigned_17g q = c # s" "isdigit c" "list_all number_char (c # s)"
    "c = CHR ''0'' \<Longrightarrow> s = [] \<or> hd s = CHR ''.''"
    "0 < q \<Longrightarrow> \<bar>snd (decimal17 q)\<bar> < 1000 \<Longrightarrow> length s \<le> 22"
proof (cases "q = 0")
  case True
  then show thesis
    using that [of "CHR ''0''" "[]"] by (simp add: unsigned_17g_def number_char_def isdigit_def code_def)
next
  case False
  then have q: "0 < q" using assms by simp
  obtain m x where mx: "decimal17 q = (m, x)" by (cases "decimal17 q")
  define ds where "ds = show_nat m"
  have ds: "length ds = 17" "hd ds \<noteq> CHR ''0''" "list_all isdigit ds"
    using digits17 [of m] decimal17_ok(1,2) [OF q mx] by (simp_all add: ds_def show_nat_digits)
  then obtain d es where d: "ds = d # es" "isdigit d" "list_all isdigit es" "d \<noteq> CHR ''0''" "length es = 16"
    by (cases ds) auto
  then have ddig: "list_all isdigit (take n es)" "list_all isdigit (drop n es)" for n
    by (auto simp: list_all_iff dest: in_set_takeD in_set_dropD)
  note num = digits_number fraction_number(1) exponent_number(1)
  have nd: "number_char d" using d by (simp add: number_char_def)
  consider "0 \<le> x \<and> x < 17" | "- 4 \<le> x \<and> x < 0" | "\<not> (0 \<le> x \<and> x < 17)" "\<not> (- 4 \<le> x \<and> x < 0)"
    by blast
  then show thesis
  proof cases
    case 1
    let ?n = "nat x"
    have "unsigned_17g q = d # take ?n es @ fraction (drop ?n es)"
      using 1 q mx d by (simp add: unsigned_17g_def flip: ds_def)
    moreover have "list_all number_char (take ?n es @ fraction (drop ?n es))"
      using num(1) [OF ddig(1)] num(2) [OF ddig(2)] by simp
    moreover have "length (take ?n es @ fraction (drop ?n es)) \<le> 22"
      using fraction_number(2) [OF ddig(2), of ?n] d(5) by simp
    ultimately show thesis
      using that d nd by simp
  next
    case 2
    let ?s = "CHR ''.'' # replicate (nat (- x) - 1) CHR ''0'' @ strip_zeros ds"
    have "unsigned_17g q = CHR ''0'' # ?s"
      using 2 q mx by (simp add: unsigned_17g_def flip: ds_def)
    moreover have "list_all number_char (CHR ''0'' # ?s)" "isdigit CHR ''0''"
      using num(1) [OF strip_zeros_digits [OF ds(3)]]
      by (simp_all add: number_char_def isdigit_def code_def list_all_iff ball_Un)
    moreover have "length ?s \<le> 22"
    proof -
      have "nat (- x) - 1 \<le> 3" using 2 by linarith
      then show ?thesis
        using length_strip_zeros [of ds] ds(1) by simp
    qed
    ultimately show thesis
      using that by simp
  next
    case 3
    have "unsigned_17g q = d # fraction es @ exponent_text x"
      using 3 q mx d by (auto simp: unsigned_17g_def Let_def simp flip: ds_def)
    moreover have "list_all number_char (fraction es @ exponent_text x)"
      using num(2) [OF d(3)] num(3) by simp
    moreover have "length (fraction es @ exponent_text x) \<le> 22" if "\<bar>x\<bar> < 1000"
      using fraction_number(2) [OF d(3)] exponent_number(2) [OF that] d(5) by simp
    ultimately show thesis
      using that d nd mx by simp
  qed
qed

lemma powi10_less: "(10 powi a :: rat) < 10 powi b \<Longrightarrow> a < b"
  using power_int_increasing [of b a "10 :: rat"] by (cases "a < b") simp_all

lemma ilog10_double:
  assumes "is_double q" "0 < q"
  shows "- 325 < ilog10 q" "ilog10 q < 309"
proof -
  obtain z where z: "q = of_int z * 2 powi ulp_exp q" "\<bar>q\<bar> < 2 ^ 1024"
    using is_double_ulp [OF assms(1)] assms(2) by (metis less_irrefl)
  note lq = ilog10_bounds [OF assms(2)]
  have "(10 powi ilog10 q :: rat) < 2 ^ 1024"
    using lq z(2) by linarith
  also have "(2 :: rat) ^ 1024 < 10 powi 309"
    by simp
  finally show "ilog10 q < 309"
    by (rule powi10_less)
  have "0 < z"
  proof -
    have "0 < of_int z * (2 powi ulp_exp q :: rat)"
      using z(1) assms(2) by argo
    then have "0 < (of_int z :: rat)"
      by (rule zero_less_mult_pos2) simp
    then show ?thesis by simp
  qed
  then have "(1 :: rat) \<le> of_int z" by simp
  then have "2 powi ulp_exp q \<le> (of_int z * 2 powi ulp_exp q :: rat)"
    by simp
  moreover have "(2 powi (- 1074) :: rat) \<le> 2 powi ulp_exp q"
    by (intro power_int_increasing) (auto simp: ulp_exp_def)
  moreover have "(10 powi (- 324) :: rat) < 2 powi (- 1074)"
    by (simp add: power_int_minus)
  ultimately have "(10 powi (- 324) :: rat) < 10 powi (ilog10 q + 1)"
    using lq z(1) by simp
  then have "- 324 < ilog10 q + 1"
    by (rule powi10_less)
  then show "- 325 < ilog10 q"
    by simp
qed

lemma sprintf_17g_sign:
  "sprintf_17g q = (if q < 0 then ''-'' else []) @ unsigned_17g \<bar>q\<bar>"
  by (simp add: sprintf_17g_def)

lemma is_double_abs [simp]: "is_double \<bar>q\<bar> \<longleftrightarrow> is_double q"
proof -
  have half: "round_half_even (- x) = - round_half_even x" for x
  proof (cases "\<bar>of_int (round_half_even x) - x\<bar> = 1 / 2")
    case True
    then have "x - of_int \<lfloor>x\<rfloor> = 1 / 2"
      using floor_correct [of x] by (auto simp: round_half_even_def Let_def abs_if split: if_splits)
        (use of_int_floor_le [of x] in linarith)
    then have "x = of_int \<lfloor>x\<rfloor> + 1 / 2" by simp
    then obtain n where n: "\<lfloor>x\<rfloor> = n" "x = of_int n + 1 / 2" by blast
    then have "\<lfloor>- x\<rfloor> = - n - 1"
      by (intro floor_unique) simp_all
    with n show ?thesis
      by (simp add: round_half_even_def Let_def)
  next
    case False
    then have "\<bar>of_int (round_half_even x) - x\<bar> < 1 / 2"
      using round_half_even_error [of x] by simp
    then show ?thesis
      by (intro round_half_even_unique) (simp add: abs_minus_commute)
  qed
  have "is_double (- q) \<longleftrightarrow> is_double q"
    by (cases "q = 0") (auto simp: is_double_def round_double_ulp ulp_exp_def Let_def half)
  then show ?thesis
    by (cases "0 \<le> q") (simp_all add: abs_if)
qed

lemma signed_near: "\<bar>y - \<bar>q\<bar>\<bar> \<le> (e :: rat) \<Longrightarrow> \<bar>(if q < 0 then - y else y) - q\<bar> \<le> e"
  by (cases "q < 0") (auto simp: abs_le_iff)

lemma strtod_sprintf_17g:
  assumes "is_double q" "number_end rest"
  shows "\<exists>b. strtod (sprintf_17g q @ rest) = \<lparr>sd_value = Fin q, sd_rest = rest, sd_erange = b\<rparr>"
proof -
  obtain c s where cs: "unsigned_17g \<bar>q\<bar> = c # s" "isdigit c"
    by (rule unsigned_17g_shape [of "\<bar>q\<bar>"]) simp_all
  obtain y where y: "strtod_body (unsigned_17g \<bar>q\<bar> @ rest) = Some (Fin y, rest)"
    "round_double (if q < 0 then - y else y) = Fin q"
  proof (cases "q = 0")
    case True
    then have "strtod_body (unsigned_17g \<bar>q\<bar> @ rest) = Some (Fin 0, rest)"
      using strtod_body_digits [of "''0''" rest] assms(2)
      by (simp add: unsigned_17g_def isdigit_def digit_val_def code_def)
    with True that show thesis
      by (simp add: round_double_def)
  next
    case False
    obtain m x where mx: "decimal17 \<bar>q\<bar> = (m, x)" by (cases "decimal17 \<bar>q\<bar>")
    let ?y = "of_nat m * 10 powi (x - 16) :: rat"
    have "\<bar>?y - \<bar>q\<bar>\<bar> \<le> \<bar>q\<bar> / (2 * 10 ^ 16)"
      using decimal17_ok(3) [OF _ mx] False by simp
    then have "\<bar>(if q < 0 then - ?y else ?y) - q\<bar> \<le> \<bar>q\<bar> / (2 * 10 ^ 16)"
      by (rule signed_near)
    then have "round_double (if q < 0 then - ?y else ?y) = Fin q"
      by (rule round_double_near [OF assms(1) False])
    moreover have "strtod_body (unsigned_17g \<bar>q\<bar> @ rest) = Some (Fin ?y, rest)"
      using strtod_body_17g [OF _ mx assms(2)] False by simp
    ultimately show thesis
      using that by blast
  qed
  have "\<not> isspace c" "c \<noteq> CHR ''-''" "c \<noteq> CHR ''+''"
    using isdigit_no_sign [OF cs(2)] by auto
  then show ?thesis
    using y cs by (cases "q < 0") (simp_all add: strtod_def sprintf_17g_sign isspace_def)
qed

lemma sprintf_17g_shape:
  obtains c s where "sprintf_17g q = (if q < 0 then ''-'' else []) @ c # s" "isdigit c"
    "list_all number_char (sprintf_17g q)" "c = CHR ''0'' \<Longrightarrow> s = [] \<or> hd s = CHR ''.''"
    "is_double q \<Longrightarrow> length (sprintf_17g q) \<le> 24"
proof -
  obtain c s where cs: "unsigned_17g \<bar>q\<bar> = c # s" "isdigit c" "list_all number_char (c # s)"
    "c = CHR ''0'' \<Longrightarrow> s = [] \<or> hd s = CHR ''.''"
    "0 < \<bar>q\<bar> \<Longrightarrow> \<bar>snd (decimal17 \<bar>q\<bar>)\<bar> < 1000 \<Longrightarrow> length s \<le> 22"
    by (rule unsigned_17g_shape [OF abs_ge_zero [of q]]) blast
  have "length s \<le> 22" if "is_double q"
  proof (cases "q = 0")
    case True
    with cs(1) show ?thesis by (simp add: unsigned_17g_def)
  next
    case False
    obtain m x where mx: "decimal17 \<bar>q\<bar> = (m, x)" by (cases "decimal17 \<bar>q\<bar>")
    have "\<bar>x\<bar> < 1000"
      using decimal17_ok(4,5) [OF _ mx] ilog10_double [of "\<bar>q\<bar>"] False that by auto
    with cs(5) False mx show ?thesis by simp
  qed
  then have "is_double q \<Longrightarrow> length (sprintf_17g q) \<le> 24"
    using cs(1) by (simp add: sprintf_17g_sign)
  with cs show thesis
    by (intro that [of c s]) (simp_all add: sprintf_17g_sign number_char_def)
qed

end
