(* ===== verification/Parson_Serialize.thy ===== *)
theory Parson_Serialize
  imports Parson_Parse C_Printf
begin

text \<open>
  The serializer of \<^verbatim>\<open>parson.c\<close>. \<^verbatim>\<open>json_serialize_to_buffer_r\<close> runs twice: without a buffer to count the bytes, then
  into a buffer of that size. A buffer is its bytes and the position of the moving \<^verbatim>\<open>buf\<close>; \<open>None\<close> is the null pointer.

  A call ends with \<open>SUndef\<close> (a byte is written behind the end of its array, or the \<^verbatim>\<open>int\<close> that counts the bytes overflows), with \<open>SFail\<close> (it returns \<^verbatim>\<open>-1\<close>)
  or with \<open>SDone\<close>: the bytes counted and the buffer. The global settings are the record \<open>serial_conf\<close>; what a callback of the application and a format other than
  the default print are parameters in it.

  The reference is \<open>print_json\<close>, a function on plain JSON documents. The serializer without a buffer counts its characters, and
  with a large enough buffer it writes them and a terminator and nothing else.
\<close>

section \<open>Settings\<close>

text \<open>
  \<open>number_function\<close> gives the value a callback returns and the bytes it writes; \<open>user_format\<close> is what \<^verbatim>\<open>vsprintf\<close> prints with a format
  of the application.
\<close>

record serial_conf =
  escape_slashes :: int
  float_format :: "string option"
  number_function :: "(rat \<Rightarrow> int \<times> string) option"
  user_format :: "string \<Rightarrow> rat \<Rightarrow> string"

definition PARSON_DEFAULT_FLOAT_FORMAT :: string where
  "PARSON_DEFAULT_FLOAT_FORMAT = ''%1.17g''"

definition PARSON_NUM_BUF_SIZE :: nat where
  "PARSON_NUM_BUF_SIZE = 64"

definition PARSON_INDENT_STR :: string where
  "PARSON_INDENT_STR = ''    ''"

definition json_set_escape_slashes :: "int \<Rightarrow> serial_conf \<Rightarrow> serial_conf" where
  "json_set_escape_slashes b cf = cf\<lparr>escape_slashes := b\<rparr>"

definition json_set_float_serialization_format :: "string option \<Rightarrow> serial_conf \<Rightarrow> serial_conf" where
  "json_set_float_serialization_format format cf = cf\<lparr>float_format := map_option cstr format\<rparr>"

definition json_set_number_serialization_function :: "(rat \<Rightarrow> int \<times> string) option \<Rightarrow> serial_conf \<Rightarrow> serial_conf" where
  "json_set_number_serialization_function func cf = cf\<lparr>number_function := func\<rparr>"

definition parson_sprintf :: "serial_conf \<Rightarrow> string \<Rightarrow> rat \<Rightarrow> string" where
  "parson_sprintf cf format num =
     (if format = PARSON_DEFAULT_FLOAT_FORMAT then sprintf_17g num else user_format cf format num)"

section \<open>Writing to the buffer\<close>

type_synonym serial_buf = "(string \<times> nat) option"

datatype 'a serial = SUndef | SFail | SDone 'a

fun sbind :: "'a serial \<Rightarrow> ('a \<Rightarrow> 'b serial) \<Rightarrow> 'b serial" where
  "sbind (SDone x) f = f x"
| "sbind SUndef f = SUndef"
| "sbind SFail f = SFail"

text \<open>\<^verbatim>\<open>memcpy\<close> to the moving pointer\<close>

definition store :: "string \<Rightarrow> string \<times> nat \<Rightarrow> (string \<times> nat) serial" where
  "store bytes b =
     (case b of (m, p) \<Rightarrow>
        if p + length bytes \<le> length m then SDone (take p m @ bytes @ drop (p + length bytes) m, p) else SUndef)"

text \<open>\<open>advance w (cnt, buf)\<close>: \<^verbatim>\<open>buf += w; written_total += w\<close>, the first only if there is a buffer\<close>

definition advance :: "int \<Rightarrow> int \<times> serial_buf \<Rightarrow> (int \<times> serial_buf) serial" where
  "advance w st =
     (case st of (cnt, buf) \<Rightarrow>
        if cnt + w \<ge> 2 ^ 31 then SUndef
        else SDone (cnt + w, map_option (\<lambda>(m, p). (m, p + nat w)) buf))"

definition APPEND_STRING :: "string \<Rightarrow> int \<times> serial_buf \<Rightarrow> (int \<times> serial_buf) serial" where
  "APPEND_STRING str st =
     (case st of
        (cnt, None) \<Rightarrow> advance (int (length str)) st
      | (cnt, Some b) \<Rightarrow> sbind (store (str @ [NUL]) b) (\<lambda>b'. advance (int (length str)) (cnt, Some b')))"

fun APPEND_INDENT :: "nat \<Rightarrow> int \<times> serial_buf \<Rightarrow> (int \<times> serial_buf) serial" where
  "APPEND_INDENT 0 st = SDone st"
| "APPEND_INDENT (Suc n) st = sbind (APPEND_STRING PARSON_INDENT_STR st) (APPEND_INDENT n)"

definition append_if :: "bool \<Rightarrow> string \<Rightarrow> int \<times> serial_buf \<Rightarrow> (int \<times> serial_buf) serial" where
  "append_if c str st = (if c then APPEND_STRING str st else SDone st)"

definition indent_if :: "bool \<Rightarrow> nat \<Rightarrow> int \<times> serial_buf \<Rightarrow> (int \<times> serial_buf) serial" where
  "indent_if c n st = (if c then APPEND_INDENT n st else SDone st)"

text \<open>
  A call that returns what it has written: it starts its own count at the current position, and the caller adds the result. The copy of \<^verbatim>\<open>buf\<close> that the
  callee has moved is given up; the bytes stay.
\<close>

definition subcall ::
  "(int \<times> serial_buf \<Rightarrow> (int \<times> serial_buf) serial) \<Rightarrow> int \<times> serial_buf \<Rightarrow> (int \<times> serial_buf) serial" where
  "subcall f st =
     (case st of (cnt, buf) \<Rightarrow>
        sbind (f (0, buf)) (\<lambda>(written, buf').
          advance written (cnt, case (buf, buf') of (Some (m, p), Some (m', p')) \<Rightarrow> Some (m', p) | _ \<Rightarrow> buf)))"

section \<open>Strings and numbers\<close>

definition hex_digit :: "nat \<Rightarrow> char" where
  "hex_digit n = char_of (if n < 10 then 48 + n else 87 + n)"

text \<open>The token of one character, as the \<^verbatim>\<open>switch\<close> chooses it; \<open>None\<close> is its default\<close>

definition escape_token :: "serial_conf \<Rightarrow> char \<Rightarrow> string option" where
  "escape_token cf c =
     (if c = QUOT then Some [BSLASH, QUOT]
      else if c = BSLASH then Some [BSLASH, BSLASH]
      else if c = BS then Some [BSLASH, CHR ''b'']
      else if c = FF then Some [BSLASH, CHR ''f'']
      else if c = LF then Some [BSLASH, CHR ''n'']
      else if c = CR then Some [BSLASH, CHR ''r'']
      else if c = TAB then Some [BSLASH, CHR ''t'']
      else if code c < 32 then Some ([BSLASH] @ ''u00'' @ [hex_digit (code c div 16), hex_digit (code c mod 16)])
      else if c = CHR ''/'' then Some (if escape_slashes cf \<noteq> 0 then [BSLASH, CHR ''/''] else ''/'')
      else None)"

fun serialize_chars :: "serial_conf \<Rightarrow> string \<Rightarrow> int \<times> serial_buf \<Rightarrow> (int \<times> serial_buf) serial" where
  "serialize_chars cf [] st = SDone st"
| "serialize_chars cf (c # s) st =
     sbind (case escape_token cf c of
              Some str \<Rightarrow> APPEND_STRING str st
            | None \<Rightarrow>
                (case st of
                   (cnt, None) \<Rightarrow> advance 1 st
                 | (cnt, Some b) \<Rightarrow> sbind (store [c] b) (\<lambda>b'. advance 1 (cnt, Some b'))))
       (serialize_chars cf s)"

definition json_serialize_string :: "serial_conf \<Rightarrow> string \<Rightarrow> int \<times> serial_buf \<Rightarrow> (int \<times> serial_buf) serial" where
  "json_serialize_string cf string st =
     sbind (APPEND_STRING [QUOT] st) (\<lambda>st1. sbind (serialize_chars cf string st1) (APPEND_STRING [QUOT]))"

text \<open>The value the printing of a number returns and the bytes it stores\<close>

definition number_bytes :: "serial_conf \<Rightarrow> rat \<Rightarrow> int \<times> string" where
  "number_bytes cf num =
     (case number_function cf of
        Some f \<Rightarrow> f num
      | None \<Rightarrow>
          let format = (case float_format cf of Some t \<Rightarrow> t | None \<Rightarrow> PARSON_DEFAULT_FLOAT_FORMAT);
              s = parson_sprintf cf format num
          in (int (length s), s @ [NUL]))"

text \<open>Without a buffer the number is printed into an array of \<open>PARSON_NUM_BUF_SIZE\<close> bytes.\<close>

definition serialize_number :: "serial_conf \<Rightarrow> rat \<Rightarrow> int \<times> serial_buf \<Rightarrow> (int \<times> serial_buf) serial" where
  "serialize_number cf num st =
     (let (written, bytes) = number_bytes cf num in
      case st of
        (cnt, None) \<Rightarrow>
          if length bytes > PARSON_NUM_BUF_SIZE then SUndef
          else if written < 0 then SFail else advance written st
      | (cnt, Some b) \<Rightarrow>
          sbind (store bytes b) (\<lambda>b'. if written < 0 then SFail else advance written (cnt, Some b')))"

section \<open>Values\<close>

text \<open>\<open>i < length (vals ob)\<close> fails only for an object whose arrays are shorter than its count.\<close>

function json_serialize_to_buffer_r ::
  "serial_conf \<Rightarrow> json_value option \<Rightarrow> nat \<Rightarrow> bool \<Rightarrow> int \<times> serial_buf \<Rightarrow> (int \<times> serial_buf) serial"
and serialize_elements :: "serial_conf \<Rightarrow> json_value json_array \<Rightarrow> nat \<Rightarrow> nat \<Rightarrow> bool \<Rightarrow> int \<times> serial_buf \<Rightarrow> (int \<times> serial_buf) serial"
and serialize_members :: "serial_conf \<Rightarrow> json_value json_object \<Rightarrow> nat \<Rightarrow> nat \<Rightarrow> bool \<Rightarrow> int \<times> serial_buf \<Rightarrow> (int \<times> serial_buf) serial" where
  "json_serialize_to_buffer_r cf None level pretty st = SFail"
| "json_serialize_to_buffer_r cf (Some (VArray a)) level pretty st =
     sbind (APPEND_STRING ''['' st) (\<lambda>st1.
     sbind (append_if (json_array_get_count (Some a) > 0 \<and> pretty) [LF] st1) (\<lambda>st2.
     sbind (serialize_elements cf a 0 level pretty st2) (\<lambda>st3.
     sbind (indent_if (json_array_get_count (Some a) > 0 \<and> pretty) level st3) (APPEND_STRING '']''))))"
| "json_serialize_to_buffer_r cf (Some (VObject ob)) level pretty st =
     sbind (APPEND_STRING ''{'' st) (\<lambda>st1.
     sbind (append_if (json_object_get_count (Some ob) > 0 \<and> pretty) [LF] st1) (\<lambda>st2.
     sbind (serialize_members cf ob 0 level pretty st2) (\<lambda>st3.
     sbind (indent_if (json_object_get_count (Some ob) > 0 \<and> pretty) level st3) (APPEND_STRING ''}''))))"
| "json_serialize_to_buffer_r cf (Some (VString s)) level pretty st = subcall (json_serialize_string cf s) st"
| "json_serialize_to_buffer_r cf (Some (VBoolean b)) level pretty st = APPEND_STRING (if b then ''true'' else ''false'') st"
| "json_serialize_to_buffer_r cf (Some (VNumber q)) level pretty st = serialize_number cf q st"
| "json_serialize_to_buffer_r cf (Some VNull) level pretty st = APPEND_STRING ''null'' st"
| "serialize_elements cf a i level pretty st =
     (if i < json_array_get_count (Some a) then
        sbind (indent_if pretty (level + 1) st) (\<lambda>st1.
        sbind (subcall (json_serialize_to_buffer_r cf (json_array_get_value (Some a) i) (level + 1) pretty) st1) (\<lambda>st2.
        sbind (append_if (i < json_array_get_count (Some a) - 1) '','' st2) (\<lambda>st3.
        sbind (append_if pretty [LF] st3) (serialize_elements cf a (i + 1) level pretty))))
      else SDone st)"
| "serialize_members cf ob i level pretty st =
     (if i < json_object_get_count (Some ob) then
        if i < length (names ob) \<and> i < length (vals ob) then
          (case json_object_get_name (Some ob) i of
             None \<Rightarrow> SFail
           | Some key \<Rightarrow>
               sbind (indent_if pretty (level + 1) st) (\<lambda>st1.
               sbind (subcall (json_serialize_string cf (cstr key)) st1) (\<lambda>st2.
               sbind (APPEND_STRING '':'' st2) (\<lambda>st3.
               sbind (append_if pretty '' '' st3) (\<lambda>st4.
               sbind (subcall (json_serialize_to_buffer_r cf (json_object_get_value_at (Some ob) i) (level + 1) pretty) st4) (\<lambda>st5.
               sbind (append_if (i < json_object_get_count (Some ob) - 1) '','' st5) (\<lambda>st6.
               sbind (append_if pretty [LF] st6) (serialize_members cf ob (i + 1) level pretty))))))))
        else SUndef
      else SDone st)"
  by pat_completeness auto

termination
proof (relation "measures [\<lambda>x. case x of
      Inl (cf, v, r) \<Rightarrow> (case v of None \<Rightarrow> 0 | Some w \<Rightarrow> size w)
    | Inr (Inl (cf, a, r)) \<Rightarrow> size (VArray a)
    | Inr (Inr (cf, ob, r)) \<Rightarrow> size (VObject ob),
    \<lambda>x. case x of
      Inl _ \<Rightarrow> 1 + (case x of Inl (cf, v, r) \<Rightarrow>
        (case v of Some (VArray a) \<Rightarrow> length (arr_items a) + 1 | Some (VObject ob) \<Rightarrow> count ob + 1 | _ \<Rightarrow> 0) | _ \<Rightarrow> 0)
    | Inr (Inl (cf, a, i, r)) \<Rightarrow> length (arr_items a) - i
    | Inr (Inr (cf, ob, i, r)) \<Rightarrow> count ob - i]", goal_cases)
  case 1
  then show ?case by simp
qed (auto simp: json_array_get_count_def json_array_get_value_def json_object_get_count_def json_object_get_value_at_def
      intro: size_items size_vals simp del: json_value.size)

declare json_serialize_to_buffer_r.simps [simp del] serialize_elements.simps [simp del] serialize_members.simps [simp del]

section \<open>The interface\<close>

text \<open>\<open>pretty\<close> tells \<^verbatim>\<open>json_serialization_size_pretty\<close> and its relatives from those without the suffix.\<close>

definition serialization_size :: "serial_conf \<Rightarrow> bool \<Rightarrow> json_value option \<Rightarrow> nat serial" where
  "serialization_size cf pretty value =
     (case json_serialize_to_buffer_r cf value 0 pretty (0, None) of
        SUndef \<Rightarrow> SUndef
      | SFail \<Rightarrow> SDone 0
      | SDone (res, _) \<Rightarrow> SDone (if res < 0 then 0 else nat res + 1))"

text \<open>The status and the bytes of the buffer. The second pass cannot fail after the first one did not.\<close>

definition serialize_to_buffer ::
  "serial_conf \<Rightarrow> bool \<Rightarrow> json_value option \<Rightarrow> string \<Rightarrow> nat \<Rightarrow> (json_status \<times> string) serial" where
  "serialize_to_buffer cf pretty value buf buf_size_in_bytes =
     sbind (serialization_size cf pretty value) (\<lambda>needed_size_in_bytes.
       if needed_size_in_bytes = 0 \<or> buf_size_in_bytes < needed_size_in_bytes then SDone (JSONFailure, buf)
       else (case json_serialize_to_buffer_r cf value 0 pretty (0, Some (buf, 0)) of
               SUndef \<Rightarrow> SUndef
             | SFail \<Rightarrow> SDone (JSONFailure, buf)
             | SDone (written, b) \<Rightarrow>
                 SDone (if written < 0 then JSONFailure else JSONSuccess, case b of Some (m, p) \<Rightarrow> m | None \<Rightarrow> buf)))"

text \<open>\<open>junk\<close> is what a fresh allocation holds.\<close>

definition serialize_to_string :: "serial_conf \<Rightarrow> (nat \<Rightarrow> char) \<Rightarrow> bool \<Rightarrow> json_value option \<Rightarrow> string option serial" where
  "serialize_to_string cf junk pretty value =
     sbind (serialization_size cf pretty value) (\<lambda>buf_size_bytes.
       if buf_size_bytes = 0 then SDone None
       else sbind (serialize_to_buffer cf pretty value (map junk [0..<buf_size_bytes]) buf_size_bytes)
              (\<lambda>(status, buf). SDone (if status = JSONSuccess then Some buf else None)))"

definition json_serialization_size :: "serial_conf \<Rightarrow> json_value option \<Rightarrow> nat serial" where
  "json_serialization_size cf = serialization_size cf False"

definition json_serialize_to_buffer :: "serial_conf \<Rightarrow> json_value option \<Rightarrow> string \<Rightarrow> nat \<Rightarrow> (json_status \<times> string) serial" where
  "json_serialize_to_buffer cf = serialize_to_buffer cf False"

definition json_serialize_to_string :: "serial_conf \<Rightarrow> (nat \<Rightarrow> char) \<Rightarrow> json_value option \<Rightarrow> string option serial" where
  "json_serialize_to_string cf junk = serialize_to_string cf junk False"

definition json_serialization_size_pretty :: "serial_conf \<Rightarrow> json_value option \<Rightarrow> nat serial" where
  "json_serialization_size_pretty cf = serialization_size cf True"

definition json_serialize_to_buffer_pretty :: "serial_conf \<Rightarrow> json_value option \<Rightarrow> string \<Rightarrow> nat \<Rightarrow> (json_status \<times> string) serial" where
  "json_serialize_to_buffer_pretty cf = serialize_to_buffer cf True"

definition json_serialize_to_string_pretty :: "serial_conf \<Rightarrow> (nat \<Rightarrow> char) \<Rightarrow> json_value option \<Rightarrow> string option serial" where
  "json_serialize_to_string_pretty cf junk = serialize_to_string cf junk True"

section \<open>The reference printer\<close>

lemma size_json_member [termination_simp]: "(k, j) \<in> set ms \<Longrightarrow> size j < Suc (size_list (size_prod (\<lambda>_. 0) size) ms)"
  by (induction ms) auto

definition print_char :: "serial_conf \<Rightarrow> char \<Rightarrow> string" where
  "print_char cf c = (case escape_token cf c of Some str \<Rightarrow> str | None \<Rightarrow> [c])"

definition print_string :: "serial_conf \<Rightarrow> string \<Rightarrow> string" where
  "print_string cf s = [QUOT] @ concat (map (print_char cf) s) @ [QUOT]"

definition print_number :: "serial_conf \<Rightarrow> rat \<Rightarrow> string" where
  "print_number cf q = (case number_bytes cf q of (w, bytes) \<Rightarrow> take (nat w) bytes)"

text \<open>A printer of numbers that terminates its text and reports its length, as the interface demands\<close>

definition number_ok :: "serial_conf \<Rightarrow> rat \<Rightarrow> bool" where
  "number_ok cf q \<longleftrightarrow> number_bytes cf q = (int (length (print_number cf q)), print_number cf q @ [NUL]) \<and>
     length (print_number cf q) < PARSON_NUM_BUF_SIZE"

definition indentation :: "nat \<Rightarrow> string" where
  "indentation n = concat (replicate n PARSON_INDENT_STR)"

fun seq_body :: "bool \<Rightarrow> nat \<Rightarrow> string list \<Rightarrow> string" where
  "seq_body pretty level [] = []"
| "seq_body pretty level (t # ts) =
     (if pretty then indentation (level + 1) else []) @ t @ (if ts \<noteq> [] then '','' else [])
       @ (if pretty then [LF] else []) @ seq_body pretty level ts"

definition print_seq :: "bool \<Rightarrow> nat \<Rightarrow> char \<Rightarrow> char \<Rightarrow> string list \<Rightarrow> string" where
  "print_seq pretty level opening closing ts =
     [opening] @ (if ts \<noteq> [] \<and> pretty then [LF] else []) @ seq_body pretty level ts
       @ (if ts \<noteq> [] \<and> pretty then indentation level else []) @ [closing]"

definition print_member :: "serial_conf \<Rightarrow> bool \<Rightarrow> string \<Rightarrow> string \<Rightarrow> string" where
  "print_member cf pretty k t = print_string cf k @ '':'' @ (if pretty then '' '' else []) @ t"

fun print_json :: "serial_conf \<Rightarrow> bool \<Rightarrow> nat \<Rightarrow> json \<Rightarrow> string" where
  "print_json cf pretty level JNull = ''null''"
| "print_json cf pretty level (JBoolean b) = (if b then ''true'' else ''false'')"
| "print_json cf pretty level (JNumber q) = print_number cf q"
| "print_json cf pretty level (JString s) = print_string cf s"
| "print_json cf pretty level (JArray js) =
     print_seq pretty level (CHR ''['') (CHR '']'') (map (print_json cf pretty (level + 1)) js)"
| "print_json cf pretty level (JObject ms) =
     print_seq pretty level (CHR ''{'') (CHR ''}'')
       (map (\<lambda>(k, j). print_member cf pretty k (print_json cf pretty (level + 1) j)) ms)"

fun json_all :: "(rat \<Rightarrow> bool) \<Rightarrow> json \<Rightarrow> bool" where
  "json_all P (JNumber q) = P q"
| "json_all P (JArray js) = (\<forall>j \<in> set js. json_all P j)"
| "json_all P (JObject ms) = (\<forall>(k, j) \<in> set ms. json_all P j)"
| "json_all P JNull = True"
| "json_all P (JBoolean b) = True"
| "json_all P (JString s) = True"

section \<open>What an action writes\<close>

text \<open>
  \<open>writes z f t\<close>: with room for the text \<open>t\<close> and a terminator, \<open>f\<close> appends \<open>t\<close> to the buffer, counts it, and changes nothing but these
  bytes and the one behind them; with \<open>z\<close> that one is a terminator.
\<close>

definition appended :: "bool \<Rightarrow> string \<Rightarrow> nat \<Rightarrow> string \<Rightarrow> string \<Rightarrow> bool" where
  "appended z m p t m' \<longleftrightarrow> length m' = length m \<and> take (p + length t) m' = take p m @ t \<and>
     drop (p + length t + 1) m' = drop (p + length t + 1) m \<and> (z \<longrightarrow> m' ! (p + length t) = NUL)"

definition writes :: "bool \<Rightarrow> (int \<times> serial_buf \<Rightarrow> (int \<times> serial_buf) serial) \<Rightarrow> string \<Rightarrow> bool" where
  "writes z f t \<longleftrightarrow> (\<forall>n. 0 \<le> n \<longrightarrow> n + int (length t) < 2 ^ 31 \<longrightarrow>
     f (n, None) = SDone (n + int (length t), None) \<and>
     (\<forall>m p. p + length t < length m \<longrightarrow>
        (\<exists>m'. f (n, Some (m, p)) = SDone (n + int (length t), Some (m', p + length t)) \<and> appended z m p t m')))"

lemma writesI:
  assumes "\<And>n. 0 \<le> n \<Longrightarrow> n + int (length t) < 2 ^ 31 \<Longrightarrow> f (n, None) = SDone (n + int (length t), None)"
    and "\<And>n m p. 0 \<le> n \<Longrightarrow> n + int (length t) < 2 ^ 31 \<Longrightarrow> p + length t < length m \<Longrightarrow>
      \<exists>m'. f (n, Some (m, p)) = SDone (n + int (length t), Some (m', p + length t)) \<and> appended z m p t m'"
  shows "writes z f t"
  using assms unfolding writes_def by blast

lemma writesD1: "writes z f t \<Longrightarrow> 0 \<le> n \<Longrightarrow> n + int (length t) < 2 ^ 31 \<Longrightarrow> f (n, None) = SDone (n + int (length t), None)"
  unfolding writes_def by blast

lemma writesD2:
  assumes "writes z f t" "0 \<le> n" "n + int (length t) < 2 ^ 31" "p + length t < length m"
  obtains m' where "f (n, Some (m, p)) = SDone (n + int (length t), Some (m', p + length t))" "appended z m p t m'"
  using assms unfolding writes_def by blast

lemma appended_trans:
  assumes 1: "appended y m p t m1" and 2: "appended z m1 (p + length t) u m2"
  shows "appended z m p (t @ u) m2"
proof -
  have "drop (p + length t + length u + 1) m1 = drop (length u) (drop (p + length t + 1) m1)"
    by (simp add: ac_simps)
  also have "\<dots> = drop (p + length t + length u + 1) m"
    using 1 by (simp add: appended_def ac_simps)
  finally show ?thesis
    using 1 2 by (simp add: appended_def ac_simps)
qed

lemma appended_weaken: "appended z m p t m' \<Longrightarrow> appended False m p t m'"
  by (simp add: appended_def)

lemma writes_weaken: "writes z f t \<Longrightarrow> writes False f t"
  unfolding writes_def using appended_weaken by blast

lemma writes_bind:
  assumes f: "writes y f t" and g: "writes z g u"
  shows "writes z (\<lambda>st. sbind (f st) g) (t @ u)"
proof (rule writesI)
  fix n assume "0 \<le> n" "n + int (length (t @ u)) < 2 ^ 31"
  then show "sbind (f (n, None)) g = SDone (n + int (length (t @ u)), None)"
    using writesD1 [OF f, of n] writesD1 [OF g, of "n + int (length t)"] by simp
next
  fix n and m :: string and p
  assume n: "0 \<le> n" "n + int (length (t @ u)) < 2 ^ 31" "p + length (t @ u) < length m"
  then obtain m1 where m1: "f (n, Some (m, p)) = SDone (n + int (length t), Some (m1, p + length t))" "appended y m p t m1"
    using writesD2 [OF f, of n p m] by auto
  have "length m1 = length m" using m1(2) by (simp add: appended_def)
  then obtain m2 where m2: "g (n + int (length t), Some (m1, p + length t)) =
      SDone (n + int (length t) + int (length u), Some (m2, p + length t + length u))"
      "appended z m1 (p + length t) u m2"
    using writesD2 [OF g, of "n + int (length t)" "p + length t" m1] n by auto
  show "\<exists>m'. sbind (f (n, Some (m, p))) g = SDone (n + int (length (t @ u)), Some (m', p + length (t @ u))) \<and>
      appended z m p (t @ u) m'"
    using m1 m2 appended_trans [OF m1(2) m2(2)] by (intro exI [of _ m2]) (simp add: ac_simps)
qed

lemma store_appended:
  assumes "p + length t < length m" "length bytes \<le> Suc (length t)" "bytes = t @ r" "z \<Longrightarrow> r = [NUL]"
  shows "\<exists>m'. store bytes (m, p) = SDone (m', p) \<and> appended z m p t m'"
proof -
  let ?m = "take p m @ bytes @ drop (p + length bytes) m"
  have r: "r = [] \<or> (\<exists>c. r = [c])"
    using assms(2,3) by (cases r; cases "tl r") auto
  have "store bytes (m, p) = SDone (?m, p)"
    using assms by (simp add: store_def)
  moreover have "appended z m p t ?m"
    using assms r by (auto simp: appended_def nth_append)
  ultimately show ?thesis by blast
qed

lemma writes_append: "writes True (APPEND_STRING s) s"
proof (rule writesI)
  fix n and m :: string and p
  assume n: "0 \<le> n" "n + int (length s) < 2 ^ 31" "p + length s < length m"
  obtain m' where "store (s @ [NUL]) (m, p) = SDone (m', p)" "appended True m p s m'"
    using store_appended [OF n(3), of "s @ [NUL]" "[NUL]" True] by auto
  with n show "\<exists>m'. APPEND_STRING s (n, Some (m, p)) = SDone (n + int (length s), Some (m', p + length s)) \<and> appended True m p s m'"
    by (simp add: APPEND_STRING_def advance_def)
qed (simp add: APPEND_STRING_def advance_def)

lemma writes_skip: "writes False SDone []"
  by (rule writesI) (auto simp: appended_def)

lemma writes_append_if: "writes False (append_if c s) (if c then s else [])"
  using writes_weaken [OF writes_append] writes_skip by (simp add: append_if_def [abs_def])

lemma writes_indent: "writes False (APPEND_INDENT n) (indentation n)"
proof (induction n)
  case (Suc n)
  then show ?case
    using writes_bind [OF writes_append Suc] by (simp add: indentation_def)
qed (simp add: indentation_def writes_skip)

lemma writes_indent_if: "writes False (indent_if c n) (if c then indentation n else [])"
  using writes_indent writes_skip by (simp add: indent_if_def [abs_def])

lemma writes_subcall:
  assumes "writes z f t"
  shows "writes z (subcall f) t"
proof (rule writesI)
  fix n and m :: string and p
  assume n: "0 \<le> n" "n + int (length t) < 2 ^ 31" "p + length t < length m"
  then obtain m' where "f (0, Some (m, p)) = SDone (int (length t), Some (m', p + length t))" "appended z m p t m'"
    using writesD2 [OF assms, of 0 p m] by auto
  with n show "\<exists>m'. subcall f (n, Some (m, p)) = SDone (n + int (length t), Some (m', p + length t)) \<and> appended z m p t m'"
    by (simp add: subcall_def advance_def)
qed (use writesD1 [OF assms, of 0] in \<open>simp add: subcall_def advance_def\<close>)

lemma writes_number: "number_ok cf q \<Longrightarrow> writes True (serialize_number cf q) (print_number cf q)"
proof (rule writesI)
  fix n and m :: string and p
  assume *: "number_ok cf q" and n: "0 \<le> n" "n + int (length (print_number cf q)) < 2 ^ 31"
    "p + length (print_number cf q) < length m"
  obtain m' where "store (print_number cf q @ [NUL]) (m, p) = SDone (m', p)" "appended True m p (print_number cf q) m'"
    using store_appended [OF n(3), of "print_number cf q @ [NUL]" "[NUL]" True] by auto
  with n * show "\<exists>m'. serialize_number cf q (n, Some (m, p)) =
      SDone (n + int (length (print_number cf q)), Some (m', p + length (print_number cf q))) \<and>
      appended True m p (print_number cf q) m'"
    by (simp add: serialize_number_def number_ok_def advance_def)
qed (auto simp: serialize_number_def number_ok_def advance_def)

lemma writes_chars: "writes False (serialize_chars cf s) (concat (map (print_char cf) s))"
proof (induction s)
  case (Cons c s)
  let ?f = "\<lambda>st. case escape_token cf c of
              Some str \<Rightarrow> APPEND_STRING str st
            | None \<Rightarrow>
                (case st of
                   (n, None) \<Rightarrow> advance 1 st
                 | (n, Some b) \<Rightarrow> sbind (store [c] b) (\<lambda>b'. advance 1 (n, Some b')))"
  have "writes False ?f (print_char cf c)"
  proof (cases "escape_token cf c")
    case None
    show ?thesis
    proof (rule writesI)
      fix n and m :: string and p
      assume n: "0 \<le> n" "n + int (length (print_char cf c)) < 2 ^ 31" "p + length (print_char cf c) < length m"
      have p: "print_char cf c = [c]" using None by (simp add: print_char_def)
      obtain m' where "store [c] (m, p) = SDone (m', p)" "appended False m p [c] m'"
        using store_appended [of p "[c]" m "[c]" "[]" False] n p by auto
      with n None p show "\<exists>m'. ?f (n, Some (m, p)) =
          SDone (n + int (length (print_char cf c)), Some (m', p + length (print_char cf c))) \<and>
          appended False m p (print_char cf c) m'"
        by (simp add: advance_def)
    qed (simp add: None print_char_def advance_def)
  qed (simp add: print_char_def writes_weaken [OF writes_append])
  from writes_bind [OF this Cons] show ?case
    by (simp add: serialize_chars.simps [abs_def])
qed (simp add: writes_skip)

lemma writes_string: "writes True (json_serialize_string cf s) (print_string cf s)"
  using writes_bind [OF writes_append writes_bind [OF writes_chars writes_append], of "[QUOT]" cf s "[QUOT]"]
  by (simp add: json_serialize_string_def [abs_def] print_string_def)

section \<open>The serializer refines the printer\<close>

lemma writes_elements:
  assumes IH: "\<And>x. x \<in> set (arr_items a) \<Longrightarrow> writes True (json_serialize_to_buffer_r cf (Some x) (level + 1) pretty) (txt_of x)"
  shows "i \<le> length (arr_items a) \<Longrightarrow>
    writes False (serialize_elements cf a i level pretty) (seq_body pretty level (drop i (map txt_of (arr_items a))))"
proof (induction "length (arr_items a) - i" arbitrary: i)
  case 0
  then have "serialize_elements cf a i level pretty = SDone"
    by (auto simp: serialize_elements.simps json_array_get_count_def)
  with 0 show ?case by (simp add: writes_skip)
next
  case (Suc k)
  then have i: "i < length (arr_items a)" by simp
  let ?x = "arr_items a ! i" and ?rest = "drop (i + 1) (map txt_of (arr_items a))"
  have loop: "serialize_elements cf a i level pretty = (\<lambda>st.
      sbind (indent_if pretty (level + 1) st) (\<lambda>st1.
      sbind (subcall (json_serialize_to_buffer_r cf (Some ?x) (level + 1) pretty) st1) (\<lambda>st2.
      sbind (append_if (i < length (arr_items a) - 1) '','' st2) (\<lambda>st3.
      sbind (append_if pretty [LF] st3) (serialize_elements cf a (i + 1) level pretty)))))"
    using i by (intro ext) (subst serialize_elements.simps, simp add: json_array_get_count_def json_array_get_value_def)
  have "i < length (arr_items a) - 1 \<longleftrightarrow> ?rest \<noteq> []"
    using i by auto
  then have b: "seq_body pretty level (drop i (map txt_of (arr_items a))) =
      (if pretty then indentation (level + 1) else []) @ txt_of ?x
        @ (if i < length (arr_items a) - 1 then '','' else []) @ (if pretty then [LF] else []) @ seq_body pretty level ?rest"
    using i Cons_nth_drop_Suc [of i "map txt_of (arr_items a)", symmetric] by (simp del: drop_map)
  have "writes False (serialize_elements cf a (i + 1) level pretty) (seq_body pretty level ?rest)"
    using Suc i by simp
  then show ?case
    unfolding loop b
    by (intro writes_bind [OF writes_indent_if] writes_bind [OF writes_subcall [OF IH]]
          writes_bind [OF writes_append_if] nth_mem i)
qed

lemma writes_members:
  assumes wf: "wf_object ob"
    and IH: "\<And>x. x \<in> set (vals ob) \<Longrightarrow> writes True (json_serialize_to_buffer_r cf (Some x) (level + 1) pretty) (txt_of x)"
  shows "i \<le> count ob \<Longrightarrow>
    writes False (serialize_members cf ob i level pretty)
      (seq_body pretty level (drop i (map (\<lambda>(k, x). print_member cf pretty k (txt_of x)) (items ob))))"
proof (induction "count ob - i" arbitrary: i)
  case 0
  then have "serialize_members cf ob i level pretty = SDone"
    by (auto simp: serialize_members.simps json_object_get_count_def)
  with 0 show ?case by (simp add: writes_skip length_items [OF wf])
next
  case (Suc j)
  then have i: "i < count ob" by simp
  have len: "length (names ob) = count ob" "length (vals ob) = count ob" "length (items ob) = count ob"
    using wf_objectD(3,4) [OF wf] length_items [OF wf] by simp_all
  let ?k = "names ob ! i" and ?x = "vals ob ! i" and ?ts = "map (\<lambda>(k, x). print_member cf pretty k (txt_of x)) (items ob)"
  have kx: "items ob ! i = (?k, ?x)" "cstr ?k = ?k"
    using i len wf_names [OF wf i] by (simp_all add: items_def)
  have loop: "serialize_members cf ob i level pretty = (\<lambda>st.
      sbind (indent_if pretty (level + 1) st) (\<lambda>st1.
      sbind (subcall (json_serialize_string cf ?k) st1) (\<lambda>st2.
      sbind (APPEND_STRING '':'' st2) (\<lambda>st3.
      sbind (append_if pretty '' '' st3) (\<lambda>st4.
      sbind (subcall (json_serialize_to_buffer_r cf (Some ?x) (level + 1) pretty) st4) (\<lambda>st5.
      sbind (append_if (i < count ob - 1) '','' st5) (\<lambda>st6.
      sbind (append_if pretty [LF] st6) (serialize_members cf ob (i + 1) level pretty))))))))"
    using i len kx by (intro ext) (subst serialize_members.simps,
      simp add: json_object_get_count_def json_object_get_name_def json_object_get_value_at_def)
  have "i < count ob - 1 \<longleftrightarrow> drop (i + 1) ?ts \<noteq> []"
    using i len by auto
  then have b: "seq_body pretty level (drop i ?ts) =
      (if pretty then indentation (level + 1) else []) @ print_string cf ?k @ '':'' @ (if pretty then '' '' else []) @ txt_of ?x
        @ (if i < count ob - 1 then '','' else []) @ (if pretty then [LF] else []) @ seq_body pretty level (drop (i + 1) ?ts)"
    using i len kx Cons_nth_drop_Suc [of i ?ts, symmetric] by (simp add: print_member_def del: drop_map)
  have "writes False (serialize_members cf ob (i + 1) level pretty) (seq_body pretty level (drop (i + 1) ?ts))"
    using Suc i by simp
  then show ?case
    unfolding loop b
    by (intro writes_bind [OF writes_indent_if] writes_bind [OF writes_subcall [OF writes_string]] writes_bind [OF writes_append]
          writes_bind [OF writes_append_if] writes_bind [OF writes_subcall [OF IH]] nth_mem) (use i len in simp_all)
qed

lemma writes_value:
  "wf_json v \<Longrightarrow> json_all (number_ok cf) (abs_json v) \<Longrightarrow>
    writes True (json_serialize_to_buffer_r cf (Some v) level pretty) (print_json cf pretty level (abs_json v))"
proof (induction v arbitrary: level rule: measure_induct_rule [of size])
  case (less v)
  show ?case
  proof (cases v)
    case (VArray a)
    let ?txt = "\<lambda>x. print_json cf pretty (level + 1) (abs_json x)"
    have "writes True (json_serialize_to_buffer_r cf (Some x) (level + 1) pretty) (?txt x)" if "x \<in> set (arr_items a)" for x
      using less.IH [of x "level + 1"] size_items [OF that] less.prems VArray that by auto
    then have "writes False (serialize_elements cf a 0 level pretty) (seq_body pretty level (map ?txt (arr_items a)))"
      using writes_elements [of a cf level pretty ?txt 0] by simp
    from writes_bind [OF writes_append writes_bind [OF writes_append_if writes_bind [OF this writes_bind [OF writes_indent_if writes_append]]],
        of "''[''" "0 < length (arr_items a) \<and> pretty" "[LF]" "0 < length (arr_items a) \<and> pretty" level "'']''"]
    show ?thesis
      using VArray by (simp add: json_serialize_to_buffer_r.simps [abs_def] json_array_get_count_def print_seq_def comp_def)
  next
    case (VObject ob)
    then have wf: "wf_object ob" using less.prems by simp
    let ?txt = "\<lambda>x. print_json cf pretty (level + 1) (abs_json x)"
    have cnt: "0 < count ob \<longleftrightarrow> items ob \<noteq> []"
      by (simp flip: length_items [OF wf])
    have ab: "abs_json (VObject ob) = JObject (map abs_pair (items ob))"
      by (rule abs_json_object [OF wf])
    have "writes True (json_serialize_to_buffer_r cf (Some x) (level + 1) pretty) (?txt x)" if x: "x \<in> set (vals ob)" for x
    proof -
      obtain k where "(k, x) \<in> set (items ob)"
        using x vals_items [OF wf] by auto
      then have "json_all (number_ok cf) (abs_json x)"
        using less.prems(2) VObject ab by (force simp: abs_pair_def)
      then show ?thesis
        using less.IH [of x "level + 1"] size_vals [OF x] less.prems VObject x by auto
    qed
    then have "writes False (serialize_members cf ob 0 level pretty)
        (seq_body pretty level (map (\<lambda>(k, x). print_member cf pretty k (?txt x)) (items ob)))"
      using writes_members [OF wf, of cf level pretty ?txt 0] by simp
    from writes_bind [OF writes_append writes_bind [OF writes_append_if writes_bind [OF this writes_bind [OF writes_indent_if writes_append]]],
        of "''{''" "items ob \<noteq> [] \<and> pretty" "[LF]" "items ob \<noteq> [] \<and> pretty" level "''}''"]
    show ?thesis
      unfolding VObject ab
      by (simp add: cnt json_serialize_to_buffer_r.simps [abs_def] json_object_get_count_def print_seq_def comp_def
          case_prod_unfold abs_pair_def)
  qed (use less.prems writes_append writes_number writes_subcall [OF writes_string] in
      \<open>simp_all add: json_serialize_to_buffer_r.simps [abs_def]\<close>)
qed

section \<open>The interface meets its contract\<close>

lemma serialization_size_print:
  assumes "wf_json v" "json_all (number_ok cf) (abs_json v)" "length (print_json cf pretty 0 (abs_json v)) < 2 ^ 31"
  shows "serialization_size cf pretty (Some v) = SDone (Suc (length (print_json cf pretty 0 (abs_json v))))"
  using writesD1 [OF writes_value [OF assms(1,2), of 0 pretty], of 0] assms(3)
  by (simp add: serialization_size_def)

lemma serialize_to_buffer_print:
  assumes v: "wf_json v" "json_all (number_ok cf) (abs_json v)" "length (print_json cf pretty 0 (abs_json v)) < 2 ^ 31"
    and n: "n \<le> length buf"
  shows "serialize_to_buffer cf pretty (Some v) buf n = SDone
    (let s = print_json cf pretty 0 (abs_json v) in
     if length s < n then (JSONSuccess, s @ [NUL] @ drop (length s + 1) buf) else (JSONFailure, buf))"
proof (cases "length (print_json cf pretty 0 (abs_json v)) < n")
  case True
  let ?s = "print_json cf pretty 0 (abs_json v)"
  obtain m where m: "json_serialize_to_buffer_r cf (Some v) 0 pretty (0, Some (buf, 0)) = SDone (int (length ?s), Some (m, length ?s))"
    "appended True buf 0 ?s m"
    using writesD2 [OF writes_value [OF v(1,2), of 0 pretty], of 0 0 buf] v(3) True n by auto
  then have "m = ?s @ [NUL] @ drop (length ?s + 1) buf"
    using id_take_nth_drop [of "length ?s" m] True n by (simp add: appended_def)
  with m(1) True show ?thesis
    by (simp add: serialize_to_buffer_def serialization_size_print [OF v] Let_def)
qed (simp add: serialize_to_buffer_def serialization_size_print [OF v] Let_def)

lemma serialize_to_string_print:
  assumes "wf_json v" "json_all (number_ok cf) (abs_json v)" "length (print_json cf pretty 0 (abs_json v)) < 2 ^ 31"
  shows "serialize_to_string cf junk pretty (Some v) = SDone (Some (print_json cf pretty 0 (abs_json v) @ [NUL]))"
  by (simp add: serialize_to_string_def serialization_size_print [OF assms] serialize_to_buffer_print [OF assms] Let_def)

text \<open>The default format always fits the array for a number.\<close>

definition default_numbers :: "serial_conf \<Rightarrow> bool" where
  "default_numbers cf \<longleftrightarrow> number_function cf = None \<and> float_format cf = None"

lemma number_bytes_default:
  "default_numbers cf \<Longrightarrow> number_bytes cf q = (int (length (sprintf_17g q)), sprintf_17g q @ [NUL])"
  by (simp add: number_bytes_def default_numbers_def parson_sprintf_def Let_def)

lemma print_number_default: "default_numbers cf \<Longrightarrow> print_number cf q = sprintf_17g q"
  by (simp add: print_number_def number_bytes_default)

lemma number_ok_default: "default_numbers cf \<Longrightarrow> is_double q \<Longrightarrow> number_ok cf q"
  by (rule sprintf_17g_shape [of q])
    (simp add: number_ok_def print_number_default number_bytes_default PARSON_NUM_BUF_SIZE_def)

lemma json_all_mono: "json_all P j \<Longrightarrow> (\<And>q. P q \<Longrightarrow> Q q) \<Longrightarrow> json_all Q j"
  by (induction P j rule: json_all.induct) auto

end
