(* ===== verification/Parson_Roundtrip.thy ===== *)
theory Parson_Roundtrip
  imports Parson_Serialize
begin

text \<open>
  What \<^verbatim>\<open>json_serialize_to_string\<close> writes, \<^verbatim>\<open>json_parse_string\<close> reads back: the same document, for compact and for pretty output, for every string (with control
  characters and embedded terminators) and every finite double.
\<close>

section \<open>Strings\<close>

lemma escape_token_cases:
  obtains (simple) d where "print_char cf c = [BSLASH, d]" "simple_escape d = Some c" "d \<noteq> CHR ''u''"
  | (control) "print_char cf c = [BSLASH] @ ''u00'' @ [hex_digit (code c div 16), hex_digit (code c mod 16)]" "code c < 32"
  | (plain) "print_char cf c = [c]" "c \<noteq> QUOT" "c \<noteq> BSLASH" "32 \<le> code c"
proof -
  consider "c \<in> {QUOT, BSLASH, BS, FF, LF, CR, TAB}" | "c \<notin> {QUOT, BSLASH, BS, FF, LF, CR, TAB}" "code c < 32"
    | "c \<notin> {QUOT, BSLASH, BS, FF, LF, CR, TAB}" "32 \<le> code c" "c = CHR ''/''"
    | "c \<notin> {QUOT, BSLASH, BS, FF, LF, CR, TAB}" "32 \<le> code c" "c \<noteq> CHR ''/''"
    by linarith
  then show thesis
  proof cases
    case 1
    then have "\<exists>d. print_char cf c = [BSLASH, d] \<and> simple_escape d = Some c \<and> d \<noteq> CHR ''u''"
      by (elim insertE emptyE) (simp_all add: print_char_def escape_token_def simple_escape_def)
    then show thesis
      using simple by blast
  next
    case 2
    then show thesis
      by (intro control) (simp_all add: print_char_def escape_token_def)
  next
    case 3
    show thesis
    proof (cases "escape_slashes cf = 0")
      case True
      with 3 show thesis by (intro plain) (simp_all add: print_char_def escape_token_def)
    next
      case False
      with 3 show thesis
        by (intro simple [of "CHR ''/''"]) (simp_all add: print_char_def escape_token_def simple_escape_def code_def)
    qed
  next
    case 4
    then show thesis
      by (intro plain) (simp_all add: print_char_def escape_token_def)
  qed
qed

lemma hex_digit_value: "n < 16 \<Longrightarrow> hex_char_to_int (hex_digit n) = int n"
  by (simp add: hex_char_to_int_def hex_digit_def)

lemma hex_digit_plain: "n < 16 \<Longrightarrow> hex_digit n \<noteq> QUOT \<and> hex_digit n \<noteq> BSLASH \<and> hex_digit n \<noteq> NUL"
  by (rule hex_char_not_special) (simp add: hex_digit_value)

lemma parse_utf16_control:
  assumes "n < 32"
  shows "parse_utf16 (''u00'' @ [hex_digit (n div 16), hex_digit (n mod 16)] @ rest) = Some ([char_of n], 4)"
proof -
  let ?s = "''00'' @ [hex_digit (n div 16), hex_digit (n mod 16)] @ rest"
  have "hex_char_to_int CHR ''0'' = 0"
    by (simp add: hex_char_to_int_def code_def)
  then have h: "hex_char_to_int (char_at ?s 0) = 0" "hex_char_to_int (char_at ?s 1) = 0"
    "hex_char_to_int (char_at ?s 2) = int (n div 16)" "hex_char_to_int (char_at ?s 3) = int (n mod 16)"
    using assms by (simp_all add: char_at_def hex_digit_value)
  moreover have "char_at ?s i \<noteq> NUL" if "i \<in> {0, 1, 2, 3}" for i
    using that hex_digit_plain [of "n div 16"] hex_digit_plain [of "n mod 16"] assms by (auto simp: char_at_def)
  ultimately obtain cp where cp: "parse_utf16_hex ?s = Some cp"
    by (auto simp: parse_utf16_hex_def Let_def)
  have "unat cp = n"
    unfolding parse_utf16_hexD(2) [OF cp] hex4_def h by (simp add: zdiv_int zmod_int)
  with cp assms show ?thesis
    by (simp add: parse_utf16_def utf8_bytes_def unbyte_def word_less_nat_alt)
qed

lemma skip_printed: "skip_quotes_loop (concat (map (print_char cf) s) @ QUOT # r) = Some r"
proof (induction s)
  case (Cons c s)
  show ?case
  proof (rule escape_token_cases [of cf c])
    assume "print_char cf c = [BSLASH] @ ''u00'' @ [hex_digit (code c div 16), hex_digit (code c mod 16)]" "code c < 32"
    with Cons hex_digit_plain [of "code c div 16"] hex_digit_plain [of "code c mod 16"] show ?thesis
      by simp
  qed (use Cons in simp_all)
qed simp

lemma process_printed:
  "process_string_loop (concat (map (print_char cf) s) @ QUOT # r) (length (concat (map (print_char cf) s))) out = Some (out @ s)"
proof (induction s arbitrary: out)
  case Nil
  then show ?case by (simp add: process_string_loop.simps)
next
  case (Cons c s)
  let ?t = "concat (map (print_char cf) s) @ QUOT # r"
  show ?case
  proof (rule escape_token_cases [of cf c])
    fix d assume "print_char cf c = [BSLASH, d]" "simple_escape d = Some c" "d \<noteq> CHR ''u''"
    with Cons show ?thesis
      by (subst process_string_loop.simps) (simp add: peek_def char_at_def)
  next
    assume p: "print_char cf c = [BSLASH] @ ''u00'' @ [hex_digit (code c div 16), hex_digit (code c mod 16)]" and c: "code c < 32"
    have "parse_utf16 (''u00'' @ [hex_digit (code c div 16), hex_digit (code c mod 16)] @ ?t) = Some ([c], 4)"
      using parse_utf16_control [OF c, of ?t] by simp
    with Cons p show ?thesis
      by (subst process_string_loop.simps) (simp add: peek_def char_at_def)
  next
    assume "print_char cf c = [c]" "c \<noteq> QUOT" "c \<noteq> BSLASH" "32 \<le> code c"
    moreover from this have "c \<noteq> NUL" by (auto simp: code_def)
    ultimately show ?thesis
      using Cons by (subst process_string_loop.simps) (simp add: peek_def)
  qed
qed

lemma get_quoted_printed: "get_quoted_string (print_string cf s @ r) = Some (s, r)"
  using skip_printed [of cf s r] process_printed [of cf s r "[]"]
  by (simp add: get_quoted_string_def skip_quotes_def print_string_def peek_def process_string_def)

section \<open>Numbers\<close>

lemma parse_number_printed:
  assumes "is_double q" "number_end rest"
  shows "parse_number_value (sprintf_17g q @ rest) = POk (VNumber q) rest"
proof -
  obtain b where sd: "strtod (sprintf_17g q @ rest) = \<lparr>sd_value = Fin q, sd_rest = rest, sd_erange = b\<rparr>"
    using strtod_sprintf_17g [OF assms] by blast
  obtain c s where cs: "sprintf_17g q = (if q < 0 then ''-'' else []) @ c # s" "isdigit c"
    "list_all number_char (sprintf_17g q)" "c = CHR ''0'' \<Longrightarrow> s = [] \<or> hd s = CHR ''.''"
    by (rule sprintf_17g_shape [of q]) blast
  have "list_all (\<lambda>c. c \<notin> set ''xX'') (sprintf_17g q)"
    using cs(3) number_charD by (auto simp: list_all_iff)
  moreover have "c \<noteq> CHR ''-''"
    using isdigit_no_sign [OF cs(2)] by simp
  ultimately have "is_decimal (sprintf_17g q @ rest) (length (sprintf_17g q))"
    using cs(1,4) by (cases "q < 0"; cases s) (auto simp: is_decimal_def char_at_def starts_with_def)
  with sd show ?thesis
    by (simp add: parse_number_value_def json_value_init_number_def)
qed

section \<open>White space\<close>

lemma skip_ws_spaces: "list_all isspace w \<Longrightarrow> skip_ws (w @ s) = skip_ws s"
  unfolding skip_ws_def by (rule dropWhile_append2) (simp add: list_all_iff)

lemma skip_ws_nonspace: "s \<noteq> [] \<Longrightarrow> \<not> isspace (hd s) \<Longrightarrow> skip_ws (s @ r) = s @ r"
  by (cases s) (simp_all add: skip_ws_def)

lemma skip_ws_to: "list_all isspace w \<Longrightarrow> \<not> isspace c \<Longrightarrow> skip_ws (w @ c # r) = c # r"
  by (simp add: skip_ws_spaces) (simp add: skip_ws_def)

lemma closing_nonspace [simp]: "\<not> isspace CHR '']''" "\<not> isspace CHR ''}''" "\<not> isspace CHR '',''" "\<not> isspace CHR '':''"
  by (simp_all add: isspace_def)

lemma indentation_space [simp]: "list_all isspace (indentation n)"
  by (induction n) (simp_all add: indentation_def PARSON_INDENT_STR_def isspace_def)

lemma LF_space [simp]: "isspace LF" "isspace CHR '' ''"
  by (simp_all add: isspace_def)

lemma parse_value_spaces: "list_all isspace w \<Longrightarrow> parse_value f (w @ s) n = parse_value f s n"
  by (cases f) (simp_all add: parse_value.simps skip_ws_spaces)

section \<open>Documents\<close>

fun json_wf :: "json \<Rightarrow> bool" where
  "json_wf (JObject ms) \<longleftrightarrow> distinct (map fst ms) \<and> list_all no_nul (map fst ms) \<and> length ms \<le> 2 ^ 31 \<and>
     (\<forall>(k, j) \<in> set ms. json_wf j)"
| "json_wf (JArray js) \<longleftrightarrow> (\<forall>j \<in> set js. json_wf j)"
| "json_wf JNull \<longleftrightarrow> True"
| "json_wf (JString s) \<longleftrightarrow> True"
| "json_wf (JNumber q) \<longleftrightarrow> True"
| "json_wf (JBoolean b) \<longleftrightarrow> True"

fun json_deep :: "json \<Rightarrow> nat \<Rightarrow> bool" where
  "json_deep (JObject ms) d \<longleftrightarrow> 0 < d \<and> (\<forall>(k, j) \<in> set ms. json_deep j (d - 1))"
| "json_deep (JArray js) d \<longleftrightarrow> 0 < d \<and> (\<forall>j \<in> set js. json_deep j (d - 1))"
| "json_deep JNull d \<longleftrightarrow> True"
| "json_deep (JString s) d \<longleftrightarrow> True"
| "json_deep (JNumber q) d \<longleftrightarrow> True"
| "json_deep (JBoolean b) d \<longleftrightarrow> True"

lemma abs_json_wf: "wf_json v \<Longrightarrow> json_wf (abs_json v)"
proof (induction v rule: measure_induct_rule [of size])
  case (less v)
  show ?case
  proof (cases v)
    case (VObject ob)
    then have wf: "wf_object ob" "count ob \<le> 2 ^ 31" using less.prems by simp_all
    have "json_wf (abs_json x)" if "(k, x) \<in> set (items ob)" for k x
    proof -
      have "x \<in> set (vals ob)" using that vals_items [OF wf(1)] by force
      then show ?thesis using less.IH [of x] size_vals [of x ob] less.prems VObject by simp
    qed
    then show ?thesis
      unfolding VObject abs_json_object [OF wf(1)]
      using ht.invar_keys [OF wf(1)] wf(2) length_items [OF wf(1)] by (auto simp: abs_pair_def comp_def)
  next
    case (VArray a)
    then show ?thesis using less size_items [of _ a] by auto
  qed simp_all
qed

lemma abs_json_deep: "wf_json v \<Longrightarrow> depth v \<le> d \<Longrightarrow> json_deep (abs_json v) d"
proof (induction v arbitrary: d rule: measure_induct_rule [of size])
  case (less v)
  show ?case
  proof (cases v)
    case (VObject ob)
    then have wf: "wf_object ob" using less.prems by simp
    have "json_deep (abs_json x) (d - 1)" if "(k, x) \<in> set (items ob)" for k x
    proof -
      have "x \<in> set (vals ob)" using that vals_items [OF wf] by force
      then show ?thesis
        using less.IH [of x "d - 1"] size_vals [of x ob] depth_vals [of x ob] less.prems VObject by simp
    qed
    then show ?thesis
      unfolding VObject abs_json_object [OF wf] using less.prems VObject by (auto simp: abs_pair_def)
  next
    case (VArray a)
    have "json_deep (abs_json x) (d - 1)" if "x \<in> set (arr_items a)" for x
      using less.IH [of x "d - 1"] size_items [OF that] depth_items [OF that] less.prems VArray that by simp
    with VArray less.prems show ?thesis by auto
  qed simp_all
qed

section \<open>Reading a printed value\<close>

definition opens_value :: "string \<Rightarrow> bool" where
  "opens_value t \<longleftrightarrow> t \<noteq> [] \<and> \<not> isspace (hd t) \<and> hd t \<notin> {NUL, CHR '']'', CHR ''}'', CHR '',''}"

definition reads :: "string \<Rightarrow> json \<Rightarrow> nat \<Rightarrow> bool" where
  "reads t j d \<longleftrightarrow> opens_value t \<and> (\<forall>f n rest. number_end rest \<longrightarrow> 3 * length (t @ rest) + 3 \<le> f \<longrightarrow> n + d \<le> MAX_NESTING \<longrightarrow>
     (\<exists>v. parse_value f (t @ rest) n = POk v rest \<and> wf_json v \<and> abs_json v = j))"

lemma readsE:
  assumes "reads t j d" "number_end rest" "3 * length (t @ rest) + 3 \<le> f" "n + d \<le> MAX_NESTING"
  obtains v where "parse_value f (t @ rest) n = POk v rest" "wf_json v" "abs_json v = j"
  using assms unfolding reads_def by blast

lemma number_end_simps [simp]:
  "number_end []" "number_end (CHR '','' # r)" "number_end (CHR '']'' # r)" "number_end (CHR ''}'' # r)" "number_end (LF # r)"
  by (simp_all add: number_end_def isdigit_def code_def)

lemma seq_body_skip:
  assumes "opens_value t"
  shows "skip_ws (seq_body pretty level (t # ts) @ r) =
    t @ (if ts \<noteq> [] then '','' else []) @ (if pretty then [LF] else []) @ seq_body pretty level ts @ r"
proof -
  have "skip_ws ((if pretty then indentation (level + 1) else []) @ t @ u) = t @ u" for u
    using assms skip_ws_spaces [of "if pretty then indentation (level + 1) else []" "t @ u"]
    by (simp add: opens_value_def skip_ws_nonspace)
  then show ?thesis by simp
qed

lemma array_loop_printed:
  assumes "\<forall>j \<in> set js. reads (pr j) j d" "n + d \<le> MAX_NESTING" "js \<noteq> []" "list_all isspace w" "wf_json (VArray a)"
    and "s = skip_ws (seq_body pretty level (map pr js) @ w @ CHR '']'' # rest)" "3 * length s + 4 \<le> f"
  shows "\<exists>a'. parse_array_loop f s n a = POk a' (CHR '']'' # rest) \<and> wf_json (VArray a') \<and>
    map abs_json (arr_items a') = map abs_json (arr_items a) @ js \<and> arr_items a' \<noteq> []"
  using assms
proof (induction js arbitrary: f s a)
  case (Cons j js)
  let ?nl = "if pretty then [LF] else []"
  let ?more = "seq_body pretty level (map pr js) @ w @ CHR '']'' # rest"
  let ?r = "(if js \<noteq> [] then '','' else []) @ ?nl @ ?more"
  have o: "opens_value (pr j)" using Cons.prems(1) by (simp add: reads_def)
  have s: "s = pr j @ ?r"
    unfolding Cons.prems(6) list.map seq_body_skip [OF o] by simp
  have pk: "peek s \<noteq> NUL"
    using o s by (cases "pr j") (auto simp: opens_value_def peek_def)
  obtain f' where f: "f = Suc f'" using Cons.prems(7) by (cases f) auto
  have ne: "number_end ?r"
    using Cons.prems(4) by (cases js; cases w; cases pretty) (auto simp: number_end_def ctype_simps)
  obtain v where v: "parse_value f' s n = POk v ?r" "wf_json v" "abs_json v = j"
    using readsE [of "pr j" j d ?r f' n] Cons.prems(1,2,7) ne f s by auto
  obtain a1 where a1: "json_array_add a v = (JSONSuccess, a1)" "arr_items a1 = arr_items a @ [v]" "wf_array a1"
    using json_array_add_ok [of a v] Cons.prems(5) by (cases "json_array_add a v") auto
  have wf1: "wf_json (VArray a1)"
    using a1 v Cons.prems(5) by auto
  show ?case
  proof (cases "js = []")
    case True
    have "skip_ws ?r = CHR '']'' # rest"
      using True Cons.prems(4) skip_ws_to [of "?nl @ w" "CHR '']''" rest] by (cases pretty) simp_all
    with True v a1 wf1 pk f show ?thesis
      by (simp add: parse_array_loop.simps peek_def)
  next
    case False
    let ?s = "skip_ws ?more"
    have sk: "skip_ws ?r = CHR '','' # ?nl @ ?more" "skip_ws (?nl @ ?more) = ?s"
      using False by (simp_all add: skip_ws_def isspace_def)
    obtain j2 js2 where js: "js = j2 # js2" using False by (cases js) auto
    have "peek ?s \<noteq> CHR '']''"
      using Cons.prems(1) seq_body_skip [of "pr j2" pretty level "map pr js2"] js
      by (cases "pr j2") (auto simp: reads_def opens_value_def peek_def)
    then have step: "parse_array_loop f s n a = parse_array_loop f' ?s n a1"
      using v(1) a1(1) pk sk by (simp add: f parse_array_loop.simps peek_def)
    have "length ?s < length s"
      using o s skip_ws_length [of ?more] by (cases "pr j") (auto simp: opens_value_def)
    then have "3 * length ?s + 4 \<le> f'" using Cons.prems(7) f by simp
    with Cons.IH [OF _ Cons.prems(2) False Cons.prems(4) wf1 refl this] Cons.prems(1) obtain a' where
      "parse_array_loop f' ?s n a1 = POk a' (CHR '']'' # rest)" "wf_json (VArray a')"
      "map abs_json (arr_items a') = map abs_json (arr_items a1) @ js" "arr_items a' \<noteq> []"
      by auto
    with step a1 v show ?thesis by simp
  qed
qed simp

lemma member_printed:
  assumes "reads t j d" "n + d \<le> MAX_NESTING" "number_end r" "no_nul k"
    and "s = print_member cf pretty k t @ r" "3 * length s + 3 \<le> f"
  obtains u v where "get_quoted_string s = Some (k, u)" "length k = strlen k" "peek s \<noteq> NUL" "peek (skip_ws u) = CHR '':''"
    "parse_value f (tl (skip_ws u)) n = POk v r" "wf_json v" "abs_json v = j"
proof -
  let ?sp = "if pretty then '' '' else []"
  let ?u = "CHR '':'' # ?sp @ t @ r"
  have s: "s = print_string cf k @ ?u"
    using assms(5) by (simp add: print_member_def)
  have u: "skip_ws ?u = ?u"
    by (simp add: skip_ws_def)
  have "length t \<le> length s"
    using s by simp
  then have "3 * length (t @ r) + 3 \<le> f"
    using assms(6) s by simp
  then obtain v where v: "parse_value f (t @ r) n = POk v r" "wf_json v" "abs_json v = j"
    using readsE [OF assms(1,3) _ assms(2)] by blast
  then have "parse_value f (?sp @ t @ r) n = POk v r"
    using parse_value_spaces [of ?sp f "t @ r" n] by simp
  then show thesis
    using that [of ?u v] get_quoted_printed [of cf k ?u] assms(4) u v s
    by (simp add: strlen_def print_string_def peek_def)
qed

lemma object_loop_printed:
  assumes "\<forall>(k, j) \<in> set ms. reads (pr j) j d \<and> no_nul k" "n + d \<le> MAX_NESTING" "ms \<noteq> []" "list_all isspace w"
    and "wf_json (VObject ob)" "distinct (map fst (items ob) @ map fst ms)" "length (items ob) + length ms \<le> 2 ^ 31"
    and "s = skip_ws (seq_body pretty level (map (\<lambda>(k, j). print_member cf pretty k (pr j)) ms) @ w @ CHR ''}'' # rest)"
    and "3 * length s + 4 \<le> f"
  shows "\<exists>ob'. parse_object_loop f s n ob = POk ob' (CHR ''}'' # rest) \<and> wf_json (VObject ob') \<and>
    map abs_pair (items ob') = map abs_pair (items ob) @ ms"
  using assms
proof (induction ms arbitrary: f s ob)
  case (Cons m ms)
  obtain k j where m: "m = (k, j)" by (cases m)
  let ?pm = "\<lambda>(k, j). print_member cf pretty k (pr j)"
  let ?nl = "if pretty then [LF] else []"
  let ?more = "seq_body pretty level (map ?pm ms) @ w @ CHR ''}'' # rest"
  let ?r = "(if ms \<noteq> [] then '','' else []) @ ?nl @ ?more"
  have o: "opens_value (print_member cf pretty k' t)" for k' t
    by (simp add: opens_value_def print_member_def print_string_def isspace_def)
  have s: "s = print_member cf pretty k (pr j) @ ?r"
    unfolding Cons.prems(8) list.map m prod.case seq_body_skip [OF o] by simp
  obtain f' where f: "f = Suc f'" using Cons.prems(9) by (cases f) auto
  have ne: "number_end ?r"
    using Cons.prems(4) by (cases ms; cases w; cases pretty) (auto simp: number_end_def ctype_simps)
  have rk: "reads (pr j) j d" "no_nul k" using Cons.prems(1) m by auto
  have fu: "3 * length s + 3 \<le> f'" using Cons.prems(9) f by simp
  obtain u v where q: "get_quoted_string s = Some (k, u)" "length k = strlen k" "peek s \<noteq> NUL" "peek (skip_ws u) = CHR '':''"
    and v: "parse_value f' (tl (skip_ws u)) n = POk v ?r" "wf_json v" "abs_json v = j"
    using member_printed [OF rk(1) Cons.prems(2) ne rk(2) s fu] .
  have wo: "wf_object ob" using Cons.prems(5) by simp
  obtain ob1 where ob1: "json_object_add ob k v = Some (JSONSuccess, ob1)" "wf_object ob1" "items ob1 = items ob @ [(k, v)]"
    using ht.add_fresh [OF wo rk(2), of v] Cons.prems(6,7) m by auto
  have "count ob1 = Suc (count ob)" "vals ob1 = vals ob @ [v]"
    using ob1 length_items [OF ob1(2)] length_items [OF wo] vals_items [OF ob1(2)] vals_items [OF wo] by auto
  then have wf1: "wf_json (VObject ob1)"
    using ob1(2) v(2) Cons.prems(5,7) length_items [OF wo] by auto
  show ?case
  proof (cases "ms = []")
    case True
    have "skip_ws ?r = CHR ''}'' # rest"
      using True Cons.prems(4) skip_ws_to [of "?nl @ w" "CHR ''}''" rest] by (cases pretty) simp_all
    with True v ob1 wf1 q f m show ?thesis
      by (simp add: parse_object_loop.simps peek_def)
  next
    case False
    let ?s = "skip_ws ?more"
    have sk: "skip_ws ?r = CHR '','' # ?nl @ ?more" "skip_ws (?nl @ ?more) = ?s"
      using False by (simp_all add: skip_ws_def)
    obtain k2 j2 ms2 where ms: "ms = (k2, j2) # ms2" using False by (cases ms) auto
    have "?s \<noteq> [] \<and> hd ?s = QUOT"
      unfolding ms list.map prod.case seq_body_skip [OF o] by (simp add: print_member_def print_string_def)
    then have "peek ?s \<noteq> CHR ''}''" by (cases ?s) (auto simp: peek_def)
    then have step: "parse_object_loop f s n ob = parse_object_loop f' ?s n ob1"
      using v(1) ob1(1) q sk by (simp add: f parse_object_loop.simps peek_def [of "CHR '','' # _"])
    have "length ?s < length s"
      using s skip_ws_length [of ?more] by (simp add: print_member_def)
    then have "3 * length ?s + 4 \<le> f'" using Cons.prems(9) f by simp
    with Cons.IH [OF _ Cons.prems(2) False Cons.prems(4) wf1 _ _ refl this] Cons.prems(1,6,7) ob1(3) m obtain ob' where
      "parse_object_loop f' ?s n ob1 = POk ob' (CHR ''}'' # rest)" "wf_json (VObject ob')"
      "map abs_pair (items ob') = map abs_pair (items ob1) @ ms"
      by auto
    with step ob1 v m show ?thesis by simp
  qed
qed simp

lemma readsI:
  assumes "opens_value t"
    and "\<And>f n rest. number_end rest \<Longrightarrow> 3 * length (t @ rest) + 2 \<le> f \<Longrightarrow> n + d \<le> MAX_NESTING \<Longrightarrow>
      \<exists>v. parse_value (Suc f) (t @ rest) n = POk v rest \<and> wf_json v \<and> abs_json v = j"
  shows "reads t j d"
  unfolding reads_def
proof (intro conjI allI impI assms(1))
  fix f n rest
  assume "number_end rest" "3 * length (t @ rest) + 3 \<le> f" "n + d \<le> MAX_NESTING"
  then show "\<exists>v. parse_value f (t @ rest) n = POk v rest \<and> wf_json v \<and> abs_json v = j"
    using assms(2) [of rest "f - 1" n] by (cases f) auto
qed

lemma parse_value_printed:
  "opens_value t \<Longrightarrow> n \<le> MAX_NESTING \<Longrightarrow> parse_value (Suc f) (t @ rest) n =
     (let c = hd t in
      if c = CHR ''{'' then parse_object_value f (t @ rest) (n + 1)
      else if c = CHR ''['' then parse_array_value f (t @ rest) (n + 1)
      else if c = QUOT then parse_string_value (t @ rest)
      else if c = CHR ''f'' \<or> c = CHR ''t'' then parse_boolean_value (t @ rest)
      else if c = CHR ''-'' \<or> isdigit c then parse_number_value (t @ rest)
      else if c = CHR ''n'' then parse_null_value (t @ rest)
      else PNull)"
  by (cases t) (simp_all add: parse_value.simps opens_value_def skip_ws_nonspace [of t, unfolded skip_ws_def] skip_ws_def peek_def)

lemma reads_number:
  assumes "is_double q"
  shows "reads (sprintf_17g q) (JNumber q) d"
proof -
  obtain c s where cs: "sprintf_17g q = (if q < 0 then ''-'' else []) @ c # s" "isdigit c"
    by (rule sprintf_17g_shape [of q]) blast
  define h where "h = hd (sprintf_17g q)"
  have h: "h = CHR ''-'' \<or> isdigit h" "sprintf_17g q \<noteq> []"
    using cs by (auto simp: h_def)
  then have nh: "\<not> isspace h" "h \<notin> {NUL, CHR '']'', CHR ''}'', CHR '',''}"
    "h \<noteq> CHR ''{''" "h \<noteq> CHR ''[''" "h \<noteq> QUOT" "h \<noteq> CHR ''f''" "h \<noteq> CHR ''t''"
    by (auto simp: ctype_simps)
  then have o: "opens_value (sprintf_17g q)"
    using h by (simp add: opens_value_def flip: h_def)
  show ?thesis
    by (rule readsI [OF o]) (use h nh in \<open>simp add: parse_value_printed [OF o] parse_number_printed [OF assms] flip: h_def\<close>)
qed

lemma reads_string: "reads (print_string cf s) (JString s) d"
proof -
  have o: "opens_value (print_string cf s)" "hd (print_string cf s) = QUOT"
    by (simp_all add: opens_value_def print_string_def isspace_def)
  show ?thesis
    by (rule readsI [OF o(1)]) (simp add: parse_value_printed [OF o(1)] o(2) parse_string_value_def get_quoted_printed)
qed

lemma reads_array:
  assumes "\<forall>j \<in> set js. reads (pr j) j d"
  shows "reads (print_seq pretty level (CHR ''['') (CHR '']'') (map pr js)) (JArray js) (Suc d)"
proof (rule readsI)
  let ?t = "print_seq pretty level (CHR ''['') (CHR '']'') (map pr js)"
  show o: "opens_value ?t"
    by (simp add: opens_value_def print_seq_def isspace_def)
  fix f n rest
  assume n: "n + Suc d \<le> MAX_NESTING" and f: "3 * length (?t @ rest) + 2 \<le> f"
  obtain f' where f': "f = Suc f'" using f by (cases f) auto
  have p: "parse_value (Suc f) (?t @ rest) n = parse_array_value f (?t @ rest) (n + 1)"
    using n by (simp add: parse_value_printed [OF o]) (simp add: print_seq_def)
  show "\<exists>v. parse_value (Suc f) (?t @ rest) n = POk v rest \<and> wf_json v \<and> abs_json v = JArray js"
  proof (cases "js = []")
    case True
    then have "parse_array_value f (?t @ rest) (n + 1) = POk json_value_init_array rest"
      by (simp add: f' parse_array_value.simps print_seq_def peek_def skip_ws_def)
    with True p show ?thesis
      by (simp add: json_value_init_array_def json_array_make_def wf_array_def)
  next
    case False
    let ?w = "if pretty then indentation level else []"
    have w: "list_all isspace ?w" by simp
    let ?s = "skip_ws (seq_body pretty level (map pr js) @ ?w @ CHR '']'' # rest)"
    have tl: "skip_ws (tl (?t @ rest)) = ?s"
      using False by (simp add: print_seq_def) (simp add: skip_ws_def)
    obtain j js2 where js: "js = j # js2" using False by (cases js) auto
    have "peek ?s \<noteq> CHR '']''"
      using assms seq_body_skip [of "pr j" pretty level "map pr js2"] js
      by (cases "pr j") (auto simp: reads_def opens_value_def peek_def)
    moreover have "length ?s < length (?t @ rest)"
      using skip_ws_length [of "seq_body pretty level (map pr js) @ ?w @ CHR '']'' # rest"] False by (simp add: print_seq_def)
    then have "3 * length ?s + 4 \<le> f'" using f f' by simp
    then obtain a' where "parse_array_loop f' ?s (n + 1) json_array_make = POk a' (CHR '']'' # rest)" "wf_json (VArray a')"
      "map abs_json (arr_items a') = js" "arr_items a' \<noteq> []"
      using array_loop_printed [OF assms _ False w, of "n + 1" json_array_make ?s pretty level rest f'] n
      by (auto simp: json_array_make_def wf_array_def)
    ultimately show ?thesis
      using p tl by (simp add: f' parse_array_value.simps Let_def json_array_resize_def json_array_get_count_def)
        (simp add: print_seq_def peek_def skip_ws_def wf_array_def)
  qed
qed

lemma reads_object:
  assumes "\<forall>(k, j) \<in> set ms. reads (pr j) j d \<and> no_nul k" "distinct (map fst ms)" "length ms \<le> 2 ^ 31"
  shows "reads (print_seq pretty level (CHR ''{'') (CHR ''}'') (map (\<lambda>(k, j). print_member cf pretty k (pr j)) ms))
    (JObject ms) (Suc d)"
proof (rule readsI)
  let ?pm = "\<lambda>(k, j). print_member cf pretty k (pr j)"
  let ?t = "print_seq pretty level (CHR ''{'') (CHR ''}'') (map ?pm ms)"
  show o: "opens_value ?t"
    by (simp add: opens_value_def print_seq_def isspace_def)
  fix f n rest
  assume n: "n + Suc d \<le> MAX_NESTING" and f: "3 * length (?t @ rest) + 2 \<le> f"
  obtain f' where f': "f = Suc f'" using f by (cases f) auto
  have p: "parse_value (Suc f) (?t @ rest) n = parse_object_value f (?t @ rest) (n + 1)"
    using n by (simp add: parse_value_printed [OF o]) (simp add: print_seq_def)
  show "\<exists>v. parse_value (Suc f) (?t @ rest) n = POk v rest \<and> wf_json v \<and> abs_json v = JObject ms"
  proof (cases "ms = []")
    case True
    then have "parse_object_value f (?t @ rest) (n + 1) = POk json_value_init_object rest"
      by (simp add: f' parse_object_value.simps print_seq_def peek_def skip_ws_def)
    with True p show ?thesis
      using wf_json_make abs_json_object [OF make_wf] by (simp add: json_value_init_object_def del: abs_json.simps)
  next
    case False
    let ?w = "if pretty then indentation level else []"
    have w: "list_all isspace ?w" by simp
    let ?s = "skip_ws (seq_body pretty level (map ?pm ms) @ ?w @ CHR ''}'' # rest)"
    have tl: "skip_ws (tl (?t @ rest)) = ?s"
      using False by (simp add: print_seq_def) (simp add: skip_ws_def)
    obtain k j ms2 where ms: "ms = (k, j) # ms2" using False by (cases ms) auto
    have om: "opens_value (print_member cf pretty k (pr j))"
      by (simp add: opens_value_def print_member_def print_string_def isspace_def)
    have "?s \<noteq> [] \<and> hd ?s = QUOT"
      unfolding ms list.map prod.case seq_body_skip [OF om] by (simp add: print_member_def print_string_def)
    then have "peek ?s \<noteq> CHR ''}''" by (cases ?s) (auto simp: peek_def)
    moreover have "length ?s < length (?t @ rest)"
      using skip_ws_length [of "seq_body pretty level (map ?pm ms) @ ?w @ CHR ''}'' # rest"] False by (simp add: print_seq_def)
    then have "3 * length ?s + 4 \<le> f'" using f f' by simp
    then obtain ob where ob: "parse_object_loop f' ?s (n + 1) json_object_make = POk ob (CHR ''}'' # rest)" "wf_json (VObject ob)"
      "map abs_pair (items ob) = ms"
      using object_loop_printed [OF assms(1) _ False w wf_json_make, of "n + 1" ?s pretty level cf rest f'] n assms(2,3)
      by auto
    moreover have "abs_json (VObject ob) = JObject ms"
      using ob(2,3) abs_json_object [of ob] by simp
    ultimately show ?thesis
      using p tl by (simp add: f' parse_object_value.simps Let_def del: wf_json.simps abs_json.simps)
        (simp add: print_seq_def peek_def skip_ws_def del: wf_json.simps abs_json.simps)
  qed
qed

lemma size_json_element: "j \<in> set js \<Longrightarrow> size j < size (JArray js)"
  by (induction js) auto

lemma reads_printed:
  assumes "default_numbers cf"
  shows "json_wf j \<Longrightarrow> json_deep j d \<Longrightarrow> json_all is_double j \<Longrightarrow> reads (print_json cf pretty level j) j d"
proof (induction j arbitrary: level d rule: measure_induct_rule [of size])
  case (less j)
  show ?case
  proof (cases j)
    case JNull
    have o: "opens_value ''null''" by (simp add: opens_value_def isspace_def)
    show ?thesis
      unfolding JNull print_json.simps
      by (rule readsI [OF o], simp add: parse_value_printed [OF o, simplified] isdigit_def code_def parse_null_value_def starts_with_def
          json_value_init_null_def)
  next
    case (JBoolean b)
    have o: "opens_value ''true''" "opens_value ''false''" by (simp_all add: opens_value_def isspace_def)
    show ?thesis
      unfolding JBoolean print_json.simps
      by (cases b; rule readsI, simp add: o, simp add: parse_value_printed [OF o(1), simplified]
          parse_value_printed [OF o(2), simplified] parse_boolean_value_def starts_with_def json_value_init_boolean_def)
  next
    case (JNumber q)
    then show ?thesis
      using reads_number less.prems(3) by (simp add: print_number_default [OF assms])
  next
    case (JString s)
    then show ?thesis by (simp add: reads_string)
  next
    case (JArray js)
    obtain d' where d: "d = Suc d'" using less.prems(2) JArray by (cases d) auto
    have "\<forall>x \<in> set js. reads (print_json cf pretty (level + 1) x) x d'"
      using less JArray d size_json_element by auto
    then show ?thesis
      unfolding JArray d print_json.simps by (rule reads_array)
  next
    case (JObject ms)
    obtain d' where d: "d = Suc d'" using less.prems(2) JObject by (cases d) auto
    have "\<forall>(k, x) \<in> set ms. reads (print_json cf pretty (level + 1) x) x d' \<and> no_nul k"
    proof (intro ballI, clarify)
      fix k x assume kx: "(k, x) \<in> set ms"
      then have "size x < size j" using size_json_member [OF kx] JObject by simp
      moreover have "json_wf x" "json_deep x d'" "json_all is_double x" "no_nul k"
        using kx less.prems JObject d by (auto simp: list_all_iff)
      ultimately show "reads (print_json cf pretty (level + 1) x) x d' \<and> no_nul k"
        using less.IH by simp
    qed
    then show ?thesis
      unfolding JObject d print_json.simps using less.prems(1) JObject by (intro reads_object) simp_all
  qed
qed

section \<open>The text is a C string\<close>

lemma no_nul_print_char: "no_nul (print_char cf c)"
proof (rule escape_token_cases [of cf c])
  fix d assume "print_char cf c = [BSLASH, d]" "simple_escape d = Some c"
  moreover have "simple_escape NUL = None" by (simp add: simple_escape_def)
  ultimately have "d \<noteq> NUL" by (cases "d = NUL") simp_all
  with \<open>print_char cf c = [BSLASH, d]\<close> show ?thesis by simp
next
  assume "print_char cf c = [BSLASH] @ ''u00'' @ [hex_digit (code c div 16), hex_digit (code c mod 16)]" "code c < 32"
  with hex_digit_plain [of "code c div 16"] hex_digit_plain [of "code c mod 16"] show ?thesis by simp
next
  assume "print_char cf c = [c]" "32 \<le> code c"
  then show ?thesis by (auto simp: code_def)
qed

lemma no_nul_print_string: "no_nul (print_string cf s)"
  using no_nul_print_char [of cf] by (auto simp: print_string_def no_nul_def)

lemma no_nul_spaces: "list_all isspace w \<Longrightarrow> no_nul w"
proof -
  assume "list_all isspace w"
  moreover have "\<not> isspace NUL" by (simp add: isspace_def)
  ultimately show ?thesis by (auto simp: no_nul_def list_all_iff)
qed

lemma no_nul_seq_body: "\<forall>t \<in> set ts. no_nul t \<Longrightarrow> no_nul (seq_body pretty level ts)"
  by (induction ts) (auto simp: no_nul_spaces)

lemma no_nul_print_seq:
  "\<forall>t \<in> set ts. no_nul t \<Longrightarrow> a \<noteq> NUL \<Longrightarrow> b \<noteq> NUL \<Longrightarrow> no_nul (print_seq pretty level a b ts)"
  by (auto simp: print_seq_def no_nul_spaces no_nul_seq_body)

lemma no_nul_number: "no_nul (sprintf_17g q)"
  by (rule sprintf_17g_shape [of q]) (auto simp: no_nul_def list_all_iff dest: number_charD)

lemma no_nul_print_json:
  assumes "default_numbers cf"
  shows "no_nul (print_json cf pretty level j)"
proof (induction j arbitrary: level rule: measure_induct_rule [of size])
  case (less j)
  show ?case
  proof (cases j)
    case (JArray js)
    then show ?thesis using less size_json_element by (auto intro!: no_nul_print_seq)
  next
    case (JObject ms)
    have "no_nul (print_json cf pretty (level + 1) x)" if "(k, x) \<in> set ms" for k x
      using less size_json_member [OF that] JObject by simp
    then show ?thesis
      using JObject no_nul_print_string by (auto intro!: no_nul_print_seq simp: print_member_def)
  qed (simp_all add: no_nul_print_string print_number_default [OF assms] no_nul_number)
qed

lemma print_json_head:
  assumes "default_numbers cf"
  shows "code (hd (print_json cf pretty level j)) < 128"
proof (cases j)
  case (JNumber q)
  show ?thesis
    unfolding JNumber print_json.simps print_number_default [OF assms]
    by (rule sprintf_17g_shape [of q]) (auto simp: isdigit_def code_def hd_append)
qed (simp_all add: print_string_def print_seq_def code_def)

section \<open>Properties of the serializer\<close>

lemma parse_printed:
  assumes "wf_json v" "depth v \<le> MAX_NESTING" "json_all is_double (abs_json v)" "default_numbers cf"
  shows "\<exists>w. json_parse_string (Some (print_json cf pretty 0 (abs_json v) @ [NUL])) = Some w \<and> wf_json w \<and> abs_json w = abs_json v"
proof -
  let ?t = "print_json cf pretty 0 (abs_json v)"
  have r: "reads ?t (abs_json v) MAX_NESTING"
    using reads_printed [OF assms(4) abs_json_wf [OF assms(1)] abs_json_deep [OF assms(1,2)] assms(3)] .
  then obtain w where w: "parse_value (parse_fuel ?t) ?t 0 = POk w []" "wf_json w" "abs_json w = abs_json v"
    using readsE [OF r, of "[]" "parse_fuel ?t" 0] by (auto simp: parse_fuel_def)
  have "cstr (?t @ [NUL]) = ?t"
    using no_nul_print_json [OF assms(4)] by (simp add: cstr_append_nul)
  moreover have "\<not> starts_with (map char_of [0xEF, 0xBB, 0xBF :: nat]) ?t"
  proof
    assume "starts_with (map char_of [0xEF, 0xBB, 0xBF :: nat]) ?t"
    then have "hd ?t = char_of (0xEF :: nat)"
      by (cases ?t) (simp_all add: starts_with_def)
    with print_json_head [OF assms(4), of pretty 0 "abs_json v"] show False
      by (simp only: code_char_of) simp
  qed
  ultimately show ?thesis
    using w by (simp add: json_parse_string_def presult_ptr_def Let_def)
qed

text \<open>C18. Serializing a well-formed value (compact or pretty) and parsing the result gives the same document again: every
  member in its order, every string byte for byte (control characters and embedded terminators included) and every number, whatever
  finite double it is. The text is shorter than 2 GiB and the value is nested at most \<open>MAX_NESTING\<close> deep, the limit of the parser.\<close>

theorem json_serialize_parse_roundtrip:
  assumes "wf_json v" and "depth v \<le> MAX_NESTING" and "json_all is_double (abs_json v)"
    and "default_numbers cf" and "length (print_json cf pretty 0 (abs_json v)) < 2 ^ 31"
  shows "\<exists>s w. serialize_to_string cf junk pretty (Some v) = SDone (Some s) \<and> json_parse_string (Some s) = Some w \<and>
    wf_json w \<and> abs_json w = abs_json v"
  using parse_printed [OF assms(1-4), of pretty] assms number_ok_default [OF assms(4)]
  by (simp add: serialize_to_string_print json_all_mono)

definition sample_conf :: serial_conf where
  "sample_conf = \<lparr>escape_slashes = 1, float_format = None, number_function = None, user_format = \<lambda>_ _. []\<rparr>"

definition sample_value :: json_value where
  "sample_value = VArray (JSON_Array [VNumber (- 3), VString [CHR ''/'', NUL, QUOT, LF], VArray (JSON_Array [] 0), VBoolean True] 16)"

lemma sample_serializable:
  "wf_json sample_value" "depth sample_value \<le> MAX_NESTING" "json_all is_double (abs_json sample_value)" "default_numbers sample_conf"
  using round_double_int [of "- 3"]
  by (simp_all add: sample_value_def sample_conf_def wf_array_def MAX_NESTING_def is_double_def default_numbers_def)

lemma sample_text: "length (print_json sample_conf True 0 (abs_json sample_value)) = 48"
  by code_simp

theorem json_serialize_parse_roundtrip_witness:
  "\<exists>s w. serialize_to_string sample_conf (\<lambda>_. NUL) True (Some sample_value) = SDone (Some s) \<and>
     json_parse_string (Some s) = Some w \<and> wf_json w \<and> abs_json w = abs_json sample_value"
  by (rule json_serialize_parse_roundtrip [OF sample_serializable]) (simp add: sample_text)

text \<open>C22. Serializing into a buffer of the caller never writes outside of it: when the text and its terminator fit into the size the caller
  states, they are stored at its start and the bytes behind them are left alone, and otherwise the call fails with the buffer
  untouched. The counting pass (\<^verbatim>\<open>json_serialization_size\<close>) and the writing pass agree on every byte. Numbers may be printed by a
  callback that keeps its contract (\<open>number_ok\<close>).\<close>

theorem json_serialize_to_buffer_safe:
  assumes "wf_json v" and "json_all (number_ok cf) (abs_json v)" and "length (print_json cf pretty 0 (abs_json v)) < 2 ^ 31"
    and "n \<le> length buf"
  shows "serialization_size cf pretty (Some v) = SDone (Suc (length (print_json cf pretty 0 (abs_json v)))) \<and>
    serialize_to_buffer cf pretty (Some v) buf n = SDone
      (let s = print_json cf pretty 0 (abs_json v) in
       if length s < n then (JSONSuccess, s @ [NUL] @ drop (length s + 1) buf) else (JSONFailure, buf))"
  using serialization_size_print [OF assms(1-3)] serialize_to_buffer_print [OF assms] by blast

theorem json_serialize_to_buffer_safe_witness:
  "serialization_size sample_conf True (Some sample_value) = SDone 49 \<and>
   serialize_to_buffer sample_conf True (Some sample_value) (replicate 60 CHR ''x'') 48 = SDone (JSONFailure, replicate 60 CHR ''x'')"
proof -
  have "json_all (number_ok sample_conf) (abs_json sample_value)"
    using sample_serializable(3) number_ok_default [OF sample_serializable(4)] by (rule json_all_mono)
  from json_serialize_to_buffer_safe [OF sample_serializable(1) this, of True 48 "replicate 60 CHR ''x''"] show ?thesis
    by (simp add: sample_text Let_def)
qed

text \<open>C23. Every finite double is printed in at most 24 characters (the array for a number has 64) and parsed back to the same double:
  seventeen significant digits are enough.\<close>

theorem json_number_roundtrip:
  assumes "default_numbers cf" and "is_double q" and "number_end rest"
  shows "number_bytes cf q = (int (length (print_number cf q)), print_number cf q @ [NUL]) \<and>
    length (print_number cf q) \<le> 24 \<and> parse_number_value (print_number cf q @ rest) = POk (VNumber q) rest"
proof -
  have "length (sprintf_17g q) \<le> 24"
    by (rule sprintf_17g_shape [of q]) (use assms(2) in blast)
  then show ?thesis
    using parse_number_printed [OF assms(2,3)] by (simp add: print_number_default [OF assms(1)] number_bytes_default [OF assms(1)])
qed

lemma five_quarters: "is_double (5 / 4)" "sprintf_17g (5 / 4) = ''1.25''"
proof -
  have "ilog2 (5 / 4) = 0" by code_simp
  moreover have "round_half_even 5629499534213120 = 5629499534213120"
    using round_half_even_int [of 5629499534213120] by simp
  ultimately show "is_double (5 / 4)"
    by (simp add: is_double_def round_double_def pow2_def)
  show "sprintf_17g (5 / 4) = ''1.25''" by code_simp
qed

theorem json_number_roundtrip_witness:
  "print_number sample_conf (5 / 4) = ''1.25'' \<and> parse_number_value ''1.25,'' = POk (VNumber (5 / 4)) '',''"
  using json_number_roundtrip [OF sample_serializable(4) five_quarters(1), of "'',''"]
  by (simp add: print_number_default [OF sample_serializable(4)] five_quarters(2))

end
