(* ===== verification/Parson_File.thy ===== *)
theory Parson_File
  imports Parson_Roundtrip
begin

text \<open>
  The functions of \<^verbatim>\<open>parson.c\<close> that read and write files. What the C library does is data: a file that is read has the size \<^verbatim>\<open>ftell\<close> reports, the bytes \<^verbatim>\<open>fread\<close>
  delivers and perhaps an error; a file that is written can fail to open, to take all bytes, or to close.
\<close>

section \<open>Reading\<close>

record in_file =
  told :: int
  delivered :: string
  read_error :: bool

definition parson_read_file :: "in_file option \<Rightarrow> string option" where
  "parson_read_file fp =
     (case fp of
        None \<Rightarrow> None
      | Some f \<Rightarrow>
          if told f < 0 then None
          else
            let file_contents = take (nat (told f)) (delivered f) in
            if length file_contents = 0 \<or> read_error f then None else Some (file_contents @ [NUL]))"

definition json_parse_file :: "in_file option \<Rightarrow> json_value option" where
  "json_parse_file fp = (case parson_read_file fp of None \<Rightarrow> None | Some file_contents \<Rightarrow> json_parse_string (Some file_contents))"

definition json_parse_file_with_comments :: "in_file option \<Rightarrow> json_value option" where
  "json_parse_file_with_comments fp =
     (case parson_read_file fp of None \<Rightarrow> None | Some file_contents \<Rightarrow> json_parse_string_with_comments file_contents)"

section \<open>Writing\<close>

text \<open>\<open>taken\<close> is how many bytes \<^verbatim>\<open>fputs\<close> writes before it fails, if it does.\<close>

record out_file =
  opens :: bool
  taken :: "nat option"
  closes :: bool

definition serialize_to_file ::
  "serial_conf \<Rightarrow> (nat \<Rightarrow> char) \<Rightarrow> bool \<Rightarrow> json_value option \<Rightarrow> out_file \<Rightarrow> (json_status \<times> string option) serial" where
  "serialize_to_file cf junk pretty value fl =
     sbind (serialize_to_string cf junk pretty value) (\<lambda>serialized_string.
       case serialized_string of
         None \<Rightarrow> SDone (JSONFailure, None)
       | Some s \<Rightarrow>
           if \<not> opens fl then SDone (JSONFailure, None)
           else SDone (if taken fl \<noteq> None \<or> \<not> closes fl then JSONFailure else JSONSuccess,
                  Some (case taken fl of None \<Rightarrow> cstr s | Some n \<Rightarrow> take n (cstr s))))"

definition json_serialize_to_file ::
  "serial_conf \<Rightarrow> (nat \<Rightarrow> char) \<Rightarrow> json_value option \<Rightarrow> out_file \<Rightarrow> (json_status \<times> string option) serial" where
  "json_serialize_to_file cf junk = serialize_to_file cf junk False"

definition json_serialize_to_file_pretty ::
  "serial_conf \<Rightarrow> (nat \<Rightarrow> char) \<Rightarrow> json_value option \<Rightarrow> out_file \<Rightarrow> (json_status \<times> string option) serial" where
  "json_serialize_to_file_pretty cf junk = serialize_to_file cf junk True"

section \<open>Through a file and back\<close>

text \<open>A success means that the file holds the whole document: read without an error it is the same document again.\<close>

lemma file_roundtrip:
  assumes v: "wf_json v" "depth v \<le> MAX_NESTING" "json_all is_double (abs_json v)" "default_numbers cf"
      "length (print_json cf pretty 0 (abs_json v)) < 2 ^ 31"
    and w: "serialize_to_file cf junk pretty (Some v) fl = SDone (JSONSuccess, Some s)"
    and r: "told f = int (length s)" "delivered f = s" "\<not> read_error f"
  shows "\<exists>w. json_parse_file (Some f) = Some w \<and> wf_json w \<and> abs_json w = abs_json v"
proof -
  let ?t = "print_json cf pretty 0 (abs_json v)"
  have "json_all (number_ok cf) (abs_json v)"
    using v(3) number_ok_default [OF v(4)] by (rule json_all_mono)
  then have "serialize_to_string cf junk pretty (Some v) = SDone (Some (?t @ [NUL]))"
    using v(1,5) by (intro serialize_to_string_print)
  then have s: "s = ?t"
    using w no_nul_print_json [OF v(4)] by (auto simp: serialize_to_file_def cstr_append_nul split: if_splits)
  have "reads ?t (abs_json v) MAX_NESTING"
    using reads_printed [OF v(4) abs_json_wf [OF v(1)] abs_json_deep [OF v(1,2)] v(3)] .
  then have "?t \<noteq> []"
    by (simp add: reads_def opens_value_def)
  then have "json_parse_file (Some f) = json_parse_string (Some (?t @ [NUL]))"
    using r s by (simp add: json_parse_file_def parson_read_file_def Let_def)
  with parse_printed [OF v(1-4), of pretty] show ?thesis by simp
qed

end
