(* ===== verification/C_Heap.thy ===== *)
theory C_Heap
  imports Prelude
begin

text \<open>
  The heap of a C program. A block is whatever one call of \<^verbatim>\<open>malloc\<close> gives: a structure, an array, a string. Addresses are numbers and \<open>0\<close> is the null
  pointer. Addresses are not used twice, so a pointer to a block that was freed never points to a living block again, and using it is undefined.
  \<open>refuses\<close> tells which allocations fail.

  A computation ends with \<open>MDone\<close>, is undefined (\<open>MUndef\<close>: a block that is not there is read, written or freed), or runs out of the fuel that
  stands for its time (\<open>MOut\<close>).
\<close>

section \<open>Blocks\<close>

type_synonym addr = nat

record 'o mem =
  blocks :: "addr \<Rightarrow> 'o option"
  next_addr :: addr
  refuses :: "nat \<Rightarrow> bool"

datatype 'a run = MUndef | MOut | MDone 'a

fun mbind :: "'a run \<Rightarrow> ('a \<Rightarrow> 'b run) \<Rightarrow> 'b run" where
  "mbind (MDone x) f = f x"
| "mbind MUndef f = MUndef"
| "mbind MOut f = MOut"

definition mload :: "addr \<Rightarrow> 'o mem \<Rightarrow> 'o run" where
  "mload p m = (case blocks m p of None \<Rightarrow> MUndef | Some x \<Rightarrow> MDone x)"

definition mstore :: "addr \<Rightarrow> 'o \<Rightarrow> 'o mem \<Rightarrow> 'o mem run" where
  "mstore p x m = (case blocks m p of None \<Rightarrow> MUndef | Some _ \<Rightarrow> MDone (m\<lparr>blocks := (blocks m)(p \<mapsto> x)\<rparr>))"

definition mfree :: "addr \<Rightarrow> 'o mem \<Rightarrow> 'o mem run" where
  "mfree p m =
     (if p = 0 then MDone m
      else case blocks m p of None \<Rightarrow> MUndef | Some _ \<Rightarrow> MDone (m\<lparr>blocks := (blocks m)(p := None)\<rparr>))"

fun mfree_all :: "addr list \<Rightarrow> 'o mem \<Rightarrow> 'o mem run" where
  "mfree_all [] m = MDone m"
| "mfree_all (p # ps) m = mbind (mfree p m) (mfree_all ps)"

definition malloc :: "'o \<Rightarrow> 'o mem \<Rightarrow> addr \<times> 'o mem" where
  "malloc x m =
     (let p = next_addr m; m1 = m\<lparr>next_addr := Suc p\<rparr> in
      if refuses m p then (0, m1) else (p, m1\<lparr>blocks := (blocks m)(p \<mapsto> x)\<rparr>))"

definition wf_mem :: "'o mem \<Rightarrow> bool" where
  "wf_mem m \<longleftrightarrow> 0 < next_addr m \<and> blocks m 0 = None \<and> (\<forall>p \<ge> next_addr m. blocks m p = None)"

section \<open>Releasing a set of blocks\<close>

definition release :: "addr set \<Rightarrow> 'o mem \<Rightarrow> 'o mem" where
  "release A m = m\<lparr>blocks := \<lambda>p. if p \<in> A then None else blocks m p\<rparr>"

lemma release_empty [simp]: "release {} m = m"
  by (simp add: release_def)

lemma release_release [simp]: "release A (release B m) = release (A \<union> B) m"
  by (simp add: release_def fun_eq_iff)

lemma blocks_release [simp]: "blocks (release A m) p = (if p \<in> A then None else blocks m p)"
  by (simp add: release_def)

lemma next_addr_release [simp]: "next_addr (release A m) = next_addr m"
  by (simp add: release_def)

lemma refuses_release [simp]: "refuses (release A m) = refuses m"
  by (simp add: release_def)

lemma wf_mem_release: "wf_mem m \<Longrightarrow> wf_mem (release A m)"
  by (simp add: wf_mem_def)

lemma mload_live: "blocks m p = Some x \<Longrightarrow> mload p m = MDone x"
  by (simp add: mload_def)

lemma mfree_null [simp]: "mfree 0 m = MDone m"
  by (simp add: mfree_def)

lemma mfree_live: "blocks m p = Some x \<Longrightarrow> p \<noteq> 0 \<Longrightarrow> mfree p m = MDone (release {p} m)"
  by (simp add: mfree_def release_def fun_upd_def)

lemma mfree_allocated: "blocks m p \<noteq> None \<Longrightarrow> p \<noteq> 0 \<Longrightarrow> mfree p m = MDone (release {p} m)"
  by (auto simp: mfree_live)

lemma mfree_all_live:
  "distinct ps \<Longrightarrow> \<forall>p \<in> set ps. p \<noteq> 0 \<and> blocks m p \<noteq> None \<Longrightarrow> mfree_all ps m = MDone (release (set ps) m)"
proof (induction ps arbitrary: m)
  case (Cons p ps)
  then have "mfree_all ps (release {p} m) = MDone (release (set ps) (release {p} m))" by (intro Cons.IH) auto
  with Cons.prems show ?case by (simp add: mfree_allocated insert_is_Un [symmetric] Un_commute)
qed simp

lemma mfree_all_null: "set ps \<subseteq> {0} \<Longrightarrow> mfree_all ps m = MDone m"
  by (induction ps) auto

lemma mstore_live: "blocks m p = Some y \<Longrightarrow> mstore p x m = MDone (m\<lparr>blocks := (blocks m)(p \<mapsto> x)\<rparr>)"
  by (simp add: mstore_def)

section \<open>A part of the heap\<close>

text \<open>\<open>m\<close> is \<open>m0\<close> with the further blocks \<open>A\<close>.\<close>

definition extends :: "'o mem \<Rightarrow> addr set \<Rightarrow> 'o mem \<Rightarrow> bool" where
  "extends m0 A m \<longleftrightarrow> wf_mem m \<and> (\<forall>p. p \<notin> A \<longrightarrow> blocks m p = blocks m0 p) \<and> (\<forall>p \<in> A. blocks m0 p = None \<and> blocks m p \<noteq> None)"

lemma extends_release: "extends m0 A m \<Longrightarrow> blocks (release A m) = blocks m0"
  by (auto simp: extends_def fun_eq_iff)

end
