(* ===== verification/Parson_Heap.thy ===== *)
theory Parson_Heap
  imports Parson_Json C_Heap
begin

text \<open>
  The values of \<^verbatim>\<open>parson.c\<close> as they lie in memory: a \<^verbatim>\<open>JSON_Value\<close> with the pointer to its parent, the structure of an object or an array with the pointer back
  to its wrapping value, the arrays they own, and the names and strings. This is where values are made, handed over, replaced and
  released; what they mean is the model of \<^verbatim>\<open>Parson_Value\<close>.

  \<open>stored m par L v\<close> relates the two: the blocks that the layout \<open>L\<close> lists hold the value \<open>v\<close>, whose parent is \<open>par\<close>.
\<close>

section \<open>Blocks\<close>

text \<open>An array of pointers has a capacity and an initialised part; the slots behind it must not be read.\<close>

record h_object =
  o_wrapping :: addr
  o_cells :: addr
  o_hashes :: addr
  o_names :: addr
  o_values :: addr
  o_cell_ixs :: addr
  o_count :: nat
  o_item_capacity :: nat
  o_cell_capacity :: nat

record h_array =
  a_wrapping :: addr
  a_items :: addr
  a_count :: nat
  a_capacity :: nat

datatype h_union =
  UNull | UString addr nat | UNumber rat | UObject addr | UArray addr | UBoolean bool

datatype h_block =
    BValue addr h_union
  | BObject h_object
  | BArray h_array
  | BChars string
  | BCells "nat option list"
  | BHashes "u64 list"
  | BIxs "nat list"
  | BPtrs nat "addr list"

type_synonym jmem = "h_block mem"

definition load_value :: "addr \<Rightarrow> jmem \<Rightarrow> (addr \<times> h_union) run" where
  "load_value p m = mbind (mload p m) (\<lambda>b. case b of BValue par u \<Rightarrow> MDone (par, u) | _ \<Rightarrow> MUndef)"

definition load_object :: "addr \<Rightarrow> jmem \<Rightarrow> h_object run" where
  "load_object p m = mbind (mload p m) (\<lambda>b. case b of BObject r \<Rightarrow> MDone r | _ \<Rightarrow> MUndef)"

definition load_array :: "addr \<Rightarrow> jmem \<Rightarrow> h_array run" where
  "load_array p m = mbind (mload p m) (\<lambda>b. case b of BArray r \<Rightarrow> MDone r | _ \<Rightarrow> MUndef)"

definition load_ptr :: "addr \<Rightarrow> nat \<Rightarrow> jmem \<Rightarrow> addr run" where
  "load_ptr p i m =
     mbind (mload p m) (\<lambda>b. case b of BPtrs cap xs \<Rightarrow> if i < length xs then MDone (xs ! i) else MUndef | _ \<Rightarrow> MUndef)"

definition store_ptr :: "addr \<Rightarrow> nat \<Rightarrow> addr \<Rightarrow> jmem \<Rightarrow> jmem run" where
  "store_ptr p i q m =
     mbind (mload p m) (\<lambda>b. case b of
         BPtrs cap xs \<Rightarrow> if i < cap \<and> i \<le> length xs then mstore p (BPtrs cap (take i xs @ [q] @ drop (Suc i) xs)) m else MUndef
       | _ \<Rightarrow> MUndef)"

section \<open>Release\<close>

text \<open>The loop over the members of an object counts in an \<^verbatim>\<open>unsigned int\<close>.\<close>

definition next_u32 :: "nat \<Rightarrow> nat" where
  "next_u32 i = Suc i mod 4294967296"

text \<open>\<^verbatim>\<open>json_object_deinit\<close> after its loop\<close>

definition object_deinit_arrays :: "addr \<Rightarrow> jmem \<Rightarrow> jmem run" where
  "object_deinit_arrays ob m =
     mbind (load_object ob m) (\<lambda>r.
     mbind (mstore ob (BObject (r\<lparr>o_count := 0, o_item_capacity := 0, o_cell_capacity := 0\<rparr>)) m) (\<lambda>m1.
     mbind (mfree_all [o_cells r, o_names r, o_values r, o_cell_ixs r, o_hashes r] m1) (\<lambda>m2.
     mstore ob (BObject \<lparr>o_wrapping = o_wrapping r, o_cells = 0, o_hashes = 0, o_names = 0, o_values = 0, o_cell_ixs = 0,
       o_count = 0, o_item_capacity = 0, o_cell_capacity = 0\<rparr>) m2)))"

text \<open>
  The functions call each other in a circle. \<open>free_value\<close> is the call of \<^verbatim>\<open>json_value_free\<close> on the level below; every loop gets the
  fuel of its level.
\<close>

fun object_deinit_loop :: "(addr \<Rightarrow> jmem \<Rightarrow> jmem run) \<Rightarrow> nat \<Rightarrow> addr \<Rightarrow> bool \<Rightarrow> bool \<Rightarrow> nat \<Rightarrow> jmem \<Rightarrow> jmem run" where
  "object_deinit_loop free_value 0 ob free_keys free_values i m = MOut"
| "object_deinit_loop free_value (Suc n) ob free_keys free_values i m =
     mbind (load_object ob m) (\<lambda>r.
       if i < o_count r then
         mbind (if free_keys then mbind (load_ptr (o_names r) i m) (\<lambda>p. mfree p m) else MDone m) (\<lambda>m1.
         mbind (if free_values then mbind (load_ptr (o_values r) i m1) (\<lambda>p. free_value p m1) else MDone m1)
           (object_deinit_loop free_value n ob free_keys free_values (next_u32 i)))
       else MDone m)"

definition h_json_object_deinit :: "(addr \<Rightarrow> jmem \<Rightarrow> jmem run) \<Rightarrow> nat \<Rightarrow> addr \<Rightarrow> bool \<Rightarrow> bool \<Rightarrow> jmem \<Rightarrow> jmem run" where
  "h_json_object_deinit free_value n ob free_keys free_values m =
     mbind (object_deinit_loop free_value n ob free_keys free_values 0 m) (object_deinit_arrays ob)"

definition h_json_object_free :: "(addr \<Rightarrow> jmem \<Rightarrow> jmem run) \<Rightarrow> nat \<Rightarrow> addr \<Rightarrow> jmem \<Rightarrow> jmem run" where
  "h_json_object_free free_value n ob m = mbind (h_json_object_deinit free_value n ob True True m) (mfree ob)"

fun array_free_loop :: "(addr \<Rightarrow> jmem \<Rightarrow> jmem run) \<Rightarrow> nat \<Rightarrow> addr \<Rightarrow> nat \<Rightarrow> jmem \<Rightarrow> jmem run" where
  "array_free_loop free_value 0 a i m = MOut"
| "array_free_loop free_value (Suc n) a i m =
     mbind (load_array a m) (\<lambda>r.
       if i < a_count r then
         mbind (load_ptr (a_items r) i m) (\<lambda>p. mbind (free_value p m) (array_free_loop free_value n a (Suc i)))
       else MDone m)"

definition h_json_array_free :: "(addr \<Rightarrow> jmem \<Rightarrow> jmem run) \<Rightarrow> nat \<Rightarrow> addr \<Rightarrow> jmem \<Rightarrow> jmem run" where
  "h_json_array_free free_value n a m =
     mbind (array_free_loop free_value n a 0 m) (\<lambda>m1.
     mbind (load_array a m1) (\<lambda>r. mbind (mfree (a_items r) m1) (mfree a)))"

primrec h_json_value_free :: "nat \<Rightarrow> addr \<Rightarrow> jmem \<Rightarrow> jmem run" where
  "h_json_value_free 0 p m = MOut"
| "h_json_value_free (Suc n) p m =
     (if p = 0 then mfree p m
      else mbind (load_value p m) (\<lambda>(par, u).
        mbind (case u of
                 UObject ob \<Rightarrow> h_json_object_free (h_json_value_free n) n ob m
               | UString chars len \<Rightarrow> mfree chars m
               | UArray a \<Rightarrow> h_json_array_free (h_json_value_free n) n a m
               | _ \<Rightarrow> MDone m)
          (mfree p)))"

section \<open>Layouts\<close>

datatype layout =
    LScalar addr
  | LString addr addr
  | LArray addr addr addr "layout list"
  | LObject addr addr "addr list" "addr list" "layout list"

fun root :: "layout \<Rightarrow> addr" where
  "root (LScalar p) = p"
| "root (LString p c) = p"
| "root (LArray p a it Ls) = p"
| "root (LObject p ob arrs ns Ls) = p"

text \<open>All blocks of a value; an array of capacity zero is a null pointer and no block.\<close>

fun own :: "layout \<Rightarrow> addr list" where
  "own (LScalar p) = [p]"
| "own (LString p c) = [p, c]"
| "own (LArray p a it Ls) = [p, a] @ (if it = 0 then [] else [it]) @ concat (map own Ls)"
| "own (LObject p ob arrs ns Ls) = [p, ob] @ arrs @ ns @ concat (map own Ls)"

definition holds_ptrs :: "jmem \<Rightarrow> addr \<Rightarrow> nat \<Rightarrow> addr list \<Rightarrow> bool" where
  "holds_ptrs m p cap ps \<longleftrightarrow>
     (case blocks m p of Some (BPtrs c xs) \<Rightarrow> c = cap \<and> length xs \<le> cap \<and> length ps \<le> length xs \<and> take (length ps) xs = ps | _ \<Rightarrow> False)"

text \<open>The five arrays of an object, in the order in which they are released\<close>

definition holds_arrays :: "jmem \<Rightarrow> addr list \<Rightarrow> h_object \<Rightarrow> 'v json_object \<Rightarrow> addr list \<Rightarrow> addr list \<Rightarrow> bool" where
  "holds_arrays m arrs r t ns vs \<longleftrightarrow>
     (if cell_capacity t = 0
      then arrs = [] \<and> o_cells r = 0 \<and> o_hashes r = 0 \<and> o_names r = 0 \<and> o_values r = 0 \<and> o_cell_ixs r = 0
      else arrs = [o_cells r, o_names r, o_values r, o_cell_ixs r, o_hashes r] \<and> 0 \<notin> set arrs \<and>
        blocks m (o_cells r) = Some (BCells (cells t)) \<and> blocks m (o_hashes r) = Some (BHashes (hashes t)) \<and>
        holds_ptrs m (o_names r) (item_capacity t) ns \<and> holds_ptrs m (o_values r) (item_capacity t) vs \<and>
        blocks m (o_cell_ixs r) = Some (BIxs (cell_ixs t)))"

definition holds_object :: "jmem \<Rightarrow> addr \<Rightarrow> addr \<Rightarrow> addr list \<Rightarrow> 'v json_object \<Rightarrow> addr list \<Rightarrow> addr list \<Rightarrow> bool" where
  "holds_object m p ob arrs t ns vs \<longleftrightarrow>
     (case blocks m ob of
        Some (BObject r) \<Rightarrow> o_wrapping r = p \<and> o_count r = count t \<and> o_item_capacity r = item_capacity t \<and>
          o_cell_capacity r = cell_capacity t \<and> holds_arrays m arrs r t ns vs
      | _ \<Rightarrow> False)"

lemma list_all2_fundef_cong [fundef_cong]:
  "xs = ys \<Longrightarrow> vs = ws \<Longrightarrow> (\<And>x v. x \<in> set ys \<Longrightarrow> v \<in> set ws \<Longrightarrow> R x v \<longleftrightarrow> S x v) \<Longrightarrow> list_all2 R xs vs \<longleftrightarrow> list_all2 S ys ws"
  by (rule list.rel_cong)

fun stored :: "jmem \<Rightarrow> addr \<Rightarrow> layout \<Rightarrow> json_value \<Rightarrow> bool" where
  "stored m par (LScalar p) v \<longleftrightarrow>
     p \<noteq> 0 \<and> blocks m p =
       (case v of
          VNull \<Rightarrow> Some (BValue par UNull) | VNumber q \<Rightarrow> Some (BValue par (UNumber q)) | VBoolean b \<Rightarrow> Some (BValue par (UBoolean b))
        | _ \<Rightarrow> None) \<and> blocks m p \<noteq> None"
| "stored m par (LString p c) v \<longleftrightarrow>
     (\<exists>s. v = VString s \<and> p \<noteq> 0 \<and> c \<noteq> 0 \<and> blocks m p = Some (BValue par (UString c (length s))) \<and> blocks m c = Some (BChars (s @ [NUL])))"
| "stored m par (LArray p a it Ls) v \<longleftrightarrow>
     (\<exists>t. v = VArray t \<and> p \<noteq> 0 \<and> a \<noteq> 0 \<and> blocks m p = Some (BValue par (UArray a)) \<and>
        blocks m a = Some (BArray \<lparr>a_wrapping = p, a_items = it, a_count = length Ls, a_capacity = arr_capacity t\<rparr>) \<and>
        (if arr_capacity t = 0 then it = 0 else it \<noteq> 0 \<and> holds_ptrs m it (arr_capacity t) (map root Ls)) \<and>
        list_all2 (stored m p) Ls (arr_items t))"
| "stored m par (LObject p ob arrs ns Ls) v \<longleftrightarrow>
     (\<exists>t. v = VObject t \<and> p \<noteq> 0 \<and> ob \<noteq> 0 \<and> blocks m p = Some (BValue par (UObject ob)) \<and>
        holds_object m p ob arrs t ns (map root Ls) \<and>
        length ns = count t \<and> 0 \<notin> set ns \<and> map (blocks m) ns = map (\<lambda>s. Some (BChars (s @ [NUL]))) (names t) \<and>
        list_all2 (stored m p) Ls (vals t))"

section \<open>What the release of a value does\<close>

lemma holds_ptrs_frame: "holds_ptrs m p cap ps \<Longrightarrow> blocks m' p = blocks m p \<Longrightarrow> holds_ptrs m' p cap ps"
  by (simp add: holds_ptrs_def)

lemma holds_ptrs_live: "holds_ptrs m p cap ps \<Longrightarrow> blocks m p \<noteq> None"
  by (auto simp: holds_ptrs_def split: option.splits)

lemma holds_object_frame:
  assumes "holds_object m p ob arrs t ns vs" "blocks m' ob = blocks m ob" "\<forall>q \<in> set arrs. blocks m' q = blocks m q"
  shows "holds_object m' p ob arrs t ns vs"
  using assms
  by (auto simp: holds_object_def holds_arrays_def split: option.splits h_block.splits if_splits elim!: holds_ptrs_frame)

lemma holds_object_live:
  "holds_object m p ob arrs t ns vs \<Longrightarrow> blocks m ob \<noteq> None \<and> (\<forall>q \<in> set arrs. q \<noteq> 0 \<and> blocks m q \<noteq> None)"
  by (auto simp: holds_object_def holds_arrays_def dest: holds_ptrs_live split: option.splits h_block.splits if_splits)

lemma list_all2_frame:
  assumes "list_all2 P xs vs" "\<And>x v. x \<in> set xs \<Longrightarrow> P x v \<Longrightarrow> Q x v"
  shows "list_all2 Q xs vs"
  using assms by (auto simp: list_all2_conv_all_nth)

text \<open>A value depends on its own blocks only, and these are all allocated.\<close>

lemma stored_frame: "stored m par L v \<Longrightarrow> \<forall>q \<in> set (own L). blocks m' q = blocks m q \<Longrightarrow> stored m' par L v"
proof (induction L arbitrary: par v)
  case (LArray p a it Ls)
  then obtain t where t: "v = VArray t" "list_all2 (stored m p) Ls (arr_items t)" by auto
  have "list_all2 (stored m' p) Ls (arr_items t)"
    using t(2) by (rule list_all2_frame) (rule LArray.IH; use LArray.prems in auto)
  with LArray.prems t show ?case by (auto elim: holds_ptrs_frame split: if_splits)
next
  case (LObject p ob arrs ns Ls)
  then obtain t where t: "v = VObject t" "list_all2 (stored m p) Ls (vals t)" "holds_object m p ob arrs t ns (map root Ls)" by auto
  have "list_all2 (stored m' p) Ls (vals t)"
    using t(2) by (rule list_all2_frame) (rule LObject.IH; use LObject.prems in auto)
  moreover have "holds_object m' p ob arrs t ns (map root Ls)"
    using t(3) by (rule holds_object_frame) (use LObject.prems in auto)
  moreover have "map (blocks m') ns = map (\<lambda>s. Some (BChars (s @ [NUL]))) (names t)"
  proof -
    have "map (blocks m') ns = map (blocks m) ns" using LObject.prems(2) by auto
    with LObject.prems(1) t(1) show ?thesis by simp
  qed
  ultimately show ?case using LObject.prems t(1) by simp
qed (auto split: json_value.splits)

lemma stored_live: "stored m par L v \<Longrightarrow> q \<in> set (own L) \<Longrightarrow> q \<noteq> 0 \<and> blocks m q \<noteq> None"
proof (induction L arbitrary: par v)
  case (LArray p a it Ls)
  then obtain t where t: "v = VArray t" "list_all2 (stored m p) Ls (arr_items t)" by auto
  { fix L assume L: "L \<in> set Ls" "q \<in> set (own L)"
    with t(2) obtain w where "stored m p L w" by (auto simp: list_all2_conv_all_nth in_set_conv_nth)
    with LArray.IH L have ?case by blast }
  with LArray.prems t(1) show ?case by (auto dest: holds_ptrs_live split: if_splits)
next
  case (LObject p ob arrs ns Ls)
  then obtain t where t: "v = VObject t" "list_all2 (stored m p) Ls (vals t)" "holds_object m p ob arrs t ns (map root Ls)" by auto
  { fix L assume L: "L \<in> set Ls" "q \<in> set (own L)"
    with t(2) obtain w where "stored m p L w" by (auto simp: list_all2_conv_all_nth in_set_conv_nth)
    with LObject.IH L have ?case by blast }
  moreover have "q \<in> set ns \<Longrightarrow> ?case"
  proof -
    assume q: "q \<in> set ns"
    then have "blocks m q \<in> set (map (blocks m) ns)" by simp
    also have "map (blocks m) ns = map (\<lambda>s. Some (BChars (s @ [NUL]))) (names t)" using LObject.prems t(1) by auto
    finally show ?thesis using q LObject.prems by (cases "q = 0") auto
  qed
  ultimately show ?case using LObject.prems t(1) holds_object_live [OF t(3)] by auto
qed (auto split: json_value.splits)

lemma stored_release: "stored m par L v \<Longrightarrow> set (own L) \<inter> A = {} \<Longrightarrow> stored (release A m) par L v"
  by (rule stored_frame) auto

text \<open>The fuel that is enough to release a value\<close>

fun free_fuel :: "layout \<Rightarrow> nat" where
  "free_fuel (LScalar p) = 1"
| "free_fuel (LString p c) = 1"
| "free_fuel (LArray p a it Ls) = 2 + length Ls + sum_list (map free_fuel Ls)"
| "free_fuel (LObject p ob arrs ns Ls) = 2 + length Ls + sum_list (map free_fuel Ls)"

lemma free_fuel_elem: "L \<in> set Ls \<Longrightarrow> free_fuel L \<le> sum_list (map free_fuel Ls)"
  by (induction Ls) auto

text \<open>\<open>frees f L\<close>: \<open>f\<close> releases the value that \<open>L\<close> lays out, wherever it is stored.\<close>

definition frees :: "(addr \<Rightarrow> jmem \<Rightarrow> jmem run) \<Rightarrow> layout \<Rightarrow> json_value \<Rightarrow> bool" where
  "frees f L v \<longleftrightarrow> (\<forall>m par. stored m par L v \<longrightarrow> f (root L) m = MDone (release (set (own L)) m))"

lemma load_ptr_nth: "holds_ptrs m q cap ps \<Longrightarrow> i < length ps \<Longrightarrow> load_ptr q i m = MDone (ps ! i)"
  by (auto simp: holds_ptrs_def load_ptr_def mload_def split: option.splits h_block.splits) (metis nth_take)

lemma load_ptr_prefix: "holds_ptrs m q cap (map root (pre @ K # Ks)) \<Longrightarrow> load_ptr q (length pre) m = MDone (root K)"
  by (drule load_ptr_nth [where i = "length pre"]) (simp_all add: nth_append)

lemma array_free_loop_stored:
  assumes "list_all2 (stored m p) Ks vs" "list_all2 (frees f) Ks vs"
    and "blocks m a = Some (BArray r)" "a_count r = length (pre @ Ks)" "Ks \<noteq> [] \<Longrightarrow> holds_ptrs m (a_items r) cap (map root (pre @ Ks))"
    and "distinct (concat (map own Ks))" "a \<notin> set (concat (map own Ks))" "a_items r \<notin> set (concat (map own Ks))" "length Ks < n"
  shows "array_free_loop f n a (length pre) m = MDone (release (set (concat (map own Ks))) m)"
  using assms
proof (induction Ks arbitrary: m pre vs n)
  case Nil
  then obtain k where "n = Suc k" by (cases n) auto
  with Nil show ?case by (simp add: load_array_def mload_live)
next
  case (Cons K Ks)
  from Cons.prems obtain k where k: "n = Suc k" "length Ks < k" by (cases n) auto
  from Cons.prems obtain v ws where vs: "vs = v # ws" "stored m p K v" "list_all2 (stored m p) Ks ws" "frees f K v" "list_all2 (frees f) Ks ws"
    by (auto simp: list_all2_Cons1)
  let ?m = "release (set (own K)) m"
  have "array_free_loop f k a (length (pre @ [K])) ?m = MDone (release (set (concat (map own Ks))) ?m)"
  proof (rule Cons.IH)
    show "list_all2 (stored ?m p) Ks ws"
      using vs(3) by (rule list_all2_frame) (use Cons.prems in \<open>auto intro!: stored_release\<close>)
    show "holds_ptrs ?m (a_items r) cap (map root ((pre @ [K]) @ Ks))"
      by (rule holds_ptrs_frame [where m = m]) (use Cons.prems in auto)
  qed (use Cons.prems vs k in auto)
  moreover have "load_ptr (a_items r) (length pre) m = MDone (root K)"
    using Cons.prems by (intro load_ptr_prefix) simp
  moreover have "f (root K) m = MDone ?m"
    using vs(2,4) unfolding frees_def by blast
  ultimately show ?case
    using Cons.prems(3,4) k by (simp add: load_array_def mload_live Un_commute)
qed

lemma next_u32_less: "i < n \<Longrightarrow> n \<le> 2 ^ 31 \<Longrightarrow> next_u32 i = Suc i"
  by (simp add: next_u32_def)

lemma object_deinit_loop_stored:
  assumes "list_all2 (stored m p) Ks vs" "list_all2 (frees f) Ks vs"
    and "blocks m ob = Some (BObject r)" "o_count r = length (pre @ Ks)" "o_count r \<le> 2 ^ 31"
    and "length ns = length (pre @ Ks)"
    and "Ks \<noteq> [] \<Longrightarrow> holds_ptrs m (o_names r) cap ns \<and> holds_ptrs m (o_values r) cap (map root (pre @ Ks))"
    and "\<forall>q \<in> set (drop (length pre) ns). q \<noteq> 0 \<and> blocks m q \<noteq> None"
    and "distinct (drop (length pre) ns @ concat (map own Ks))"
    and "{ob, o_names r, o_values r} \<inter> set (drop (length pre) ns @ concat (map own Ks)) = {}" "length Ks < n"
  shows "object_deinit_loop f n ob True True (length pre) m = MDone (release (set (drop (length pre) ns @ concat (map own Ks))) m)"
  using assms
proof (induction Ks arbitrary: m pre vs n)
  case Nil
  then obtain k where "n = Suc k" by (cases n) auto
  with Nil show ?case by (simp add: load_object_def mload_live)
next
  case (Cons K Ks)
  from Cons.prems obtain k where k: "n = Suc k" "length Ks < k" by (cases n) auto
  from Cons.prems obtain v ws where vs: "vs = v # ws" "stored m p K v" "list_all2 (stored m p) Ks ws" "frees f K v" "list_all2 (frees f) Ks ws"
    by (auto simp: list_all2_Cons1)
  let ?i = "length pre" and ?q = "ns ! length pre"
  have ns: "drop ?i ns = ?q # drop (Suc ?i) ns"
    using Cons.prems(6) by (simp add: Cons_nth_drop_Suc)
  have h: "holds_ptrs m (o_names r) cap ns" "holds_ptrs m (o_values r) cap (map root (pre @ K # Ks))"
    using Cons.prems(7) by auto
  have apart: "o_names r \<notin> set (own K) \<union> {?q}" "o_values r \<notin> set (own K) \<union> {?q}"
    using Cons.prems(10) ns by auto
  let ?m1 = "release {?q} m" and ?m = "release (set (own K) \<union> {?q}) m"
  have "object_deinit_loop f k ob True True (length (pre @ [K])) ?m =
      MDone (release (set (drop (length (pre @ [K])) ns @ concat (map own Ks))) ?m)"
  proof (rule Cons.IH)
    show "list_all2 (stored ?m p) Ks ws"
      using vs(3) by (rule list_all2_frame) (use Cons.prems(9) ns in \<open>auto intro!: stored_release\<close>)
    show "holds_ptrs ?m (o_names r) cap ns \<and> holds_ptrs ?m (o_values r) cap (map root ((pre @ [K]) @ Ks))"
      using holds_ptrs_frame [OF h(1), of ?m] holds_ptrs_frame [OF h(2), of ?m] apart by simp
    show "\<forall>q \<in> set (drop (length (pre @ [K])) ns). q \<noteq> 0 \<and> blocks ?m q \<noteq> None"
      using Cons.prems(8,9) ns by auto
  qed (use Cons.prems vs k ns in auto)
  moreover have "load_ptr (o_names r) ?i m = MDone ?q"
    using Cons.prems(6,7) by (intro load_ptr_nth) auto
  moreover have "mfree ?q m = MDone ?m1"
    using Cons.prems(8) unfolding ns by (intro mfree_allocated) auto
  moreover have "load_ptr (o_values r) ?i ?m1 = MDone (root K)"
    using load_ptr_prefix [OF holds_ptrs_frame [OF h(2), of ?m1]] apart by simp
  moreover have "f (root K) ?m1 = MDone ?m"
  proof -
    have "stored ?m1 p K v" using vs(2) Cons.prems(9) ns by (auto intro: stored_release)
    with vs(4) show ?thesis unfolding frees_def by auto
  qed
  moreover have "next_u32 ?i = Suc ?i"
    using Cons.prems(4,5) by (intro next_u32_less [of _ "o_count r"]) auto
  ultimately show ?case
    using Cons.prems(3,4) k ns by (simp add: load_object_def mload_live Un_ac)
qed

lemma object_deinit_arrays_stored:
  assumes "holds_object m p ob arrs t ns vs" "distinct (ob # arrs)" "ob \<noteq> 0"
  shows "mbind (object_deinit_arrays ob m) (mfree ob) = MDone (release (set (ob # arrs)) m)"
proof -
  from assms(1) obtain r where r: "blocks m ob = Some (BObject r)" "holds_arrays m arrs r t ns vs"
    by (auto simp: holds_object_def split: option.splits h_block.splits)
  show ?thesis
  proof (cases "cell_capacity t = 0")
    case True
    with r assms show ?thesis
      by (auto simp: holds_arrays_def object_deinit_arrays_def load_object_def mload_live mstore_live mfree_def release_def
          intro!: mem.equality ext)
  next
    case False
    with r have a: "arrs = [o_cells r, o_names r, o_values r, o_cell_ixs r, o_hashes r]" by (simp add: holds_arrays_def)
    let ?m = "\<lambda>x. m\<lparr>blocks := (blocks m)(ob \<mapsto> x)\<rparr>"
    have live: "blocks m q \<noteq> None" "q \<noteq> 0" if "q \<in> set arrs" for q
      using that holds_object_live [OF assms(1)] by auto
    have "mfree_all arrs (?m x) = MDone (release (set arrs) (?m x))" for x
      using assms(2) live by (intro mfree_all_live) auto
    then have "object_deinit_arrays ob m = mbind (mstore ob (BObject (r\<lparr>o_count := 0, o_item_capacity := 0, o_cell_capacity := 0\<rparr>)) m) (\<lambda>m1.
        mstore ob (BObject \<lparr>o_wrapping = o_wrapping r, o_cells = 0, o_hashes = 0, o_names = 0, o_values = 0, o_cell_ixs = 0,
          o_count = 0, o_item_capacity = 0, o_cell_capacity = 0\<rparr>) (release (set arrs) m1))"
      using r(1) by (simp add: object_deinit_arrays_def load_object_def mload_live mstore_live a [symmetric] del: mfree_all.simps)
    then show ?thesis
      using r(1) assms(2,3) by (auto simp: mstore_live mfree_def release_def intro!: mem.equality ext)
  qed
qed

lemma list_all2_frees:
  assumes "list_all2 P Ls vs" "\<And>L v. L \<in> set Ls \<Longrightarrow> v \<in> set vs \<Longrightarrow> frees f L v"
  shows "list_all2 (frees f) Ls vs"
  using assms by (auto simp: list_all2_conv_all_nth)

lemma free_array_value:
  assumes st: "stored m par (LArray p a it Ls) (VArray t)" and wf: "wf_json (VArray t)" and di: "distinct (own (LArray p a it Ls))"
    and fr: "list_all2 (frees (h_json_value_free k)) Ls (arr_items t)" and k: "length Ls < k"
  shows "h_json_value_free (Suc k) p m = MDone (release (set (own (LArray p a it Ls))) m)"
proof -
  from st have t: "list_all2 (stored m p) Ls (arr_items t)" "p \<noteq> 0" "a \<noteq> 0" "blocks m p = Some (BValue par (UArray a))"
    "blocks m a = Some (BArray \<lparr>a_wrapping = p, a_items = it, a_count = length Ls, a_capacity = arr_capacity t\<rparr>)"
    "if arr_capacity t = 0 then it = 0 else it \<noteq> 0 \<and> holds_ptrs m it (arr_capacity t) (map root Ls)" by auto
  let ?O = "set (concat (map own Ls))"
  have it0: "Ls = []" if "it = 0"
    using t that wf by (auto simp: wf_array_def list_all2_iff split: if_splits)
  have loop: "array_free_loop (h_json_value_free k) k a 0 m = MDone (release ?O m)"
    using array_free_loop_stored [where pre = "[]" and Ks = Ls and m = m and a = a and p = p, OF t(1) fr] t di k it0
    by (fastforce split: if_splits)
  have "h_json_array_free (h_json_value_free k) k a m = MDone (release (?O \<union> (if it = 0 then {} else {it}) \<union> {a}) m)"
  proof (cases "it = 0")
    case True
    with loop it0 t show ?thesis by (simp add: h_json_array_free_def load_array_def mload_live mfree_live)
  next
    case False
    then have "blocks m it \<noteq> None" using t(6) by (auto dest: holds_ptrs_live split: if_splits)
    with False loop t di show ?thesis
      by (auto simp: h_json_array_free_def load_array_def mload_live mfree_allocated insert_commute)
  qed
  moreover have "p \<notin> ?O \<union> (if it = 0 then {} else {it}) \<union> {a}" using di by auto
  ultimately show ?thesis
    using t by (simp add: load_value_def mload_live mfree_allocated Un_commute insert_commute)
qed

lemma free_object_value:
  assumes st: "stored m par (LObject p ob arrs ns Ls) (VObject t)" and wf: "wf_json (VObject t)"
    and di: "distinct (own (LObject p ob arrs ns Ls))"
    and fr: "list_all2 (frees (h_json_value_free k)) Ls (vals t)" and k: "length Ls < k"
  shows "h_json_value_free (Suc k) p m = MDone (release (set (own (LObject p ob arrs ns Ls))) m)"
proof -
  from st have t: "list_all2 (stored m p) Ls (vals t)" "p \<noteq> 0" "ob \<noteq> 0"
    "blocks m p = Some (BValue par (UObject ob))" "holds_object m p ob arrs t ns (map root Ls)" "length ns = count t" by auto
  from wf have w: "wf_object t" "count t \<le> 2 ^ 31" by auto
  from t(5) obtain r where r: "blocks m ob = Some (BObject r)" "o_count r = count t" "holds_arrays m arrs r t ns (map root Ls)"
    by (auto simp: holds_object_def split: option.splits h_block.splits)
  have len: "length Ls = count t"
    using t(1) wf_objectD(4) [OF w(1)] by (simp add: list_all2_lengthD)
  let ?O = "set (ns @ concat (map own Ls))"
  have ptrs: "holds_ptrs m (o_names r) (item_capacity t) ns \<and> holds_ptrs m (o_values r) (item_capacity t) (map root Ls) \<and>
      {o_names r, o_values r} \<subseteq> set arrs" if "Ls \<noteq> []"
    using that r(3) len wf_objectD(7,8) [OF w(1)] by (auto simp: holds_arrays_def split: if_splits)
  have "object_deinit_loop (h_json_value_free k) k ob True True 0 m = MDone (release ?O m)"
  proof (cases "Ls = []")
    case True
    with len t(6) r k show ?thesis by (cases k) (auto simp: load_object_def mload_live)
  next
    case False
    have live: "\<forall>q \<in> set (drop (length ([] :: layout list)) ns). q \<noteq> 0 \<and> blocks m q \<noteq> None"
      using stored_live [OF st] by auto
    have "object_deinit_loop (h_json_value_free k) k ob True True (length ([] :: layout list)) m =
        MDone (release (set (drop (length ([] :: layout list)) ns @ concat (map own Ls))) m)"
      by (rule object_deinit_loop_stored [where pre = "[]" and Ks = Ls, OF t(1) fr r(1) _ _ _ _ live _ _ k])
        (use r(2) len t(6) w(2) ptrs [OF False] di in auto)
    then show ?thesis by simp
  qed
  moreover have "mbind (object_deinit_arrays ob (release ?O m)) (mfree ob) = MDone (release (set (ob # arrs)) (release ?O m))"
  proof (rule object_deinit_arrays_stored)
    show "holds_object (release ?O m) p ob arrs t ns (map root Ls)"
      using t(5) by (rule holds_object_frame) (use di in auto)
  qed (use di t(3) in auto)
  ultimately have "h_json_object_free (h_json_value_free k) k ob m = MDone (release (?O \<union> set (ob # arrs)) m)"
    by (simp add: h_json_object_free_def h_json_object_deinit_def Un_commute)
  moreover have "p \<notin> ?O \<union> set (ob # arrs)" using di by auto
  ultimately show ?thesis
    using t(2,4) by (simp add: load_value_def mload_live mfree_allocated Un_commute insert_commute)
qed

lemma free_stored:
  assumes "stored m par L v" "wf_json v" "distinct (own L)" "free_fuel L \<le> n"
  shows "h_json_value_free n (root L) m = MDone (release (set (own L)) m)"
  using assms
proof (induction L arbitrary: m par v n)
  case (LScalar p)
  then obtain k where "n = Suc k" by (cases n) auto
  with LScalar show ?case
    by (auto simp: load_value_def mload_live mfree_live split: json_value.splits)
next
  case (LString p c)
  then obtain k where "n = Suc k" by (cases n) auto
  with LString show ?case
    by (auto simp: load_value_def mload_live mfree_live insert_commute)
next
  case (LArray p a it Ls)
  from LArray.prems(4) obtain k where k: "n = Suc k" "length Ls < k" by (cases n) auto
  from LArray.prems(1) obtain t where t: "v = VArray t" "list_all2 (stored m p) Ls (arr_items t)" by auto
  have "list_all2 (frees (h_json_value_free k)) Ls (arr_items t)"
    using t(2)
  proof (rule list_all2_frees)
    fix L w assume "L \<in> set Ls" "w \<in> set (arr_items t)"
    then show "frees (h_json_value_free k) L w"
      using LArray.prems(2-4) t(1) k(1) free_fuel_elem [of L Ls] LArray.IH [of L]
      by (fastforce simp: frees_def distinct_concat_iff)
  qed
  with LArray.prems(1-3) k t(1) show ?case
    by (simp only: root.simps free_array_value)
next
  case (LObject p ob arrs ns Ls)
  from LObject.prems(4) obtain k where k: "n = Suc k" "length Ls < k" by (cases n) auto
  from LObject.prems(1) obtain t where t: "v = VObject t" "list_all2 (stored m p) Ls (vals t)" by auto
  have "list_all2 (frees (h_json_value_free k)) Ls (vals t)"
    using t(2)
  proof (rule list_all2_frees)
    fix L w assume "L \<in> set Ls" "w \<in> set (vals t)"
    then show "frees (h_json_value_free k) L w"
      using LObject.prems(2-4) t(1) k(1) free_fuel_elem [of L Ls] LObject.IH [of L]
      by (fastforce simp: frees_def distinct_concat_iff)
  qed
  with LObject.prems(1-3) k t(1) show ?case
    by (simp only: root.simps free_object_value)
qed

end
