(* ===== verification/Parson_Owner.thy ===== *)
theory Parson_Owner
  imports Parson_Heap
begin

text \<open>
  Making values and handing them to an array, in memory: the constructors of \<^verbatim>\<open>parson.c\<close>, every one of which can fail for lack of memory, and the operations
  on arrays that take over a value (which must have no parent), drop one, or move to a larger block. A value belongs to one owner: the theorems say that
  any sequence of such calls keeps the array well formed, loses no block, releases none twice, and means what the model of \<^verbatim>\<open>Parson_Value\<close> says.
\<close>

section \<open>Constructors\<close>

definition h_parson_strndup :: "string \<Rightarrow> nat \<Rightarrow> jmem \<Rightarrow> addr \<times> jmem" where
  "h_parson_strndup s n m = malloc (BChars (take n s @ [NUL])) m"

definition h_json_value_init_string_no_copy :: "addr \<Rightarrow> nat \<Rightarrow> jmem \<Rightarrow> addr \<times> jmem" where
  "h_json_value_init_string_no_copy c len m = malloc (BValue 0 (UString c len)) m"

definition h_json_value_init_string_with_len :: "string \<Rightarrow> nat \<Rightarrow> jmem \<Rightarrow> (addr \<times> jmem) run" where
  "h_json_value_init_string_with_len s len m =
     (if \<not> is_valid_utf8 s len then MDone (0, m)
      else let (copy, m1) = h_parson_strndup s len m in
        if copy = 0 then MDone (0, m1)
        else let (value, m2) = h_json_value_init_string_no_copy copy len m1 in
          if value = 0 then mbind (mfree copy m2) (\<lambda>m3. MDone (0, m3)) else MDone (value, m2))"

definition h_json_value_init_string :: "string \<Rightarrow> jmem \<Rightarrow> (addr \<times> jmem) run" where
  "h_json_value_init_string s m = h_json_value_init_string_with_len s (strlen s) m"

definition h_json_value_init_number :: "double \<Rightarrow> jmem \<Rightarrow> addr \<times> jmem" where
  "h_json_value_init_number d m = (case d of Fin q \<Rightarrow> malloc (BValue 0 (UNumber q)) m | _ \<Rightarrow> (0, m))"

definition h_json_value_init_boolean :: "int \<Rightarrow> jmem \<Rightarrow> addr \<times> jmem" where
  "h_json_value_init_boolean b m = malloc (BValue 0 (UBoolean (b \<noteq> 0))) m"

definition h_json_value_init_null :: "jmem \<Rightarrow> addr \<times> jmem" where
  "h_json_value_init_null m = malloc (BValue 0 UNull) m"

definition h_json_array_make :: "addr \<Rightarrow> jmem \<Rightarrow> addr \<times> jmem" where
  "h_json_array_make wrapping m = malloc (BArray \<lparr>a_wrapping = wrapping, a_items = 0, a_count = 0, a_capacity = 0\<rparr>) m"

text \<open>An object is made without room for members: \<^verbatim>\<open>json_object_init\<close> allocates nothing.\<close>

definition h_json_object_make :: "addr \<Rightarrow> jmem \<Rightarrow> addr \<times> jmem" where
  "h_json_object_make wrapping m =
     malloc (BObject \<lparr>o_wrapping = wrapping, o_cells = 0, o_hashes = 0, o_names = 0, o_values = 0, o_cell_ixs = 0,
       o_count = 0, o_item_capacity = 0, o_cell_capacity = 0\<rparr>) m"

text \<open>\<^verbatim>\<open>json_value_init_array\<close> and \<^verbatim>\<open>json_value_init_object\<close> differ in what they make.\<close>

definition init_container :: "(addr \<Rightarrow> jmem \<Rightarrow> addr \<times> jmem) \<Rightarrow> (addr \<Rightarrow> h_union) \<Rightarrow> jmem \<Rightarrow> (addr \<times> jmem) run" where
  "init_container make_it tag m =
     (let (new_value, m1) = malloc (BValue 0 (tag 0)) m in
      if new_value = 0 then MDone (0, m1)
      else let (container, m2) = make_it new_value m1 in
        mbind (mstore new_value (BValue 0 (tag container)) m2) (\<lambda>m3.
          if container = 0 then mbind (mfree new_value m3) (\<lambda>m4. MDone (0, m4)) else MDone (new_value, m3)))"

definition h_json_value_init_array :: "jmem \<Rightarrow> (addr \<times> jmem) run" where
  "h_json_value_init_array = init_container h_json_array_make UArray"

definition h_json_value_init_object :: "jmem \<Rightarrow> (addr \<times> jmem) run" where
  "h_json_value_init_object = init_container h_json_object_make UObject"

section \<open>Parents\<close>

definition h_json_value_get_parent :: "addr \<Rightarrow> jmem \<Rightarrow> addr run" where
  "h_json_value_get_parent p m = (if p = 0 then MDone 0 else mbind (load_value p m) (\<lambda>(par, u). MDone par))"

definition h_json_array_get_wrapping_value :: "addr \<Rightarrow> jmem \<Rightarrow> addr run" where
  "h_json_array_get_wrapping_value a m = (if a = 0 then MDone 0 else mbind (load_array a m) (\<lambda>r. MDone (a_wrapping r)))"

definition h_json_object_get_wrapping_value :: "addr \<Rightarrow> jmem \<Rightarrow> addr run" where
  "h_json_object_get_wrapping_value ob m = (if ob = 0 then MDone 0 else mbind (load_object ob m) (\<lambda>r. MDone (o_wrapping r)))"

text \<open>\<^verbatim>\<open>value->parent = p\<close>\<close>

definition set_parent :: "addr \<Rightarrow> addr \<Rightarrow> jmem \<Rightarrow> jmem run" where
  "set_parent v p m = mbind (load_value v m) (\<lambda>(par, u). mstore v (BValue p u) m)"

section \<open>Arrays\<close>

definition h_json_array_get_value :: "addr \<Rightarrow> nat \<Rightarrow> jmem \<Rightarrow> addr run" where
  "h_json_array_get_value a index m =
     (if a = 0 then MDone 0
      else mbind (load_array a m) (\<lambda>r. if index \<ge> a_count r then MDone 0 else load_ptr (a_items r) index m))"

definition copy_items :: "h_array \<Rightarrow> addr \<Rightarrow> nat \<Rightarrow> jmem \<Rightarrow> jmem run" where
  "copy_items r new_items new_capacity m =
     (if a_items r \<noteq> 0 \<and> a_count r > 0
      then mbind (mload (a_items r) m) (\<lambda>b. case b of
          BPtrs cap xs \<Rightarrow>
            if a_count r \<le> length xs \<and> a_count r \<le> new_capacity
            then mstore new_items (BPtrs new_capacity (take (a_count r) xs)) m else MUndef
        | _ \<Rightarrow> MUndef)
      else MDone m)"

definition h_json_array_resize :: "addr \<Rightarrow> nat \<Rightarrow> jmem \<Rightarrow> (json_status \<times> jmem) run" where
  "h_json_array_resize a new_capacity m =
     (if new_capacity = 0 then MDone (JSONFailure, m)
      else let (new_items, m1) = malloc (BPtrs new_capacity []) m in
        if new_items = 0 then MDone (JSONFailure, m1)
        else mbind (load_array a m1) (\<lambda>r.
          mbind (copy_items r new_items new_capacity m1) (\<lambda>m2.
          mbind (mfree (a_items r) m2) (\<lambda>m3.
          mbind (mstore a (BArray (r\<lparr>a_items := new_items, a_capacity := new_capacity\<rparr>)) m3) (\<lambda>m4.
            MDone (JSONSuccess, m4))))))"

text \<open>\<^verbatim>\<open>value->parent = json_array_get_wrapping_value (array); array->items[i] = value\<close>\<close>

definition put_value :: "addr \<Rightarrow> nat \<Rightarrow> addr \<Rightarrow> jmem \<Rightarrow> jmem run" where
  "put_value a i v m =
     mbind (h_json_array_get_wrapping_value a m) (\<lambda>w.
     mbind (set_parent v w m) (\<lambda>m1.
     mbind (load_array a m1) (\<lambda>r. store_ptr (a_items r) i v m1)))"

definition h_json_array_add :: "addr \<Rightarrow> addr \<Rightarrow> jmem \<Rightarrow> (json_status \<times> jmem) run" where
  "h_json_array_add a v m =
     mbind (load_array a m) (\<lambda>r.
     mbind (if a_count r \<ge> a_capacity r then h_json_array_resize a (max (a_capacity r * 2) STARTING_CAPACITY) m
            else MDone (JSONSuccess, m)) (\<lambda>(st, m1).
       if st \<noteq> JSONSuccess then MDone (JSONFailure, m1)
       else mbind (put_value a (a_count r) v m1) (\<lambda>m2.
         mbind (load_array a m2) (\<lambda>r2.
         mbind (mstore a (BArray (r2\<lparr>a_count := Suc (a_count r2)\<rparr>)) m2) (\<lambda>m3. MDone (JSONSuccess, m3))))))"

definition h_json_array_append_value :: "addr \<Rightarrow> addr \<Rightarrow> jmem \<Rightarrow> (json_status \<times> jmem) run" where
  "h_json_array_append_value a v m =
     (if a = 0 \<or> v = 0 then MDone (JSONFailure, m)
      else mbind (h_json_value_get_parent v m) (\<lambda>par.
        if par \<noteq> 0 then MDone (JSONFailure, m) else h_json_array_add a v m))"

definition h_json_array_replace_value :: "nat \<Rightarrow> addr \<Rightarrow> nat \<Rightarrow> addr \<Rightarrow> jmem \<Rightarrow> (json_status \<times> jmem) run" where
  "h_json_array_replace_value n a ix v m =
     (if a = 0 \<or> v = 0 then MDone (JSONFailure, m)
      else mbind (h_json_value_get_parent v m) (\<lambda>par.
        if par \<noteq> 0 then MDone (JSONFailure, m)
        else mbind (load_array a m) (\<lambda>r.
        if ix \<ge> a_count r then MDone (JSONFailure, m)
        else mbind (h_json_array_get_value a ix m) (\<lambda>old.
          mbind (h_json_value_free n old m) (\<lambda>m1.
          mbind (put_value a ix v m1) (\<lambda>m2. MDone (JSONSuccess, m2)))))))"

text \<open>\<^verbatim>\<open>memmove\<close> shifts the slots behind the removed one; the last slot keeps its old pointer.\<close>

definition h_json_array_remove :: "nat \<Rightarrow> addr \<Rightarrow> nat \<Rightarrow> jmem \<Rightarrow> (json_status \<times> jmem) run" where
  "h_json_array_remove n a ix m =
     (if a = 0 then MDone (JSONFailure, m)
      else mbind (load_array a m) (\<lambda>r.
        if ix \<ge> a_count r then MDone (JSONFailure, m)
        else mbind (h_json_array_get_value a ix m) (\<lambda>old.
          mbind (h_json_value_free n old m) (\<lambda>m1.
          mbind (load_array a m1) (\<lambda>r1.
          mbind (mload (a_items r1) m1) (\<lambda>b. case b of
              BPtrs cap xs \<Rightarrow>
                let k = a_count r1 - 1 - ix in
                if ix + 1 + k \<le> length xs
                then mbind (mstore (a_items r1) (BPtrs cap (take ix xs @ take k (drop (ix + 1) xs) @ drop (ix + k) xs)) m1) (\<lambda>m2.
                  mbind (mstore a (BArray (r1\<lparr>a_count := a_count r1 - 1\<rparr>)) m2) (\<lambda>m3. MDone (JSONSuccess, m3)))
                else MUndef
            | _ \<Rightarrow> MUndef))))))"

definition h_json_array_clear :: "nat \<Rightarrow> addr \<Rightarrow> jmem \<Rightarrow> (json_status \<times> jmem) run" where
  "h_json_array_clear n a m =
     (if a = 0 then MDone (JSONFailure, m)
      else mbind (array_free_loop (h_json_value_free n) n a 0 m) (\<lambda>m1.
        mbind (load_array a m1) (\<lambda>r. mbind (mstore a (BArray (r\<lparr>a_count := 0\<rparr>)) m1) (\<lambda>m2. MDone (JSONSuccess, m2)))))"

section \<open>New values in an array\<close>

text \<open>The functions \<^verbatim>\<open>json_array_append_string\<close> to \<^verbatim>\<open>json_array_replace_null\<close> make a value, hand it over and release it when it is refused.\<close>

datatype new_value = NewString string | NewNumber double | NewBoolean int | NewNull | NewArray | NewObject

fun h_make :: "new_value \<Rightarrow> jmem \<Rightarrow> (addr \<times> jmem) run" where
  "h_make (NewString s) m = h_json_value_init_string s m"
| "h_make (NewNumber d) m = MDone (h_json_value_init_number d m)"
| "h_make (NewBoolean b) m = MDone (h_json_value_init_boolean b m)"
| "h_make NewNull m = MDone (h_json_value_init_null m)"
| "h_make NewArray m = h_json_value_init_array m"
| "h_make NewObject m = h_json_value_init_object m"

definition hand_over ::
  "nat \<Rightarrow> new_value \<Rightarrow> (addr \<Rightarrow> jmem \<Rightarrow> (json_status \<times> jmem) run) \<Rightarrow> jmem \<Rightarrow> (json_status \<times> jmem) run" where
  "hand_over n x take_over m =
     mbind (h_make x m) (\<lambda>(value, m1).
       if value = 0 then MDone (JSONFailure, m1)
       else mbind (take_over value m1) (\<lambda>(st, m2).
         if st \<noteq> JSONSuccess then mbind (h_json_value_free n value m2) (\<lambda>m3. MDone (JSONFailure, m3))
         else MDone (JSONSuccess, m2)))"

datatype array_call = Append new_value | Replace nat new_value | Remove nat | Clear

fun h_array_call :: "nat \<Rightarrow> addr \<Rightarrow> array_call \<Rightarrow> jmem \<Rightarrow> (json_status \<times> jmem) run" where
  "h_array_call n a (Append x) m = hand_over n x (h_json_array_append_value a) m"
| "h_array_call n a (Replace ix x) m = hand_over n x (h_json_array_replace_value n a ix) m"
| "h_array_call n a (Remove ix) m = h_json_array_remove n a ix m"
| "h_array_call n a Clear m = h_json_array_clear n a m"

fun h_array_calls :: "nat \<Rightarrow> addr \<Rightarrow> array_call list \<Rightarrow> jmem \<Rightarrow> (json_status list \<times> jmem) run" where
  "h_array_calls n a [] m = MDone ([], m)"
| "h_array_calls n a (c # cs) m =
     mbind (h_array_call n a c m) (\<lambda>(st, m1). mbind (h_array_calls n a cs m1) (\<lambda>(sts, m2). MDone (st # sts, m2)))"

text \<open>The same calls on values without memory\<close>

fun made :: "new_value \<Rightarrow> json_value option" where
  "made (NewString s) = json_value_init_string (Some s)"
| "made (NewNumber d) = json_value_init_number d"
| "made (NewBoolean b) = Some (json_value_init_boolean b)"
| "made NewNull = Some json_value_init_null"
| "made NewArray = Some json_value_init_array"
| "made NewObject = Some json_value_init_object"

fun array_call_model :: "json_value json_array \<Rightarrow> array_call \<Rightarrow> json_status \<times> json_value json_array" where
  "array_call_model t (Append x) = json_array_append_value t (made x)"
| "array_call_model t (Replace ix x) = json_array_replace_value t ix (made x)"
| "array_call_model t (Remove ix) = json_array_remove t ix"
| "array_call_model t Clear = json_array_clear t"

fun array_calls_model :: "json_value json_array \<Rightarrow> array_call list \<Rightarrow> json_status list \<times> json_value json_array" where
  "array_calls_model t [] = ([], t)"
| "array_calls_model t (c # cs) =
     (let (st, t1) = array_call_model t c; (sts, t2) = array_calls_model t1 cs in (st # sts, t2))"

section \<open>Making a value\<close>

lemma malloc_cases:
  assumes "wf_mem m" "malloc x m = (p, m')"
  obtains "p = 0" "refuses m (next_addr m)" "blocks m' = blocks m" "wf_mem m'" "refuses m' = refuses m"
  | "p \<noteq> 0" "blocks m p = None" "blocks m' = (blocks m)(p \<mapsto> x)" "wf_mem m'" "refuses m' = refuses m"
  using assms by (auto simp: malloc_def wf_mem_def Let_def split: if_splits)

lemma extendsI:
  "wf_mem m \<Longrightarrow> (\<And>p. p \<notin> A \<Longrightarrow> blocks m p = blocks m0 p) \<Longrightarrow> (\<And>p. p \<in> A \<Longrightarrow> blocks m0 p = None \<and> blocks m p \<noteq> None) \<Longrightarrow>
   extends m0 A m"
  by (simp add: extends_def)

lemma extends_wf: "extends m0 A m \<Longrightarrow> wf_mem m"
  by (simp add: extends_def)

lemma extends_same: "extends m0 A m \<Longrightarrow> wf_mem m' \<Longrightarrow> blocks m' = blocks m \<Longrightarrow> extends m0 A m'"
  by (simp add: extends_def)

lemma extends_new:
  assumes "extends m0 A m" "wf_mem m'" "blocks m' = (blocks m)(p \<mapsto> x)" "blocks m p = None"
  shows "extends m0 (insert p A) m'" "p \<notin> A"
  using assms by (auto simp: extends_def)

lemma extends_update:
  assumes "extends m0 A m" "p \<in> A" "blocks m' = (blocks m)(p \<mapsto> x)" "next_addr m' = next_addr m"
  shows "extends m0 A m'"
proof -
  have "blocks m p \<noteq> None" "wf_mem m" using assms(1,2) by (simp_all add: extends_def)
  then have "p \<noteq> 0" "p < next_addr m" by (metis wf_mem_def, metis wf_mem_def not_le)
  with \<open>wf_mem m\<close> have "wf_mem m'" using assms(3,4) by (simp add: wf_mem_def)
  then show ?thesis using assms by (auto simp: extends_def)
qed

lemma extends_less:
  assumes "extends m0 A m" "B \<subseteq> A"
  shows "extends m0 (A - B) (release B m)"
  using assms wf_mem_release [of m B] by (auto simp: extends_def)

lemma extends_drop:
  assumes "extends m0 (A \<union> B) m" "A \<inter> B = {}"
  shows "extends m0 A (release B m)"
proof -
  have "A \<union> B - B = A" using assms(2) by blast
  with extends_less [OF assms(1), of B] show ?thesis by simp
qed

lemma extends_refl: "wf_mem m \<Longrightarrow> extends m {} m"
  by (simp add: extends_def)

text \<open>A constructor either fails without a trace or adds the blocks of the value it makes.\<close>

definition makes :: "jmem \<Rightarrow> json_value option \<Rightarrow> addr \<times> jmem \<Rightarrow> bool" where
  "makes m w r \<longleftrightarrow>
     (case r of (p, m') \<Rightarrow> refuses m' = refuses m \<and>
       (if p = 0 then (\<forall>m0 A. extends m0 A m \<longrightarrow> extends m0 A m') \<and> (w = None \<or> (\<exists>q. refuses m q))
        else \<exists>L v. w = Some v \<and> root L = p \<and> stored m' 0 L v \<and> distinct (own L) \<and> wf_json v \<and> free_fuel L \<le> 2 \<and>
          (\<forall>m0 A. extends m0 A m \<longrightarrow> extends m0 (A \<union> set (own L)) m' \<and> A \<inter> set (own L) = {})))"

lemma makes_scalar:
  assumes "wf_mem m" "\<And>m p. stored m 0 (LScalar p) v \<longleftrightarrow> p \<noteq> 0 \<and> blocks m p = Some x" "wf_json v"
  shows "makes m (Some v) (malloc x m)"
proof -
  obtain p m' where a: "malloc x m = (p, m')" by (cases "malloc x m")
  from malloc_cases [OF assms(1) a] show ?thesis
  proof cases
    case 1
    then show ?thesis by (auto simp: makes_def a intro: extends_same)
  next
    case 2
    have "stored m' 0 (LScalar p) v" using 2 by (subst assms(2)) simp
    moreover have "extends m0 (A \<union> {p}) m' \<and> A \<inter> {p} = {}" if "extends m0 A m" for m0 A
      using extends_new [OF that 2(4,3,2)] by simp
    ultimately show ?thesis
      using 2 assms(3) by (auto simp: makes_def a simp del: stored.simps intro!: exI [of _ "LScalar p"])
  qed
qed

lemma makes_nothing: "w = None \<Longrightarrow> makes m w (0, m)"
  by (simp add: makes_def)

lemma makes_number: "wf_mem m \<Longrightarrow> makes m (json_value_init_number d) (h_json_value_init_number d m)"
  by (auto simp: json_value_init_number_def h_json_value_init_number_def split: double.splits
      intro!: makes_scalar makes_nothing)

lemma makes_string:
  assumes "wf_mem m" "len \<le> length s"
  shows "\<exists>r. h_json_value_init_string_with_len s len m = MDone r \<and> makes m (json_value_init_string_with_len s len) r"
proof (cases "is_valid_utf8 s len")
  case False
  then show ?thesis by (simp add: h_json_value_init_string_with_len_def json_value_init_string_with_len_def makes_nothing)
next
  case True
  obtain c m1 where a: "h_parson_strndup s len m = (c, m1)" by (cases "h_parson_strndup s len m")
  from malloc_cases [OF assms(1) a [unfolded h_parson_strndup_def]] show ?thesis
  proof cases
    case 1
    then show ?thesis
      using True by (auto simp: h_json_value_init_string_with_len_def json_value_init_string_with_len_def a makes_def intro: extends_same)
  next
    case c: 2
    obtain v m2 where b: "h_json_value_init_string_no_copy c len m1 = (v, m2)" by (cases "h_json_value_init_string_no_copy c len m1")
    from malloc_cases [OF c(4) b [unfolded h_json_value_init_string_no_copy_def]] show ?thesis
    proof cases
      case 1
      have "h_json_value_init_string_with_len s len m = MDone (0, release {c} m2)"
        using 1 c True by (simp add: h_json_value_init_string_with_len_def a b mfree_allocated)
      moreover have "extends m0 A (release {c} m2)" if "extends m0 A m" for m0 A
        by (rule extends_same [OF that]) (use 1 c in \<open>auto simp: wf_mem_release fun_eq_iff\<close>)
      ultimately show ?thesis
        using 1 c True by (auto simp: makes_def json_value_init_string_with_len_def)
    next
      case 2
      let ?L = "LString v c"
      have "stored m2 0 ?L (VString (take len s))"
        using 2 c assms(2) by (auto simp: min_def)
      moreover have "extends m0 (A \<union> set (own ?L)) m2 \<and> A \<inter> set (own ?L) = {}" if "extends m0 A m" for m0 A
      proof -
        have "extends m0 (insert c A) m1" "c \<notin> A" using extends_new [OF that c(4,3,2)] by auto
        then show ?thesis using extends_new [OF _ 2(4,3,2)] 2 c by fastforce
      qed
      moreover have "distinct (own ?L)" using 2 c by auto
      ultimately show ?thesis
        using 2 c True by (auto simp: h_json_value_init_string_with_len_def json_value_init_string_with_len_def a b makes_def
            intro!: exI [of _ ?L])
    qed
  qed
qed

lemma makes_container:
  assumes wf: "wf_mem m" and mk: "\<And>p m. make_it p m = malloc (block p) m" and v: "wf_json v"
    and st: "\<And>m p a. p \<noteq> 0 \<Longrightarrow> a \<noteq> 0 \<Longrightarrow> blocks m p = Some (BValue 0 (tag a)) \<Longrightarrow> blocks m a = Some (block p) \<Longrightarrow> stored m 0 (lay p a) v"
    and lay: "\<And>p a. root (lay p a) = p \<and> own (lay p a) = [p, a] \<and> free_fuel (lay p a) = 2"
  shows "\<exists>r. init_container make_it tag m = MDone r \<and> makes m (Some v) r"
proof -
  obtain p m1 where a: "malloc (BValue 0 (tag 0)) m = (p, m1)" by (cases "malloc (BValue 0 (tag 0)) m")
  from malloc_cases [OF wf a] show ?thesis
  proof cases
    case 1
    then show ?thesis by (auto simp: init_container_def a makes_def intro: extends_same)
  next
    case p: 2
    obtain c m2 where b: "malloc (block p) m1 = (c, m2)" by (cases "malloc (block p) m1")
    from malloc_cases [OF p(4) b] show ?thesis
    proof cases
      case 1
      let ?m = "m2\<lparr>blocks := (blocks m2)(p := None)\<rparr>"
      have "init_container make_it tag m = MDone (0, ?m)"
        using 1 p by (simp add: init_container_def a mk b mstore_live mfree_def)
      moreover have "extends m0 A ?m" if "extends m0 A m" for m0 A
        by (rule extends_same [OF that]) (use 1 p in \<open>auto simp: wf_mem_def fun_eq_iff\<close>)
      ultimately show ?thesis using 1 p by (auto simp: makes_def)
    next
      case 2
      let ?m = "m2\<lparr>blocks := (blocks m2)(p \<mapsto> BValue 0 (tag c))\<rparr>"
      have "p \<noteq> c" using 2 p by auto
      then have "init_container make_it tag m = MDone (p, ?m)"
        using 2 p by (simp add: init_container_def a mk b mstore_live)
      moreover have "stored ?m 0 (lay p c) v"
        by (rule st) (use 2 p \<open>p \<noteq> c\<close> in auto)
      moreover have "extends m0 (A \<union> set (own (lay p c))) ?m \<and> A \<inter> set (own (lay p c)) = {}" if "extends m0 A m" for m0 A
      proof -
        have 3: "extends m0 (insert p A) m1" "p \<notin> A" using extends_new [OF that p(4,3,2)] by auto
        have 4: "extends m0 (insert c (insert p A)) m2" "c \<notin> insert p A" using extends_new [OF 3(1) 2(4,3,2)] by auto
        have "extends m0 (insert c (insert p A)) ?m" by (rule extends_update [OF 4(1), of p]) auto
        with 3 4 show ?thesis by (simp add: lay insert_commute)
      qed
      ultimately show ?thesis
        using 2 p lay v \<open>p \<noteq> c\<close> by (auto simp: makes_def intro!: exI [of _ "lay p c"])
    qed
  qed
qed

lemma h_make_makes:
  assumes "wf_mem m"
  shows "\<exists>r. h_make x m = MDone r \<and> makes m (made x) r"
proof (cases x)
  case (NewString s)
  have "strlen s \<le> length s" by (simp add: strlen_def)
  then show ?thesis
    using makes_string [OF assms, of "strlen s" s] NewString by (simp add: h_json_value_init_string_def json_value_init_string_def)
next
  case (NewNumber d)
  then show ?thesis using makes_number [OF assms] by simp
next
  case (NewBoolean b)
  then show ?thesis by (auto simp: h_json_value_init_boolean_def json_value_init_boolean_def intro!: makes_scalar assms)
next
  case NewNull
  then show ?thesis by (auto simp: h_json_value_init_null_def json_value_init_null_def intro!: makes_scalar assms)
next
  case NewArray
  have "\<exists>r. init_container h_json_array_make UArray m = MDone r \<and> makes m (Some json_value_init_array) r"
    by (rule makes_container [where lay = "\<lambda>p a. LArray p a 0 []", OF assms h_json_array_make_def])
      (auto simp: json_value_init_array_def json_array_make_def wf_array_def)
  with NewArray show ?thesis by (simp add: h_json_value_init_array_def)
next
  case NewObject
  have "\<exists>r. init_container h_json_object_make UObject m = MDone r \<and> makes m (Some json_value_init_object) r"
    by (rule makes_container [where lay = "\<lambda>p a. LObject p a [] [] []", OF assms h_json_object_make_def])
      (use wf_json_make in \<open>auto simp: json_value_init_object_def json_object_make_def json_object_init_def holds_object_def holds_arrays_def\<close>)
  with NewObject show ?thesis by (simp add: h_json_value_init_object_def)
qed

section \<open>Arrays that grow\<close>

lemma stored_array:
  "stored m par (LArray p a it Ls) (VArray t) \<longleftrightarrow>
     p \<noteq> 0 \<and> a \<noteq> 0 \<and> blocks m p = Some (BValue par (UArray a)) \<and>
     blocks m a = Some (BArray \<lparr>a_wrapping = p, a_items = it, a_count = length Ls, a_capacity = arr_capacity t\<rparr>) \<and>
     (if arr_capacity t = 0 then it = 0 else it \<noteq> 0 \<and> holds_ptrs m it (arr_capacity t) (map root Ls)) \<and>
     list_all2 (stored m p) Ls (arr_items t)"
  by simp

lemma stored_items_frame:
  assumes "list_all2 (stored m p) Ls vs" "\<And>q. q \<in> set (concat (map own Ls)) \<Longrightarrow> blocks m' q = blocks m q"
  shows "list_all2 (stored m' p) Ls vs"
  using assms(1)
proof (rule list_all2_frame)
  fix L v assume "L \<in> set Ls" "stored m p L v"
  with assms(2) show "stored m' p L v" by (auto intro: stored_frame)
qed

lemma resize_stored:
  assumes st: "stored m par (LArray p a it Ls) (VArray t)" and wf: "wf_json (VArray t)" and cap: "0 < cap" "length Ls \<le> cap"
    and di: "distinct (own (LArray p a it Ls))" "set (own (LArray p a it Ls)) \<inter> B = {}"
    and ex: "extends m0 (set (own (LArray p a it Ls)) \<union> B) m"
  obtains m' where "h_json_array_resize a cap m = MDone (JSONFailure, m')" "refuses m (next_addr m)" "blocks m' = blocks m" "wf_mem m'"
    "refuses m' = refuses m"
  | m' it' where "h_json_array_resize a cap m = MDone (JSONSuccess, m')" "refuses m' = refuses m"
    "stored m' par (LArray p a it' Ls) (VArray (JSON_Array (arr_items t) cap))"
    "distinct (own (LArray p a it' Ls))" "set (own (LArray p a it' Ls)) \<inter> B = {}"
    "extends m0 (set (own (LArray p a it' Ls)) \<union> B) m'" "\<And>q. q \<in> B \<Longrightarrow> blocks m' q = blocks m q"
proof -
  note s = st [unfolded stored_array]
  let ?r = "\<lparr>a_wrapping = p, a_items = it, a_count = length Ls, a_capacity = arr_capacity t\<rparr>"
  let ?r' = "\<lambda>n. ?r\<lparr>a_items := n, a_capacity := cap\<rparr>"
  have it0: "Ls = []" if "it = 0"
    using s that wf by (auto simp: wf_array_def list_all2_iff split: if_splits)
  obtain n m1 where a: "malloc (BPtrs cap []) m = (n, m1)" by (cases "malloc (BPtrs cap []) m")
  from malloc_cases [OF extends_wf [OF ex] a] show thesis
  proof cases
    case 1
    show thesis by (rule that(1) [of m1]) (use 1 a cap in \<open>auto simp: h_json_array_resize_def\<close>)
  next
    case 2
    have new: "n \<notin> set (own (LArray p a it Ls)) \<union> B" using extends_new(2) [OF ex 2(4,3,2)] .
    define m2 where "m2 = m1\<lparr>blocks := (blocks m1)(n \<mapsto> BPtrs cap (map root Ls))\<rparr>"
    define m3 where "m3 = (if it = 0 then m2 else release {it} m2)"
    define m4 where "m4 = m3\<lparr>blocks := (blocks m3)(a \<mapsto> BArray (?r' n))\<rparr>"
    have b1: "mload a m1 = MDone (BArray ?r)"
      using s 2 new by (auto simp: mload_def)
    have "copy_items ?r n cap m1 = MDone m2"
    proof (cases "it \<noteq> 0 \<and> length Ls > 0")
      case True
      then obtain c xs where x: "blocks m it = Some (BPtrs c xs)" "length Ls \<le> length xs" "take (length Ls) xs = map root Ls"
        using s by (auto simp: holds_ptrs_def split: option.splits h_block.splits if_splits)
      have "blocks m1 it = Some (BPtrs c xs)" using x(1) 2 new True by auto
      with True x cap 2 show ?thesis by (simp add: copy_items_def mload_live mstore_live m2_def)
    next
      case False
      with it0 have "Ls = []" by auto
      with 2 show ?thesis by (auto intro!: mem.equality simp: fun_eq_iff copy_items_def m2_def)
    qed
    moreover have "mfree it m2 = MDone m3"
    proof (cases "it = 0")
      case False
      then have "blocks m2 it \<noteq> None" using s 2 by (auto simp: m2_def dest: holds_ptrs_live split: if_splits)
      with False show ?thesis by (simp add: mfree_allocated m3_def)
    qed (simp add: m3_def)
    moreover have b3: "blocks m3 a = Some (BArray ?r)"
      using s 2 new di by (auto simp: m2_def m3_def)
    ultimately have run: "h_json_array_resize a cap m = MDone (JSONSuccess, m4)"
      using 2(1) a cap b1 by (simp add: h_json_array_resize_def load_array_def mstore_live [OF b3] m4_def)
    have 3: "extends m0 (insert n (set (own (LArray p a it Ls)) \<union> B)) m1" using extends_new(1) [OF ex 2(4,3,2)] .
    have 4: "extends m0 (insert n (set (own (LArray p a it Ls)) \<union> B)) m2" by (rule extends_update [OF 3, of n]) (auto simp: m2_def)
    have "it \<noteq> 0 \<Longrightarrow> extends m0 (insert n (set (own (LArray p a it Ls)) \<union> B) - {it}) (release {it} m2)"
      by (rule extends_less [OF 4]) auto
    moreover have "insert n (set (own (LArray p a it Ls)) \<union> B) - {it} = set (own (LArray p a n Ls)) \<union> B" if "it \<noteq> 0"
      using that di new 2(1) by auto
    ultimately have 5: "extends m0 (set (own (LArray p a n Ls)) \<union> B) m3"
      using 4 2(1) by (auto simp: insert_commute m3_def)
    have 6: "extends m0 (set (own (LArray p a n Ls)) \<union> B) m4"
      by (rule extends_update [OF 5, of a]) (auto simp: m4_def)
    show thesis
    proof (rule that(2) [OF run _ _ _ _ 6])
      have "list_all2 (stored m4 p) Ls (arr_items t)"
        by (rule stored_items_frame [where m = m]) (use s 2 new di in \<open>auto simp: m2_def m3_def m4_def\<close>)
      moreover have "blocks m4 n = Some (BPtrs cap (map root Ls))" using 2 new di s by (auto simp: m2_def m3_def m4_def)
      ultimately show "stored m4 par (LArray p a n Ls) (VArray (JSON_Array (arr_items t) cap))"
        unfolding stored_array using s 2 new di cap by (auto simp: holds_ptrs_def m2_def m3_def m4_def)
      show "distinct (own (LArray p a n Ls))" "set (own (LArray p a n Ls)) \<inter> B = {}" using di new 2(1) by auto
      show "blocks m4 q = blocks m q" if "q \<in> B" for q using that di new 2 s by (auto simp: m2_def m3_def m4_def split: if_splits)
      show "refuses m4 = refuses m" using 2 by (simp add: m2_def m3_def m4_def)
    qed
  qed
qed

section \<open>A value changes hands\<close>

lemma set_parent_stored:
  assumes "stored m par L v" "distinct (own L)"
  shows "\<exists>u. load_value (root L) m = MDone (par, u) \<and>
    set_parent (root L) w m = MDone (m\<lparr>blocks := (blocks m)(root L \<mapsto> BValue w u)\<rparr>) \<and>
    stored (m\<lparr>blocks := (blocks m)(root L \<mapsto> BValue w u)\<rparr>) w L v"
proof (cases L)
  case (LScalar p)
  with assms show ?thesis
    by (auto simp: set_parent_def load_value_def mload_def mstore_def split: json_value.splits)
next
  case (LString p c)
  with assms show ?thesis
    by (auto simp: set_parent_def load_value_def mload_def mstore_def)
next
  case (LArray p a it Ls)
  with assms(1) obtain t where t: "v = VArray t" "list_all2 (stored m p) Ls (arr_items t)" by auto
  let ?m = "m\<lparr>blocks := (blocks m)(p \<mapsto> BValue w (UArray a))\<rparr>"
  have "list_all2 (stored ?m p) Ls (arr_items t)"
    by (rule stored_items_frame [OF t(2)]) (use assms(2) LArray in auto)
  with assms t(1) LArray show ?thesis
    by (auto simp: set_parent_def load_value_def mload_def mstore_def holds_ptrs_def intro!: exI [of _ "UArray a"])
next
  case (LObject p ob arrs ns Ls)
  with assms(1) obtain t where t: "v = VObject t" "list_all2 (stored m p) Ls (vals t)" "holds_object m p ob arrs t ns (map root Ls)"
    by auto
  let ?m = "m\<lparr>blocks := (blocks m)(p \<mapsto> BValue w (UObject ob))\<rparr>"
  have "list_all2 (stored ?m p) Ls (vals t)"
    by (rule stored_items_frame [OF t(2)]) (use assms(2) LObject in auto)
  moreover have "holds_object ?m p ob arrs t ns (map root Ls)"
    by (rule holds_object_frame [OF t(3)]) (use assms(2) LObject in auto)
  moreover have "map (blocks ?m) ns = map (blocks m) ns"
    using assms(2) LObject by auto
  ultimately show ?thesis
    using assms t(1) LObject
    by (simp add: set_parent_def load_value_def mload_def mstore_def)
qed

lemma root_own: "root L \<in> set (own L)"
  by (cases L) auto

lemma root_ne: "stored m par L v \<Longrightarrow> root L \<noteq> 0"
  by (cases L) auto

lemma get_parent_stored:
  "stored m par L v \<Longrightarrow> distinct (own L) \<Longrightarrow> h_json_value_get_parent (root L) m = MDone par"
  using set_parent_stored [of m par L v par] root_ne [of m par L v] by (auto simp: h_json_value_get_parent_def)

lemma take_put:
  assumes "take (length ys) xs = ys" "i \<le> length ys"
  shows "take (length (take i ys @ [z] @ drop (Suc i) ys)) (take i xs @ [z] @ drop (Suc i) xs) = take i ys @ [z] @ drop (Suc i) ys"
proof -
  obtain zs where "xs = ys @ zs" using assms(1) by (metis append_take_drop_id)
  with assms(2) show ?thesis by simp
qed

lemma put_value_stored:
  assumes A: "blocks m a = Some (BArray r)" "a_wrapping r = p" "a_items r = it" "holds_ptrs m it cap ps" "it \<noteq> 0" "a \<noteq> 0" "a \<noteq> it"
      "i < cap" "i \<le> length ps"
    and L: "stored m 0 L v" "distinct (own L)" "{a, it} \<inter> set (own L) = {}"
    and ex: "extends m0 X m" "insert it (set (own L)) \<subseteq> X"
  shows "\<exists>m'. put_value a i (root L) m = MDone m' \<and> refuses m' = refuses m \<and> extends m0 X m' \<and> stored m' p L v \<and>
    (\<forall>q. q \<notin> insert it (set (own L)) \<longrightarrow> blocks m' q = blocks m q) \<and>
    holds_ptrs m' it cap (take i ps @ [root L] @ drop (Suc i) ps)"
proof -
  from A(4) obtain xs where xs: "blocks m it = Some (BPtrs cap xs)" "length ps \<le> length xs" "length xs \<le> cap" "take (length ps) xs = ps"
    by (auto simp: holds_ptrs_def split: option.splits h_block.splits)
  from set_parent_stored [OF L(1,2), of p] obtain u where
    u: "set_parent (root L) p m = MDone (m\<lparr>blocks := (blocks m)(root L \<mapsto> BValue p u)\<rparr>)"
       "stored (m\<lparr>blocks := (blocks m)(root L \<mapsto> BValue p u)\<rparr>) p L v" by blast
  let ?m2 = "m\<lparr>blocks := (blocks m)(root L \<mapsto> BValue p u)\<rparr>"
  let ?ys = "take i xs @ [root L] @ drop (Suc i) xs"
  let ?m3 = "?m2\<lparr>blocks := (blocks ?m2)(it \<mapsto> BPtrs cap ?ys)\<rparr>"
  have ne: "root L \<noteq> a" "root L \<noteq> it" using root_own [of L] L(3) by auto
  have "h_json_array_get_wrapping_value a m = MDone p" "load_array a ?m2 = MDone r"
    using A(1,2,6) ne by (auto simp: h_json_array_get_wrapping_value_def load_array_def mload_def)
  moreover have "store_ptr it i (root L) ?m2 = MDone ?m3"
    using xs ne A(8,9) by (simp add: store_ptr_def mload_def mstore_def)
  ultimately have run: "put_value a i (root L) m = MDone ?m3"
    using A(3) by (simp add: put_value_def u(1))
  have e2: "extends m0 X ?m2"
    by (rule extends_update [OF ex(1), of "root L"]) (use root_own [of L] ex(2) in auto)
  have e3: "extends m0 X ?m3"
    by (rule extends_update [OF e2, of it]) (use ex(2) in auto)
  have "stored ?m3 p L v"
    by (rule stored_frame [OF u(2)]) (use L(3) in auto)
  moreover have "\<forall>q. q \<notin> insert it (set (own L)) \<longrightarrow> blocks ?m3 q = blocks m q"
    using root_own [of L] by auto
  moreover have "holds_ptrs ?m3 it cap (take i ps @ [root L] @ drop (Suc i) ps)"
  proof -
    have "take (length (take i ps @ [root L] @ drop (Suc i) ps)) ?ys = take i ps @ [root L] @ drop (Suc i) ps"
      using xs(4) A(9) by (intro take_put)
    moreover have "length ?ys \<le> cap" using xs(2,3) A(8,9) by simp
    moreover have "length (take i ps @ [root L] @ drop (Suc i) ps) \<le> length ?ys"
      using xs(2) A(9) by simp
    ultimately show ?thesis by (simp add: holds_ptrs_def)
  qed
  ultimately show ?thesis
    using run e3 by (intro exI [of _ ?m3]) simp
qed

end
