(* ===== verification/Parson_Lifecycle.thy ===== *)
theory Parson_Lifecycle
  imports Parson_Owner
begin

text \<open>
  Every operation on an array in memory keeps it a well-formed value that owns its blocks (\<open>array_in\<close>), and so does every sequence of them, from
  \<^verbatim>\<open>json_value_init_array\<close> to \<^verbatim>\<open>json_value_free\<close>, whichever allocations fail in between. The proofs speak of the blocks of the array beside
  an arbitrary rest of the heap, so they hold for an array inside another value as well as for a root.
\<close>

section \<open>The operations keep an array\<close>

text \<open>The value \<open>p\<close>, whose array is at \<open>a\<close>, and its blocks are all that \<open>m\<close> has beyond \<open>m0\<close>; \<open>b\<close> bounds the fuel to release it.\<close>

definition array_in :: "nat \<Rightarrow> jmem \<Rightarrow> jmem \<Rightarrow> addr \<Rightarrow> addr \<Rightarrow> addr \<Rightarrow> json_value json_array \<Rightarrow> bool" where
  "array_in b m0 m par p a t \<longleftrightarrow>
     (\<exists>it Ls. stored m par (LArray p a it Ls) (VArray t) \<and> distinct (own (LArray p a it Ls)) \<and> wf_json (VArray t) \<and>
        extends m0 (set (own (LArray p a it Ls))) m \<and> free_fuel (LArray p a it Ls) \<le> b)"

text \<open>The same with a value that is about to be handed over\<close>

definition array_and :: "nat \<Rightarrow> jmem \<Rightarrow> jmem \<Rightarrow> addr \<Rightarrow> addr \<Rightarrow> addr \<Rightarrow> json_value json_array \<Rightarrow> layout \<Rightarrow> json_value \<Rightarrow> bool" where
  "array_and b m0 m par p a t L v \<longleftrightarrow>
     (\<exists>it Ls. stored m par (LArray p a it Ls) (VArray t) \<and> distinct (own (LArray p a it Ls)) \<and> wf_json (VArray t) \<and>
        extends m0 (set (own (LArray p a it Ls)) \<union> set (own L)) m \<and> free_fuel (LArray p a it Ls) \<le> b \<and>
        stored m 0 L v \<and> distinct (own L) \<and> wf_json v \<and> free_fuel L \<le> 2 \<and> set (own (LArray p a it Ls)) \<inter> set (own L) = {})"

lemma array_inI:
  "stored m par (LArray p a it Ls) (VArray t) \<Longrightarrow> distinct (own (LArray p a it Ls)) \<Longrightarrow> wf_json (VArray t) \<Longrightarrow>
   extends m0 (set (own (LArray p a it Ls))) m \<Longrightarrow> free_fuel (LArray p a it Ls) \<le> b \<Longrightarrow> array_in b m0 m par p a t"
  unfolding array_in_def by blast

lemma array_inE:
  assumes "array_in b m0 m par p a t"
  obtains it Ls where "stored m par (LArray p a it Ls) (VArray t)" "distinct (own (LArray p a it Ls))" "wf_json (VArray t)"
    "extends m0 (set (own (LArray p a it Ls))) m" "free_fuel (LArray p a it Ls) \<le> b"
  using assms unfolding array_in_def by blast

lemma array_andE:
  assumes "array_and b m0 m par p a t L v"
  obtains it Ls where "stored m par (LArray p a it Ls) (VArray t)" "distinct (own (LArray p a it Ls))" "wf_json (VArray t)"
    "extends m0 (set (own (LArray p a it Ls)) \<union> set (own L)) m" "free_fuel (LArray p a it Ls) \<le> b"
    "stored m 0 L v" "distinct (own L)" "wf_json v" "free_fuel L \<le> 2" "set (own (LArray p a it Ls)) \<inter> set (own L) = {}"
  using assms unfolding array_and_def by blast

lemma array_in_more: "array_in b m0 m par p a t \<Longrightarrow> b \<le> c \<Longrightarrow> array_in c m0 m par p a t"
  unfolding array_in_def by (meson le_trans)

lemma array_in_same:
  assumes "array_in b m0 m par p a t" "blocks m' = blocks m" "wf_mem m'"
  shows "array_in b m0 m' par p a t"
  using assms(1)
proof (rule array_inE)
  fix it Ls assume *: "stored m par (LArray p a it Ls) (VArray t)" "distinct (own (LArray p a it Ls))" "wf_json (VArray t)"
    "extends m0 (set (own (LArray p a it Ls))) m" "free_fuel (LArray p a it Ls) \<le> b"
  show ?thesis
    by (rule array_inI [OF stored_frame [OF *(1)] *(2,3) extends_same [OF *(4)] *(5)]) (use assms(2,3) in auto)
qed

lemma array_and_same:
  assumes "array_and b m0 m par p a t L v" "blocks m' = blocks m" "wf_mem m'"
  shows "array_and b m0 m' par p a t L v"
  using assms(1)
proof (rule array_andE)
  fix it Ls assume *: "stored m par (LArray p a it Ls) (VArray t)" "distinct (own (LArray p a it Ls))" "wf_json (VArray t)"
    "extends m0 (set (own (LArray p a it Ls)) \<union> set (own L)) m" "free_fuel (LArray p a it Ls) \<le> b"
    "stored m 0 L v" "distinct (own L)" "wf_json v" "free_fuel L \<le> 2" "set (own (LArray p a it Ls)) \<inter> set (own L) = {}"
  have "stored m' par (LArray p a it Ls) (VArray t)" "stored m' 0 L v" "extends m0 (set (own (LArray p a it Ls)) \<union> set (own L)) m'"
    using stored_frame [OF *(1), of m'] stored_frame [OF *(6), of m'] extends_same [OF *(4)] assms(2,3) by simp_all
  then show ?thesis unfolding array_and_def using * by blast
qed

text \<open>A value that was refused is released, and the array remains.\<close>

lemma release_refused:
  assumes "array_and b m0 m par p a t L v" "2 \<le> n"
  shows "\<exists>m'. h_json_value_free n (root L) m = MDone m' \<and> refuses m' = refuses m \<and> array_in b m0 m' par p a t"
  using assms(1)
proof (rule array_andE)
  fix it Ls assume *: "stored m par (LArray p a it Ls) (VArray t)" "distinct (own (LArray p a it Ls))" "wf_json (VArray t)"
    "extends m0 (set (own (LArray p a it Ls)) \<union> set (own L)) m" "free_fuel (LArray p a it Ls) \<le> b"
    "stored m 0 L v" "distinct (own L)" "wf_json v" "free_fuel L \<le> 2" "set (own (LArray p a it Ls)) \<inter> set (own L) = {}"
  have "h_json_value_free n (root L) m = MDone (release (set (own L)) m)"
    using free_stored [OF *(6,8,7)] *(9) assms(2) by simp
  moreover have "stored (release (set (own L)) m) par (LArray p a it Ls) (VArray t)"
    by (rule stored_release [OF *(1)]) (use *(10) in auto)
  moreover have "extends m0 (set (own (LArray p a it Ls))) (release (set (own L)) m)"
    by (rule extends_drop [OF *(4,10)])
  ultimately show ?thesis using array_inI [OF _ *(2,3) _ *(5)] by auto
qed

text \<open>What a function that takes over a value may do: take it, or refuse it and change nothing.\<close>

definition takes_over ::
  "(addr \<Rightarrow> jmem \<Rightarrow> (json_status \<times> jmem) run) \<Rightarrow> nat \<Rightarrow> json_value json_array \<Rightarrow> (json_value \<Rightarrow> json_status \<times> json_value json_array) \<Rightarrow> addr \<Rightarrow> bool" where
  "takes_over f b t g a \<longleftrightarrow>
     (\<forall>m0 m par p L v. array_and b m0 m par p a t L v \<longrightarrow>
        (\<exists>st m'. f (root L) m = MDone (st, m') \<and> refuses m' = refuses m \<and>
           (if st = JSONSuccess then g v = (JSONSuccess, snd (g v)) \<and> array_in (b + 3) m0 m' par p a (snd (g v))
            else blocks m' = blocks m \<and> wf_mem m' \<and> ((\<exists>q. refuses m q) \<or> g v = (JSONFailure, t)))))"

lemma hand_over_ok:
  assumes A: "array_in b m0 m par p a t" and f: "takes_over f b t g a" and n: "2 \<le> n"
  shows "\<exists>st m' t'. hand_over n x f m = MDone (st, m') \<and> refuses m' = refuses m \<and> array_in (b + 3) m0 m' par p a t' \<and>
    ((st, t') = (case made x of None \<Rightarrow> (JSONFailure, t) | Some v \<Rightarrow> g v) \<or> (\<exists>q. refuses m q) \<and> st = JSONFailure \<and> t' = t)"
proof -
  from A obtain it Ls where *: "stored m par (LArray p a it Ls) (VArray t)" "distinct (own (LArray p a it Ls))" "wf_json (VArray t)"
    "extends m0 (set (own (LArray p a it Ls))) m" "free_fuel (LArray p a it Ls) \<le> b" by (rule array_inE)
  from h_make_makes [OF extends_wf [OF *(4)], of x] obtain q m1 where
    mk: "h_make x m = MDone (q, m1)" "makes m (made x) (q, m1)" by auto
  show ?thesis
  proof (cases "q = 0")
    case True
    with mk(2) have ex: "extends m0 (set (own (LArray p a it Ls))) m1" and r: "refuses m1 = refuses m"
      and w: "made x = None \<or> (\<exists>q. refuses m q)" and eq: "extends m {} m1"
      using *(4) extends_refl [OF extends_wf [OF *(4)]] by (auto simp: makes_def)
    have "array_in b m0 m1 par p a t"
      by (rule array_in_same [OF A]) (use eq in \<open>auto simp: extends_def\<close>)
    then show ?thesis
      using True mk(1) r w
      by (intro exI [of _ JSONFailure] exI [of _ m1] exI [of _ t]) (auto simp: hand_over_def intro: array_in_more)
  next
    case False
    from mk(2) False obtain L v where M: "made x = Some v" "root L = q" "stored m1 0 L v" "distinct (own L)" "wf_json v" "free_fuel L \<le> 2"
      "refuses m1 = refuses m" "\<forall>m0 A. extends m0 A m \<longrightarrow> extends m0 (A \<union> set (own L)) m1 \<and> A \<inter> set (own L) = {}"
      unfolding makes_def by auto
    note L = M(1-6) M(8) [rule_format, OF *(4), THEN conjunct1] M(8) [rule_format, OF *(4), THEN conjunct2]
      M(8) [rule_format, OF extends_refl [OF extends_wf [OF *(4)]], THEN conjunct1, simplified] M(7)
    have "stored m1 par (LArray p a it Ls) (VArray t)"
      by (rule stored_frame [OF *(1)]) (use L(8,9) in \<open>auto simp: extends_def\<close>)
    then have B: "array_and b m0 m1 par p a t L v"
      unfolding array_and_def using * L by blast
    from f [unfolded takes_over_def, rule_format, OF B] obtain st m2 where
      2: "f q m1 = MDone (st, m2)" "refuses m2 = refuses m1"
      "if st = JSONSuccess then g v = (JSONSuccess, snd (g v)) \<and> array_in (b + 3) m0 m2 par p a (snd (g v))
       else blocks m2 = blocks m1 \<and> wf_mem m2 \<and> ((\<exists>q. refuses m1 q) \<or> g v = (JSONFailure, t))"
      using L(2) by blast
    show ?thesis
    proof (cases st)
      case JSONSuccess
      with 2 mk(1) False L show ?thesis by (auto simp: hand_over_def)
    next
      case JSONFailure
      with 2 have "array_and b m0 m2 par p a t L v" by (auto intro: array_and_same [OF B])
      from release_refused [OF this n] obtain m3 where
        3: "h_json_value_free n q m2 = MDone m3" "refuses m3 = refuses m2" "array_in b m0 m3 par p a t" using L(2) by auto
      with 2 mk(1) False L JSONFailure show ?thesis
        by (intro exI [of _ JSONFailure] exI [of _ m3] exI [of _ t]) (auto simp: hand_over_def intro: array_in_more)
    qed
  qed
qed

lemma list_all2_snoc: "list_all2 P xs ys \<Longrightarrow> P x y \<Longrightarrow> list_all2 P (xs @ [x]) (ys @ [y])"
  by (simp add: list_all2_appendI)

lemma add_room:
  assumes A: "stored m par (LArray p a it Ls) (VArray t)" "length Ls < arr_capacity t" "distinct (own (LArray p a it Ls))"
      "wf_json (VArray t)" "free_fuel (LArray p a it Ls) \<le> b"
    and L: "stored m 0 L v" "distinct (own L)" "wf_json v" "free_fuel L \<le> 2" "set (own (LArray p a it Ls)) \<inter> set (own L) = {}"
    and ex: "extends m0 (set (own (LArray p a it Ls)) \<union> set (own L)) m"
  shows "\<exists>m'. mbind (put_value a (length Ls) (root L) m) (\<lambda>m2.
      mbind (load_array a m2) (\<lambda>r2.
      mbind (mstore a (BArray (r2\<lparr>a_count := Suc (a_count r2)\<rparr>)) m2) (\<lambda>m3. MDone (JSONSuccess, m3)))) = MDone (JSONSuccess, m') \<and>
    refuses m' = refuses m \<and> array_in (b + 3) m0 m' par p a (JSON_Array (arr_items t @ [v]) (arr_capacity t))"
proof -
  note s = A(1) [unfolded stored_array]
  let ?r = "\<lparr>a_wrapping = p, a_items = it, a_count = length Ls, a_capacity = arr_capacity t\<rparr>"
  have ptrs: "it \<noteq> 0" "holds_ptrs m it (arr_capacity t) (map root Ls)" using s A(2) by (auto split: if_splits)
  have "\<exists>m'. put_value a (length Ls) (root L) m = MDone m' \<and> refuses m' = refuses m \<and>
      extends m0 (set (own (LArray p a it Ls)) \<union> set (own L)) m' \<and> stored m' p L v \<and>
      (\<forall>q. q \<notin> insert it (set (own L)) \<longrightarrow> blocks m' q = blocks m q) \<and>
      holds_ptrs m' it (arr_capacity t) (take (length Ls) (map root Ls) @ [root L] @ drop (Suc (length Ls)) (map root Ls))"
    by (rule put_value_stored [where r = ?r, OF _ _ _ ptrs(2,1) _ _ A(2) _ L(1,2) _ ex]) (use s A(3) L(5) ptrs(1) in auto)
  then obtain m2 where
    2: "put_value a (length Ls) (root L) m = MDone m2" "refuses m2 = refuses m"
      "extends m0 (set (own (LArray p a it Ls)) \<union> set (own L)) m2" "stored m2 p L v"
      "\<And>q. q \<notin> insert it (set (own L)) \<Longrightarrow> blocks m2 q = blocks m q"
      "holds_ptrs m2 it (arr_capacity t) (map root (Ls @ [L]))" by auto
  have items: "list_all2 (stored m2 p) Ls (arr_items t)"
  proof (rule stored_items_frame [where m = m])
    fix q assume "q \<in> set (concat (map own Ls))"
    then show "blocks m2 q = blocks m q" by (intro 2(5)) (use A(3) L(5) ptrs(1) in auto)
  qed (use s in blast)
  let ?m3 = "m2\<lparr>blocks := (blocks m2)(a \<mapsto> BArray (?r\<lparr>a_count := Suc (length Ls)\<rparr>))\<rparr>"
  have ba: "blocks m2 a = Some (BArray ?r)" "blocks m2 p = Some (BValue par (UArray a))"
    using 2(5) [of a] 2(5) [of p] s A(3) L(5) ptrs(1) by auto
  have "list_all2 (stored ?m3 p) (Ls @ [L]) (arr_items t @ [v])"
    by (rule stored_items_frame [OF list_all2_snoc [OF items 2(4)]]) (use A(3) L(5) in auto)
  moreover have "holds_ptrs ?m3 it (arr_capacity t) (map root (Ls @ [L]))"
    by (rule holds_ptrs_frame [OF 2(6)]) (use A(3) ptrs(1) in auto)
  ultimately have "stored ?m3 par (LArray p a it (Ls @ [L])) (VArray (JSON_Array (arr_items t @ [v]) (arr_capacity t)))"
    unfolding stored_array using s ba(2) ptrs(1) A(2,3) by auto
  moreover have "distinct (own (LArray p a it (Ls @ [L])))"
    using A(3) L(2,5) by auto
  moreover have "wf_json (VArray (JSON_Array (arr_items t @ [v]) (arr_capacity t)))"
    using A(2,4) L(3) s by (auto simp: wf_array_def dest: list_all2_lengthD)
  moreover have "extends m0 (set (own (LArray p a it (Ls @ [L])))) ?m3"
  proof -
    have "set (own (LArray p a it (Ls @ [L]))) = set (own (LArray p a it Ls)) \<union> set (own L)" by auto
    then show ?thesis using extends_update [OF 2(3), of a ?m3] by auto
  qed
  moreover have "free_fuel (LArray p a it (Ls @ [L])) \<le> b + 3"
    using A(5) L(4) by simp
  ultimately have "array_in (b + 3) m0 ?m3 par p a (JSON_Array (arr_items t @ [v]) (arr_capacity t))"
    by (rule array_inI)
  then show ?thesis
    using 2(1,2) ba by (intro exI [of _ ?m3]) (simp add: load_array_def mload_live mstore_live)
qed

lemma append_takes_over: "takes_over (h_json_array_append_value a) b t (json_array_add t) a"
  unfolding takes_over_def
proof (intro allI impI)
  fix m0 m :: jmem and par p L v
  assume "array_and b m0 m par p a t L v"
  then show "\<exists>st m'. h_json_array_append_value a (root L) m = MDone (st, m') \<and> refuses m' = refuses m \<and>
     (if st = JSONSuccess then json_array_add t v = (JSONSuccess, snd (json_array_add t v)) \<and>
        array_in (b + 3) m0 m' par p a (snd (json_array_add t v))
      else blocks m' = blocks m \<and> wf_mem m' \<and> ((\<exists>q. refuses m q) \<or> json_array_add t v = (JSONFailure, t)))"
  proof (rule array_andE)
    fix it Ls assume *: "stored m par (LArray p a it Ls) (VArray t)" "distinct (own (LArray p a it Ls))" "wf_json (VArray t)"
      "extends m0 (set (own (LArray p a it Ls)) \<union> set (own L)) m" "free_fuel (LArray p a it Ls) \<le> b"
      "stored m 0 L v" "distinct (own L)" "wf_json v" "free_fuel L \<le> 2" "set (own (LArray p a it Ls)) \<inter> set (own L) = {}"
    note s = *(1) [unfolded stored_array]
    have len: "length Ls = length (arr_items t)" using s by (auto dest: list_all2_lengthD)
    have start: "h_json_array_append_value a (root L) m = h_json_array_add a (root L) m"
      using s root_ne [OF *(6)] get_parent_stored [OF *(6,7)] by (simp add: h_json_array_append_value_def)
    have ld: "load_array a m = MDone \<lparr>a_wrapping = p, a_items = it, a_count = length Ls, a_capacity = arr_capacity t\<rparr>"
      using s by (simp add: load_array_def mload_live)
    show ?thesis
    proof (cases "length Ls < arr_capacity t")
      case True
      then have pure: "json_array_add t v = (JSONSuccess, JSON_Array (arr_items t @ [v]) (arr_capacity t))"
        using len by (simp add: json_array_add_def)
      show ?thesis
        using add_room [OF *(1) True *(2,3,5,6,7,8,9,10,4)] True ld
        by (auto simp: start h_json_array_add_def pure)
    next
      case False
      let ?cap = "max (arr_capacity t * 2) STARTING_CAPACITY"
      have eq: "length Ls = arr_capacity t" using False *(3) len by (simp add: wf_array_def)
      have cap: "0 < ?cap" "length Ls < ?cap" using eq by (auto simp: STARTING_CAPACITY_def)
      have pure: "json_array_add t v = (JSONSuccess, JSON_Array (arr_items t @ [v]) ?cap)"
        using False len by (simp add: json_array_add_def json_array_resize_def STARTING_CAPACITY_def)
      from resize_stored [OF *(1,3) cap(1) less_imp_le [OF cap(2)] *(2,10,4)] show ?thesis
      proof cases
        case (1 m')
        then show ?thesis using False ld by (auto simp: start h_json_array_add_def)
      next
        case (2 m' it')
        let ?t = "JSON_Array (arr_items t) ?cap"
        have L': "stored m' 0 L v" by (rule stored_frame [OF *(6)]) (use 2(7) in auto)
        have wf: "wf_json (VArray ?t)" using *(3) cap(2) len by (simp add: wf_array_def)
        have "length Ls < arr_capacity ?t" using cap by simp
        from add_room [OF 2(3) this 2(4) wf _ L' *(7,8,9) 2(5,6), of b] show ?thesis
          using *(5) 2(1,2) False ld by (auto simp: start h_json_array_add_def pure)
      qed
    qed
  qed
qed

lemma get_value_stored:
  assumes "stored m par (LArray p a it Ls) (VArray t)" "wf_json (VArray t)" "i < length Ls"
  shows "h_json_array_get_value a i m = MDone (root (Ls ! i))"
proof -
  note s = assms(1) [unfolded stored_array]
  have "holds_ptrs m it (arr_capacity t) (map root Ls)"
    using s assms(2,3) by (auto simp: wf_array_def dest: list_all2_lengthD split: if_splits)
  from load_ptr_nth [OF this, of i] show ?thesis
    using s assms(3) by (simp add: h_json_array_get_value_def load_array_def mload_live)
qed

lemma own_nth: "i < length Ls \<Longrightarrow> set (own (Ls ! i)) \<subseteq> set (concat (map own Ls))"
  by (auto intro: nth_mem)

text \<open>The values of an array other than the one at \<open>i\<close>, by position\<close>

lemma items_others:
  assumes "distinct (concat (map own Ls))" "i < length Ls" "j < length Ls" "j \<noteq> i"
  shows "set (own (Ls ! j)) \<inter> set (own (Ls ! i)) = {}"
proof -
  have "Ls = take i Ls @ Ls ! i # drop (Suc i) Ls" using assms(2) by (rule id_take_nth_drop)
  then have "distinct (concat (map own (take i Ls @ Ls ! i # drop (Suc i) Ls)))" using assms(1) by simp
  moreover have "Ls ! j \<in> set (take i Ls) \<union> set (drop (Suc i) Ls)"
  proof (cases "j < i")
    case True
    then have "take i Ls ! j = Ls ! j" "j < length (take i Ls)" using assms(2) by auto
    then show ?thesis by (metis UnI1 nth_mem)
  next
    case False
    then have "drop (Suc i) Ls ! (j - Suc i) = Ls ! j" "j - Suc i < length (drop (Suc i) Ls)" using assms(3,4) by auto
    then show ?thesis by (metis UnI2 nth_mem)
  qed
  ultimately show ?thesis by fastforce
qed

lemma concat_own_update:
  assumes "distinct (concat (map own Ls))" "i < length Ls"
  shows "set (concat (map own (Ls[i := L]))) = (set (concat (map own Ls)) - set (own (Ls ! i))) \<union> set (own L)"
    and "distinct (own L) \<Longrightarrow> set (own L) \<inter> set (concat (map own Ls)) = {} \<Longrightarrow> distinct (concat (map own (Ls[i := L])))"
    and "set (concat (map own (take i Ls @ drop (Suc i) Ls))) = set (concat (map own Ls)) - set (own (Ls ! i))"
    and "distinct (concat (map own (take i Ls @ drop (Suc i) Ls)))"
proof -
  define xs ys where x: "xs = take i Ls" and y: "ys = drop (Suc i) Ls"
  have Ls: "Ls = xs @ Ls ! i # ys" unfolding x y using assms(2) by (rule id_take_nth_drop)
  have up: "Ls[i := L] = xs @ L # ys" unfolding x y using assms(2) by (rule upd_conv_take_nth_drop)
  have d: "distinct (concat (map own (xs @ Ls ! i # ys)))" using assms(1) Ls by simp
  have s: "set (concat (map own Ls)) = set (concat (map own (xs @ Ls ! i # ys)))" using Ls by simp
  show "set (concat (map own (Ls[i := L]))) = (set (concat (map own Ls)) - set (own (Ls ! i))) \<union> set (own L)"
    unfolding up s using d by auto
  show "distinct (concat (map own (Ls[i := L])))" if "distinct (own L)" "set (own L) \<inter> set (concat (map own Ls)) = {}"
    using that d unfolding up s by auto
  show "set (concat (map own (take i Ls @ drop (Suc i) Ls))) = set (concat (map own Ls)) - set (own (Ls ! i))"
    unfolding s x [symmetric] y [symmetric] using d by auto
  show "distinct (concat (map own (take i Ls @ drop (Suc i) Ls)))"
    unfolding x [symmetric] y [symmetric] using d by auto
qed

lemma release_item:
  assumes A: "stored m par (LArray p a it Ls) (VArray t)" "distinct (own (LArray p a it Ls))" "wf_json (VArray t)"
      "free_fuel (LArray p a it Ls) \<le> n" "i < length Ls"
  obtains m1 where "m1 = release (set (own (Ls ! i))) m" "h_json_value_free n (root (Ls ! i)) m = MDone m1"
    "p \<noteq> 0" "a \<noteq> 0" "it \<noteq> 0" "p \<noteq> a" "p \<noteq> it" "a \<noteq> it" "length Ls = length (arr_items t)" "length Ls \<le> arr_capacity t"
    "blocks m1 p = Some (BValue par (UArray a))"
    "blocks m1 a = Some (BArray \<lparr>a_wrapping = p, a_items = it, a_count = length Ls, a_capacity = arr_capacity t\<rparr>)"
    "holds_ptrs m1 it (arr_capacity t) (map root Ls)"
    "\<And>j. j < length Ls \<Longrightarrow> j \<noteq> i \<Longrightarrow> stored m1 p (Ls ! j) (arr_items t ! j)"
    "{p, a, it} \<inter> set (concat (map own Ls)) = {}"
proof -
  note s = A(1) [unfolded stored_array]
  let ?m1 = "release (set (own (Ls ! i))) m"
  have len: "length Ls = length (arr_items t)" "length Ls \<le> arr_capacity t"
    using s A(3) by (auto simp: wf_array_def dest: list_all2_lengthD)
  have it: "it \<noteq> 0" "holds_ptrs m it (arr_capacity t) (map root Ls)"
    using s A(5) len by (auto split: if_splits)
  have st: "stored m p (Ls ! j) (arr_items t ! j)" if "j < length Ls" for j
    using s that by (auto simp: list_all2_conv_all_nth)
  have fresh: "{p, a, it} \<inter> set (concat (map own Ls)) = {}" "p \<noteq> a" "p \<noteq> it" "a \<noteq> it"
    using A(2) it(1) by auto
  have dc: "distinct (concat (map own Ls))" using A(2) by auto
  have i: "wf_json (arr_items t ! i)" "distinct (own (Ls ! i))" "free_fuel (Ls ! i) \<le> n"
    using A(3-5) len dc free_fuel_elem [of "Ls ! i" Ls] by (auto simp: distinct_concat_iff)
  have notin: "{p, a, it} \<inter> set (own (Ls ! i)) = {}" using fresh(1) own_nth [OF A(5)] by blast
  show thesis
  proof (rule that [of ?m1])
    show "h_json_value_free n (root (Ls ! i)) m = MDone ?m1"
      by (rule free_stored [OF st [OF A(5)] i])
    show "holds_ptrs ?m1 it (arr_capacity t) (map root Ls)"
      by (rule holds_ptrs_frame [OF it(2)]) (use notin in auto)
    show "stored ?m1 p (Ls ! j) (arr_items t ! j)" if "j < length Ls" "j \<noteq> i" for j
      by (rule stored_release [OF st [OF that(1)] items_others [OF dc A(5) that]])
  qed (use s len it fresh notin in auto)
qed

lemma replace_takes_over:
  assumes "b \<le> n"
  shows "takes_over (h_json_array_replace_value n a i) b t (\<lambda>v. json_array_replace_value t i (Some v)) a"
  unfolding takes_over_def
proof (intro allI impI)
  fix m0 m :: jmem and par p L v
  let ?g = "json_array_replace_value t i (Some v)"
  assume "array_and b m0 m par p a t L v"
  then show "\<exists>st m'. h_json_array_replace_value n a i (root L) m = MDone (st, m') \<and> refuses m' = refuses m \<and>
     (if st = JSONSuccess then ?g = (JSONSuccess, snd ?g) \<and> array_in (b + 3) m0 m' par p a (snd ?g)
      else blocks m' = blocks m \<and> wf_mem m' \<and> ((\<exists>q. refuses m q) \<or> ?g = (JSONFailure, t)))"
  proof (rule array_andE)
    fix it Ls assume *: "stored m par (LArray p a it Ls) (VArray t)" "distinct (own (LArray p a it Ls))" "wf_json (VArray t)"
      "extends m0 (set (own (LArray p a it Ls)) \<union> set (own L)) m" "free_fuel (LArray p a it Ls) \<le> b"
      "stored m 0 L v" "distinct (own L)" "wf_json v" "free_fuel L \<le> 2" "set (own (LArray p a it Ls)) \<inter> set (own L) = {}"
    note s = *(1) [unfolded stored_array]
    let ?r = "\<lparr>a_wrapping = p, a_items = it, a_count = length Ls, a_capacity = arr_capacity t\<rparr>"
    have len: "length Ls = length (arr_items t)" using s by (auto dest: list_all2_lengthD)
    have ld: "load_array a m = MDone ?r" using s by (simp add: load_array_def mload_live)
    have guard: "h_json_value_get_parent (root L) m = MDone 0" "root L \<noteq> 0" "a \<noteq> 0"
      using get_parent_stored [OF *(6,7)] root_ne [OF *(6)] s by auto
    show ?thesis
    proof (cases "i < length Ls")
      case False
      then show ?thesis
        using guard ld len extends_wf [OF *(4)]
        by (auto simp: h_json_array_replace_value_def json_array_replace_value_def json_array_get_count_def)
    next
      case True
      have fuel: "free_fuel (LArray p a it Ls) \<le> n" using *(5) assms by simp
      from release_item [OF *(1-3) fuel True] obtain m1 where
        m1: "m1 = release (set (own (Ls ! i))) m" "h_json_value_free n (root (Ls ! i)) m = MDone m1"
        and ne: "p \<noteq> 0" "a \<noteq> 0" "it \<noteq> 0" "p \<noteq> a" "p \<noteq> it" "a \<noteq> it" and cap: "length Ls \<le> arr_capacity t"
        and b1: "blocks m1 p = Some (BValue par (UArray a))" "blocks m1 a = Some (BArray ?r)"
        and ptrs: "holds_ptrs m1 it (arr_capacity t) (map root Ls)"
        and items: "\<And>j. j < length Ls \<Longrightarrow> j \<noteq> i \<Longrightarrow> stored m1 p (Ls ! j) (arr_items t ! j)"
        and fresh: "{p, a, it} \<inter> set (concat (map own Ls)) = {}" by metis
      let ?X = "(set (own (LArray p a it Ls)) \<union> set (own L)) - set (own (Ls ! i))"
      have sub: "set (own (Ls ! i)) \<subseteq> set (own (LArray p a it Ls))" using own_nth [OF True] by auto
      have dc: "distinct (concat (map own Ls))" and apart: "set (own L) \<inter> set (concat (map own Ls)) = {}" using *(2,10) by auto
      have ex1: "extends m0 ?X m1" unfolding m1(1) by (rule extends_less [OF *(4)]) (use sub in auto)
      have L1: "stored m1 0 L v" unfolding m1(1) by (rule stored_release [OF *(6)]) (use sub *(10) in auto)
      have "\<exists>m'. put_value a i (root L) m1 = MDone m' \<and> refuses m' = refuses m1 \<and> extends m0 ?X m' \<and> stored m' p L v \<and>
          (\<forall>q. q \<notin> insert it (set (own L)) \<longrightarrow> blocks m' q = blocks m1 q) \<and>
          holds_ptrs m' it (arr_capacity t) (take i (map root Ls) @ [root L] @ drop (Suc i) (map root Ls))"
        by (rule put_value_stored [where r = ?r, OF b1(2) _ _ ptrs ne(3,2,6) _ _ L1 *(7) _ ex1])
          (use True cap *(10) ne fresh own_nth [OF True] sub in auto)
      then obtain m2 where
        2: "put_value a i (root L) m1 = MDone m2" "refuses m2 = refuses m1" "extends m0 ?X m2" "stored m2 p L v"
          "\<And>q. q \<notin> insert it (set (own L)) \<Longrightarrow> blocks m2 q = blocks m1 q"
          "holds_ptrs m2 it (arr_capacity t) (map root (Ls[i := L]))"
        using True by (auto simp: upd_conv_take_nth_drop map_update take_map drop_map)
      have "list_all2 (stored m2 p) (Ls[i := L]) ((arr_items t)[i := v])"
        unfolding list_all2_conv_all_nth
      proof (intro conjI allI impI)
        fix j assume j: "j < length (Ls[i := L])"
        show "stored m2 p (Ls[i := L] ! j) ((arr_items t)[i := v] ! j)"
        proof (cases "j = i")
          case True
          then show ?thesis using 2(4) j len by simp
        next
          case False
          have "stored m2 p (Ls ! j) (arr_items t ! j)"
          proof (rule stored_frame [OF items])
            show "\<forall>q \<in> set (own (Ls ! j)). blocks m2 q = blocks m1 q"
              using own_nth [of j Ls] j *(10) fresh by (intro ballI 2(5)) fastforce
          qed (use j False in auto)
          then show ?thesis using False j by simp
        qed
      qed (simp add: len)
      moreover have "blocks m2 p = Some (BValue par (UArray a))" "blocks m2 a = Some (BArray ?r)"
        using 2(5) [of p] 2(5) [of a] b1 ne *(10) by auto
      ultimately have S: "stored m2 par (LArray p a it (Ls[i := L])) (VArray (JSON_Array ((arr_items t)[i := v]) (arr_capacity t)))"
        unfolding stored_array using ne 2(6) True cap by auto
      have X: "distinct (own (LArray p a it (Ls[i := L])))" "set (own (LArray p a it (Ls[i := L]))) = ?X"
        using concat_own_update(1) [OF dc True, of L] concat_own_update(2) [OF dc True *(7) apart] *(10) fresh own_nth [OF True] ne by auto
      have W: "wf_json (VArray (JSON_Array ((arr_items t)[i := v]) (arr_capacity t)))"
        using *(3,8) True len by (auto simp: wf_array_def dest: set_update_subset_insert [THEN subsetD])
      have E: "extends m0 (set (own (LArray p a it (Ls[i := L])))) m2" unfolding X(2) by (rule 2(3))
      have F: "free_fuel (LArray p a it (Ls[i := L])) \<le> b + 3"
      proof -
        have "sum_list (map free_fuel (Ls[i := L])) \<le> sum_list (map free_fuel Ls) + free_fuel L"
          using True by (induction Ls arbitrary: i) (auto split: nat.splits)
        with *(5,9) show ?thesis by simp
      qed
      have "array_in (b + 3) m0 m2 par p a (JSON_Array ((arr_items t)[i := v]) (arr_capacity t))"
        by (rule array_inI [OF S X(1) W E F])
      then show ?thesis
        using guard ld True m1 2(1,2) get_value_stored [OF *(1,3) True] len
        by (auto simp: h_json_array_replace_value_def json_array_replace_value_def json_array_get_count_def)
    qed
  qed
qed

lemma remove_ok:
  assumes A: "array_in b m0 m par p a t" and n: "b \<le> n"
  shows "\<exists>m'. h_json_array_remove n a i m = MDone (fst (json_array_remove t i), m') \<and> refuses m' = refuses m \<and>
    array_in (b + 3) m0 m' par p a (snd (json_array_remove t i))"
  using A
proof (rule array_inE)
  fix it Ls assume *: "stored m par (LArray p a it Ls) (VArray t)" "distinct (own (LArray p a it Ls))" "wf_json (VArray t)"
    "extends m0 (set (own (LArray p a it Ls))) m" "free_fuel (LArray p a it Ls) \<le> b"
  note s = *(1) [unfolded stored_array]
  let ?r = "\<lparr>a_wrapping = p, a_items = it, a_count = length Ls, a_capacity = arr_capacity t\<rparr>"
  have len: "length Ls = length (arr_items t)" using s by (auto dest: list_all2_lengthD)
  have ld: "load_array a m = MDone ?r" using s by (simp add: load_array_def mload_live)
  show ?thesis
  proof (cases "i < length Ls")
    case False
    then show ?thesis
      using ld len s array_in_more [OF A, of "b + 3"]
      by (auto simp: h_json_array_remove_def json_array_remove_def json_array_get_count_def)
  next
    case True
    have fuel: "free_fuel (LArray p a it Ls) \<le> n" using *(5) n by simp
    from release_item [OF *(1-3) fuel True] obtain m1 where
      m1: "m1 = release (set (own (Ls ! i))) m" "h_json_value_free n (root (Ls ! i)) m = MDone m1"
      and ne: "p \<noteq> 0" "a \<noteq> 0" "it \<noteq> 0" "p \<noteq> a" "p \<noteq> it" "a \<noteq> it" and cap: "length Ls \<le> arr_capacity t"
      and b1: "blocks m1 p = Some (BValue par (UArray a))" "blocks m1 a = Some (BArray ?r)"
      and ptrs: "holds_ptrs m1 it (arr_capacity t) (map root Ls)"
      and items: "\<And>j. j < length Ls \<Longrightarrow> j \<noteq> i \<Longrightarrow> stored m1 p (Ls ! j) (arr_items t ! j)"
      and fresh: "{p, a, it} \<inter> set (concat (map own Ls)) = {}" by metis
    let ?X = "set (own (LArray p a it Ls)) - set (own (Ls ! i))" and ?Ks = "take i Ls @ drop (Suc i) Ls"
    let ?t = "JSON_Array (take i (arr_items t) @ drop (i + 1) (arr_items t)) (arr_capacity t)"
    have sub: "set (own (Ls ! i)) \<subseteq> set (own (LArray p a it Ls))" using own_nth [OF True] by auto
    have ex1: "extends m0 ?X m1" unfolding m1(1) by (rule extends_less [OF *(4) sub])
    from ptrs obtain xs where xs: "blocks m1 it = Some (BPtrs (arr_capacity t) xs)" "length Ls \<le> length xs"
      "length xs \<le> arr_capacity t" "take (length Ls) xs = map root Ls"
      by (auto simp: holds_ptrs_def split: option.splits h_block.splits)
    define k where "k = length Ls - 1 - i"
    define ys where "ys = take i xs @ take k (drop (i + 1) xs) @ drop (i + k) xs"
    let ?m2 = "m1\<lparr>blocks := (blocks m1)(it \<mapsto> BPtrs (arr_capacity t) ys)\<rparr>"
    let ?m3 = "?m2\<lparr>blocks := (blocks ?m2)(a \<mapsto> BArray (?r\<lparr>a_count := length Ls - 1\<rparr>))\<rparr>"
    obtain zs where zs: "xs = map root Ls @ zs" using xs(4) by (metis append_take_drop_id)
    have ys: "length ys = length xs" "take (length ?Ks) ys = map root ?Ks"
      using True xs(2) by (auto simp: ys_def k_def zs take_map drop_map)
    have run: "h_json_array_remove n a i m = MDone (JSONSuccess, ?m3)"
      using True ld ne get_value_stored [OF *(1,3) True] m1(2) b1(2) xs(1,2)
      by (simp add: h_json_array_remove_def load_array_def mload_live mstore_live ys_def k_def Let_def)
    have e2: "extends m0 ?X ?m2"
      by (rule extends_update [OF ex1, of it]) (use fresh own_nth [OF True] ne in auto)
    have e3: "extends m0 ?X ?m3"
      by (rule extends_update [OF e2, of a]) (use fresh own_nth [OF True] ne in auto)
    have "list_all2 (stored m1 p) ?Ks (take i (arr_items t) @ drop (i + 1) (arr_items t))"
      using items len True by (auto simp: list_all2_conv_all_nth nth_append)
    then have "list_all2 (stored ?m3 p) ?Ks (take i (arr_items t) @ drop (i + 1) (arr_items t))"
    proof (rule stored_items_frame)
      fix q assume "q \<in> set (concat (map own ?Ks))"
      then have "q \<in> set (concat (map own Ls))" by (auto dest: in_set_takeD in_set_dropD)
      then show "blocks ?m3 q = blocks m1 q" using fresh by auto
    qed
    moreover have "holds_ptrs ?m3 it (arr_capacity t) (map root ?Ks)"
      using ys xs(2,3) ne True by (simp add: holds_ptrs_def)
    ultimately have S: "stored ?m3 par (LArray p a it ?Ks) (VArray ?t)"
      unfolding stored_array using ne b1 True cap by auto
    have X: "distinct (own (LArray p a it ?Ks))" "set (own (LArray p a it ?Ks)) = ?X"
      using concat_own_update(3,4) [OF _ True] *(2) fresh own_nth [OF True] ne by auto
    have W: "wf_json (VArray ?t)"
      using *(3) True len by (auto simp: wf_array_def dest: in_set_takeD in_set_dropD)
    have E: "extends m0 (set (own (LArray p a it ?Ks))) ?m3" unfolding X(2) by (rule e3)
    have F: "free_fuel (LArray p a it ?Ks) \<le> b + 3"
    proof -
      have "map free_fuel Ls = map free_fuel (take i Ls @ Ls ! i # drop (Suc i) Ls)" using True by (simp add: id_take_nth_drop [symmetric])
      then have "sum_list (map free_fuel Ls) = sum_list (map free_fuel ?Ks) + free_fuel (Ls ! i)" by simp
      with *(5) show ?thesis by simp
    qed
    have "array_in (b + 3) m0 ?m3 par p a ?t"
      by (rule array_inI [OF S X(1) W E F])
    then show ?thesis
      using run True len m1(1) by (auto simp: json_array_remove_def json_array_get_count_def)
  qed
qed

lemma clear_ok:
  assumes A: "array_in b m0 m par p a t" and n: "b \<le> n"
  shows "\<exists>m'. h_json_array_clear n a m = MDone (fst (json_array_clear t), m') \<and> refuses m' = refuses m \<and>
    array_in (b + 3) m0 m' par p a (snd (json_array_clear t))"
  using A
proof (rule array_inE)
  fix it Ls assume *: "stored m par (LArray p a it Ls) (VArray t)" "distinct (own (LArray p a it Ls))" "wf_json (VArray t)"
    "extends m0 (set (own (LArray p a it Ls))) m" "free_fuel (LArray p a it Ls) \<le> b"
  note s = *(1) [unfolded stored_array]
  let ?r = "\<lparr>a_wrapping = p, a_items = it, a_count = length Ls, a_capacity = arr_capacity t\<rparr>"
  let ?O = "set (concat (map own Ls))"
  let ?m2 = "(release ?O m)\<lparr>blocks := (blocks (release ?O m))(a \<mapsto> BArray (?r\<lparr>a_count := 0\<rparr>))\<rparr>"
  have fresh: "{p, a} \<inter> ?O = {}" "p \<noteq> a" "it \<noteq> 0 \<Longrightarrow> it \<notin> ?O \<union> {p, a}" using *(2) by auto
  have it0: "Ls = []" if "it = 0"
    using s that *(3) by (auto simp: wf_array_def list_all2_iff split: if_splits)
  have frees: "list_all2 (frees (h_json_value_free n)) Ls (arr_items t)"
  proof (rule list_all2_frees)
    show "list_all2 (stored m p) Ls (arr_items t)" using s by blast
    fix L w assume "L \<in> set Ls" "w \<in> set (arr_items t)"
    then show "frees (h_json_value_free n) L w"
      using *(2,3,5) n free_fuel_elem [of L Ls]
      by (auto simp: frees_def distinct_concat_iff intro!: free_stored)
  qed
  have "array_free_loop (h_json_value_free n) n a (length ([] :: layout list)) m = MDone (release ?O m)"
  proof (rule array_free_loop_stored [where r = ?r and pre = "[]" and Ks = Ls and cap = "arr_capacity t", OF _ frees])
    show "list_all2 (stored m p) Ls (arr_items t)" using s by blast
    show "holds_ptrs m (a_items ?r) (arr_capacity t) (map root ([] @ Ls))" if "Ls \<noteq> []"
      using s that it0 by (auto split: if_splits)
    show "a_items ?r \<notin> ?O" using fresh(3) it0 by (cases "it = 0") auto
  qed (use s *(2,5) n in auto)
  then have "h_json_array_clear n a m = MDone (JSONSuccess, ?m2)"
    using s fresh by (simp add: h_json_array_clear_def load_array_def mload_live mstore_live)
  moreover have "stored ?m2 par (LArray p a it []) (VArray (JSON_Array [] (arr_capacity t)))"
  proof -
    have "holds_ptrs m it (arr_capacity t) (map root Ls) \<Longrightarrow> holds_ptrs m it (arr_capacity t) []"
      by (auto simp: holds_ptrs_def split: option.splits h_block.splits)
    then have "holds_ptrs ?m2 it (arr_capacity t) []" if "arr_capacity t \<noteq> 0"
    proof -
      have "it \<noteq> 0" "holds_ptrs m it (arr_capacity t) (map root Ls)" using s that by auto
      then show ?thesis
        using holds_ptrs_frame [of m it "arr_capacity t" "[]" ?m2] fresh
        by (auto simp: holds_ptrs_def split: option.splits h_block.splits)
    qed
    then show ?thesis
      unfolding stored_array using s fresh by (auto split: if_splits)
  qed
  moreover have "extends m0 (set (own (LArray p a it []))) ?m2"
  proof -
    have "extends m0 (set (own (LArray p a it [])) \<union> ?O) m"
      using *(4) by (simp add: Un_ac insert_commute)
    then have "extends m0 (set (own (LArray p a it []))) (release ?O m)"
      by (rule extends_drop) (use fresh in auto)
    then show ?thesis by (rule extends_update [of _ _ _ a]) auto
  qed
  moreover have "distinct (own (LArray p a it []))" using *(2) by auto
  moreover have "free_fuel (LArray p a it []) \<le> b + 3" using *(5) by simp
  ultimately show ?thesis
    by (auto simp: json_array_clear_def wf_array_def intro!: array_inI)
qed

section \<open>Sequences of calls\<close>

text \<open>The calls that ask for memory are those that make a value. When they do not get it, they report a failure and the array is
  as it was: the statuses of the calls tell what the array holds.\<close>

fun allocates :: "array_call \<Rightarrow> bool" where
  "allocates (Append x) = True"
| "allocates (Replace i x) = True"
| "allocates (Remove i) = False"
| "allocates Clear = False"

lemma failed_call_unchanged: "fst (array_call_model t c) = JSONFailure \<Longrightarrow> snd (array_call_model t c) = t"
  using json_array_add_ok [of t]
  by (cases c) (auto simp: json_array_append_value_def json_array_replace_value_def json_array_remove_def json_array_clear_def
      split: option.splits if_splits)

fun array_replay :: "json_value json_array \<Rightarrow> array_call list \<Rightarrow> json_status list \<Rightarrow> json_value json_array option" where
  "array_replay t [] [] = Some t"
| "array_replay t (c # cs) (st # sts) =
     (if st = fst (array_call_model t c) then array_replay (snd (array_call_model t c)) cs sts
      else if st = JSONFailure \<and> allocates c then array_replay t cs sts
      else None)"
| "array_replay t cs sts = None"

lemma array_call_ok:
  assumes A: "array_in b m0 m par p a t" and n: "b \<le> n" "2 \<le> n"
  shows "\<exists>st m' t'. h_array_call n a c m = MDone (st, m') \<and> refuses m' = refuses m \<and> array_in (b + 3) m0 m' par p a t' \<and>
    ((st, t') = array_call_model t c \<or> (\<exists>q. refuses m q) \<and> allocates c \<and> st = JSONFailure \<and> t' = t)"
proof (cases c)
  case (Append x)
  have "(case made x of None \<Rightarrow> (JSONFailure, t) | Some v \<Rightarrow> json_array_add t v) = json_array_append_value t (made x)"
    by (auto simp: json_array_append_value_def split: option.splits)
  then show ?thesis
    using hand_over_ok [OF A append_takes_over n(2), of x] Append by auto
next
  case (Replace i x)
  have "(case made x of None \<Rightarrow> (JSONFailure, t) | Some v \<Rightarrow> json_array_replace_value t i (Some v)) = json_array_replace_value t i (made x)"
    by (auto simp: json_array_replace_value_def split: option.splits)
  then show ?thesis
    using hand_over_ok [OF A replace_takes_over [OF n(1)] n(2), of x i] Replace by auto
next
  case (Remove i)
  show ?thesis using remove_ok [OF A n(1), of i] Remove by (metis array_call_model.simps(3) h_array_call.simps(3) prod.collapse)
next
  case Clear
  show ?thesis using clear_ok [OF A n(1)] Clear by (metis array_call_model.simps(4) h_array_call.simps(4) prod.collapse)
qed

lemma array_calls_ok:
  assumes "array_in b m0 m par p a t" "2 \<le> b" "b + 3 * length cs \<le> n"
  shows "\<exists>sts m' t'. h_array_calls n a cs m = MDone (sts, m') \<and> array_in (b + 3 * length cs) m0 m' par p a t' \<and>
    array_replay t cs sts = Some t' \<and> ((\<forall>q. \<not> refuses m q) \<longrightarrow> (sts, t') = array_calls_model t cs)"
  using assms
proof (induction cs arbitrary: b m t)
  case (Cons c cs)
  have n: "b \<le> n" "2 \<le> n" using Cons.prems by auto
  from array_call_ok [OF Cons.prems(1) n] obtain st m1 t1 where
    1: "h_array_call n a c m = MDone (st, m1)" "refuses m1 = refuses m" "array_in (b + 3) m0 m1 par p a t1"
      "(st, t1) = array_call_model t c \<or> (\<exists>q. refuses m q) \<and> allocates c \<and> st = JSONFailure \<and> t1 = t" by blast
  from Cons.IH [OF 1(3)] Cons.prems obtain sts m2 t2 where
    2: "h_array_calls n a cs m1 = MDone (sts, m2)" "array_in (b + 3 + 3 * length cs) m0 m2 par p a t2"
      "array_replay t1 cs sts = Some t2" "(\<forall>q. \<not> refuses m1 q) \<longrightarrow> (sts, t2) = array_calls_model t1 cs" by fastforce
  have "array_replay t (c # cs) (st # sts) = Some t2"
  proof (cases "(st, t1) = array_call_model t c")
    case True
    then have "fst (array_call_model t c) = st" "snd (array_call_model t c) = t1" by (metis fst_conv, metis snd_conv)
    with 2(3) show ?thesis by simp
  next
    case False
    with 1(4) have f: "allocates c" "st = JSONFailure" "t1 = t" by auto
    show ?thesis
    proof (cases "fst (array_call_model t c) = JSONFailure")
      case True
      then have "snd (array_call_model t c) = t" by (rule failed_call_unchanged)
      with True f False show ?thesis by (metis prod.collapse)
    next
      case False
      with f 2(3) show ?thesis by (metis array_replay.simps(2))
    qed
  qed
  moreover have "array_calls_model t (c # cs) = (st # sts, t2)" if "\<forall>q. \<not> refuses m q"
  proof -
    have "array_call_model t c = (st, t1)" "array_calls_model t1 cs = (sts, t2)" using that 1 2 by auto
    then show ?thesis by simp
  qed
  moreover have "h_array_calls n a (c # cs) m = MDone (st # sts, m2)" using 1(1) 2(1) by simp
  moreover have "array_in (b + 3 * length (c # cs)) m0 m2 par p a t2" using 2(2) by (simp add: add_ac)
  ultimately show ?case by metis
next
  case Nil
  then show ?case by (intro exI [of _ "[]"] exI [of _ m] exI [of _ t]) simp
qed

lemma init_array_in:
  assumes "wf_mem m" "h_json_value_init_array m = MDone (p, m1)" "p \<noteq> 0"
  shows "\<exists>a. array_in 2 m m1 0 p a json_array_make \<and> refuses m1 = refuses m"
proof -
  from h_make_makes [OF assms(1), of NewArray] assms(2) have "makes m (made NewArray) (p, m1)" by simp
  with assms(3) obtain L where M: "root L = p" "stored m1 0 L json_value_init_array" "distinct (own L)" "free_fuel L \<le> 2"
    "refuses m1 = refuses m" "wf_json json_value_init_array"
    "\<forall>m0 A. extends m0 A m \<longrightarrow> extends m0 (A \<union> set (own L)) m1 \<and> A \<inter> set (own L) = {}"
    unfolding makes_def by auto
  note L = M(1-4) M(7) [rule_format, OF extends_refl [OF assms(1)], THEN conjunct1] M(6,5)
  from L(1,2) obtain a it Ls where LA: "L = LArray p a it Ls" by (cases L) (auto simp: json_value_init_array_def)
  have "array_in 2 m m1 0 p a json_array_make"
    by (rule array_inI [where it = it and Ls = Ls])
      (use L LA in \<open>simp_all add: json_value_init_array_def del: stored.simps own.simps wf_json.simps free_fuel.simps\<close>)
  with L(7) show ?thesis by blast
qed

lemma release_array:
  assumes "array_in b m0 m 0 p a t" "b \<le> n"
  shows "\<exists>m'. h_json_value_free n p m = MDone m' \<and> blocks m' = blocks m0"
  using assms(1)
proof (rule array_inE)
  fix it Ls assume *: "stored m 0 (LArray p a it Ls) (VArray t)" "distinct (own (LArray p a it Ls))" "wf_json (VArray t)"
    "extends m0 (set (own (LArray p a it Ls))) m" "free_fuel (LArray p a it Ls) \<le> b"
  have "h_json_value_free n p m = MDone (release (set (own (LArray p a it Ls))) m)"
    using free_stored [OF *(1,3,2)] *(5) assms(2) by simp
  with extends_release [OF *(4)] show ?thesis by auto
qed

text \<open>C19. An array in memory, from \<^verbatim>\<open>json_value_init_array\<close> to \<^verbatim>\<open>json_value_free\<close>: for every sequence of calls that append a value
  just made, replace an element by one, remove an element or clear the array, and whichever allocations fail in between, no call uses or
  releases a block that is not there, the array stays a well-formed value, its contents are those that the calls reporting success
  describe, a call reporting failure having changed nothing, and the release at the end leaves the heap as it was before. A call can only
  fail where the model of values without memory does not if it asks for memory; if no allocation fails, statuses and contents are exactly
  those of that model. (A value that is already part of the array or contains it is not covered: see \<open>append_self_never_freed\<close>.)\<close>

theorem array_lifecycle:
  assumes "wf_mem m" and "h_json_value_init_array m = MDone (p, m1)" and "p \<noteq> 0" and "2 + 3 * length calls \<le> n"
  shows "\<exists>a sts m2 t L m3. load_value p m1 = MDone (0, UArray a) \<and> h_array_calls n a calls m1 = MDone (sts, m2) \<and>
    root L = p \<and> stored m2 0 L (VArray t) \<and> wf_json (VArray t) \<and>
    array_replay json_array_make calls sts = Some t \<and>
    ((\<forall>q. \<not> refuses m q) \<longrightarrow> (sts, t) = array_calls_model json_array_make calls) \<and>
    h_json_value_free n p m2 = MDone m3 \<and> blocks m3 = blocks m"
proof -
  from init_array_in [OF assms(1-3)] obtain a where a: "array_in 2 m m1 0 p a json_array_make" "refuses m1 = refuses m" by blast
  from array_calls_ok [OF a(1) order_refl assms(4)] obtain sts m2 t where
    2: "h_array_calls n a calls m1 = MDone (sts, m2)" "array_in (2 + 3 * length calls) m m2 0 p a t"
      "array_replay json_array_make calls sts = Some t" "(\<forall>q. \<not> refuses m1 q) \<longrightarrow> (sts, t) = array_calls_model json_array_make calls" by blast
  from release_array [OF 2(2) assms(4)] obtain m3 where "h_json_value_free n p m2 = MDone m3" "blocks m3 = blocks m" by blast
  moreover have "load_value p m1 = MDone (0, UArray a)"
    using a(1) by (auto elim!: array_inE simp: load_value_def mload_live)
  moreover obtain L where "root L = p" "stored m2 0 L (VArray t)" "wf_json (VArray t)"
    using 2(2) by (metis array_inE root.simps(3))
  ultimately show ?thesis
    using 2(1,3,4) a(2)
    by (intro exI [of _ a] exI [of _ sts] exI [of _ m2] exI [of _ t] exI [of _ L] exI [of _ m3])
      (simp del: stored.simps wf_json.simps)
qed

text \<open>A heap that refuses the fourth allocation: the array and its first value fit, the block for the items does not.\<close>

definition tight_heap :: jmem where
  "tight_heap = \<lparr>blocks = \<lambda>p. None, next_addr = 1, refuses = \<lambda>k. k = 4\<rparr>"

theorem array_lifecycle_witness:
  "\<exists>p m1 a sts m2 m3. h_json_value_init_array tight_heap = MDone (p, m1) \<and> load_value p m1 = MDone (0, UArray a) \<and>
     h_array_calls 11 a [Append NewNull, Append (NewBoolean 1), Remove 0] m1 = MDone (sts, m2) \<and>
     h_json_value_free 11 p m2 = MDone m3 \<and> blocks m3 = blocks tight_heap"
proof -
  have "wf_mem tight_heap" by (simp add: wf_mem_def tight_heap_def)
  moreover have "h_json_value_init_array tight_heap = MDone (1, (tight_heap\<lparr>next_addr := 3, blocks := [1 \<mapsto> BValue 0 (UArray 2),
      2 \<mapsto> BArray \<lparr>a_wrapping = 1, a_items = 0, a_count = 0, a_capacity = 0\<rparr>]\<rparr>))"
    by (auto simp: h_json_value_init_array_def init_container_def h_json_array_make_def malloc_def tight_heap_def mstore_def fun_eq_iff)
  ultimately show ?thesis
    using array_lifecycle [of tight_heap 1 _ "[Append NewNull, Append (NewBoolean 1), Remove 0]" 11]
    by (simp del: h_array_calls.simps h_json_value_free.simps stored.simps wf_json.simps array_calls_model.simps) blast
qed

text \<open>C20. \<^verbatim>\<open>json_value_free\<close> releases a value and nothing else: every block of a well-formed value is released exactly once, none is used after its
  release, all other blocks stay, and the recursion ends.\<close>

theorem json_value_free_exact:
  assumes "stored m par L v" and "wf_json v" and "distinct (own L)" and "free_fuel L \<le> n"
  shows "h_json_value_free n (root L) m = MDone (release (set (own L)) m) \<and> (\<forall>q \<in> set (own L). blocks m q \<noteq> None)"
  using free_stored [OF assms] stored_live [OF assms(1)] by blast

definition sample_heap :: jmem where
  "sample_heap = \<lparr>blocks = [1 \<mapsto> BValue 0 (UArray 2), 2 \<mapsto> BArray \<lparr>a_wrapping = 1, a_items = 3, a_count = 1, a_capacity = 16\<rparr>,
     3 \<mapsto> BPtrs 16 [4], 4 \<mapsto> BValue 1 (UString 5 2), 5 \<mapsto> BChars (''hi'' @ [NUL]), 6 \<mapsto> BChars [NUL]], next_addr = 7, refuses = \<lambda>k. False\<rparr>"

theorem json_value_free_exact_witness:
  "\<exists>m'. h_json_value_free 4 1 sample_heap = MDone m' \<and> blocks m' 1 = None \<and> blocks m' 5 = None \<and> blocks m' 6 = Some (BChars [NUL])"
proof -
  let ?L = "LArray 1 2 3 [LString 4 5]"
  have "stored sample_heap 0 ?L (VArray (JSON_Array [VString ''hi''] 16))"
    by (simp add: sample_heap_def holds_ptrs_def)
  from json_value_free_exact [OF this, of 4] show ?thesis
    by (simp add: wf_array_def del: h_json_value_free.simps) (simp add: sample_heap_def)
qed

section \<open>An array that owns itself\<close>

text \<open>
  A root has no parent, so the check of \<^verbatim>\<open>json_array_append_value\<close> does not keep an array from being appended to itself. Afterwards it is its own
  element, and releasing it never ends.
\<close>

definition lone_array :: jmem where
  "lone_array = \<lparr>blocks = [1 \<mapsto> BValue 0 (UArray 2), 2 \<mapsto> BArray \<lparr>a_wrapping = 1, a_items = 0, a_count = 0, a_capacity = 0\<rparr>],
     next_addr = 3, refuses = \<lambda>k. False\<rparr>"

lemma append_self_never_freed:
  "\<exists>m. h_json_array_append_value 2 1 lone_array = MDone (JSONSuccess, m) \<and> (\<forall>n. h_json_value_free n 1 m = MOut)"
proof -
  let ?m = "\<lparr>blocks = [1 \<mapsto> BValue 1 (UArray 2), 3 \<mapsto> BPtrs 16 [1], 2 \<mapsto> BArray \<lparr>a_wrapping = 1, a_items = 3, a_count = 1, a_capacity = 16\<rparr>],
     next_addr = 4, refuses = \<lambda>k. False\<rparr> :: jmem"
  have "h_json_array_append_value 2 1 lone_array = MDone (JSONSuccess, ?m)"
    by (auto simp: h_json_array_append_value_def h_json_value_get_parent_def load_value_def mload_def lone_array_def h_json_array_add_def
        load_array_def h_json_array_resize_def malloc_def copy_items_def mstore_def put_value_def h_json_array_get_wrapping_value_def
        set_parent_def store_ptr_def STARTING_CAPACITY_def Let_def intro!: mem.equality ext)
  moreover have "h_json_value_free n 1 ?m = MOut" for n
  proof (induction n)
    case (Suc n)
    then show ?case
      by (cases n) (simp_all add: load_value_def mload_def h_json_array_free_def load_array_def load_ptr_def)
  qed simp
  ultimately show ?thesis by blast
qed

end
