(* ===== verification/Toml_Heap.thy ===== *)
theory Toml_Heap
  imports C_Heap
begin

text \<open>
  The release of a configuration (\<^verbatim>\<open>toml_free\<close>): the structures of \<^verbatim>\<open>toml.c\<close> as blocks of a heap, and the functions that walk and
  release them. Fields that a release does not read (\<^verbatim>\<open>implicit\<close>, the type of the elements) are left out.

  \<open>laid m L\<close> says that the blocks the layout \<open>L\<close> lists hold a key with its value, an array or a table.
\<close>

section \<open>Blocks\<close>

datatype t_block =
    TKeyval addr addr
  | TArray addr char nat addr
  | TTable addr nat addr nat addr nat addr
  | TChars string
  | TPtrs "addr list"

type_synonym tmem = "t_block mem"

definition load_slot :: "addr \<Rightarrow> nat \<Rightarrow> tmem \<Rightarrow> addr run" where
  "load_slot q i m = mbind (mload q m) (\<lambda>b. case b of TPtrs xs \<Rightarrow> if i < length xs then MDone (xs ! i) else MUndef | _ \<Rightarrow> MUndef)"

text \<open>The number of elements and the array of pointers a loop reads from the structure, in every round again\<close>

fun elems_of :: "t_block \<Rightarrow> (nat \<times> addr) option" where
  "elems_of (TArray key kind nelem u) = Some (nelem, u)"
| "elems_of b = None"

fun kvals_of :: "t_block \<Rightarrow> (nat \<times> addr) option" where
  "kvals_of (TTable key nkval kval narr arr ntab tab) = Some (nkval, kval)"
| "kvals_of b = None"

fun arrs_of :: "t_block \<Rightarrow> (nat \<times> addr) option" where
  "arrs_of (TTable key nkval kval narr arr ntab tab) = Some (narr, arr)"
| "arrs_of b = None"

fun tabs_of :: "t_block \<Rightarrow> (nat \<times> addr) option" where
  "tabs_of (TTable key nkval kval narr arr ntab tab) = Some (ntab, tab)"
| "tabs_of b = None"

fun key_of :: "t_block \<Rightarrow> addr option" where
  "key_of (TArray key kind nelem u) = Some key"
| "key_of (TTable key nkval kval narr arr ntab tab) = Some key"
| "key_of b = None"

section \<open>Release\<close>

text \<open>\<^verbatim>\<open>for (i = 0; i < p->n; i++) f (p->q[i])\<close>, then \<^verbatim>\<open>xfree (p->q)\<close>\<close>

fun slots_loop ::
  "(t_block \<Rightarrow> (nat \<times> addr) option) \<Rightarrow> (addr \<Rightarrow> tmem \<Rightarrow> tmem run) \<Rightarrow> nat \<Rightarrow> addr \<Rightarrow> nat \<Rightarrow> tmem \<Rightarrow> tmem run" where
  "slots_loop sel f 0 p i m = MOut"
| "slots_loop sel f (Suc n) p i m =
     mbind (mload p m) (\<lambda>b. case sel b of
         None \<Rightarrow> MUndef
       | Some (cnt, q) \<Rightarrow>
           if i < cnt then mbind (load_slot q i m) (\<lambda>x. mbind (f x m) (slots_loop sel f n p (Suc i)))
           else MDone m)"

definition free_slots ::
  "(t_block \<Rightarrow> (nat \<times> addr) option) \<Rightarrow> (addr \<Rightarrow> tmem \<Rightarrow> tmem run) \<Rightarrow> nat \<Rightarrow> addr \<Rightarrow> tmem \<Rightarrow> tmem run" where
  "free_slots sel f n p m =
     mbind (slots_loop sel f n p 0 m) (\<lambda>m1.
     mbind (mload p m1) (\<lambda>b. case sel b of None \<Rightarrow> MUndef | Some (cnt, q) \<Rightarrow> mfree q m1))"

definition free_key :: "addr \<Rightarrow> tmem \<Rightarrow> tmem run" where
  "free_key p m = mbind (mload p m) (\<lambda>b. case key_of b of None \<Rightarrow> MUndef | Some key \<Rightarrow> mfree key m)"

definition xfree_kval :: "addr \<Rightarrow> tmem \<Rightarrow> tmem run" where
  "xfree_kval p m =
     (if p = 0 then MDone m
      else mbind (mload p m) (\<lambda>b. case b of TKeyval key val \<Rightarrow> mfree_all [key, val, p] m | _ \<Rightarrow> MUndef))"

text \<open>The \<^verbatim>\<open>switch\<close> of \<^verbatim>\<open>xfree_arr\<close>\<close>

definition free_elems ::
  "(addr \<Rightarrow> tmem \<Rightarrow> tmem run) \<Rightarrow> (addr \<Rightarrow> tmem \<Rightarrow> tmem run) \<Rightarrow> char \<Rightarrow> nat \<Rightarrow> addr \<Rightarrow> tmem \<Rightarrow> tmem run" where
  "free_elems free_arr free_tab kind n p m =
     (if kind = CHR ''v'' then free_slots elems_of mfree n p m
      else if kind = CHR ''a'' then free_slots elems_of free_arr n p m
      else if kind = CHR ''t'' then free_slots elems_of free_tab n p m
      else MDone m)"

text \<open>\<^verbatim>\<open>xfree_arr\<close> and \<^verbatim>\<open>xfree_tab\<close> call each other.\<close>

fun xfree_arr :: "nat \<Rightarrow> addr \<Rightarrow> tmem \<Rightarrow> tmem run"
and xfree_tab :: "nat \<Rightarrow> addr \<Rightarrow> tmem \<Rightarrow> tmem run" where
  "xfree_arr 0 p m = MOut"
| "xfree_arr (Suc n) p m =
     (if p = 0 then MDone m
      else mbind (free_key p m) (\<lambda>m1.
        mbind (mload p m1) (\<lambda>b. case b of
            TArray key kind nelem u \<Rightarrow>
              mbind (free_elems (xfree_arr n) (xfree_tab n) kind n p m1) (mfree p)
          | _ \<Rightarrow> MUndef)))"
| "xfree_tab 0 p m = MOut"
| "xfree_tab (Suc n) p m =
     (if p = 0 then MDone m
      else mbind (free_key p m) (\<lambda>m1.
        mbind (free_slots kvals_of xfree_kval n p m1) (\<lambda>m2.
        mbind (free_slots arrs_of (xfree_arr n) n p m2) (\<lambda>m3.
        mbind (free_slots tabs_of (xfree_tab n) n p m3) (mfree p)))))"

definition toml_free :: "nat \<Rightarrow> addr \<Rightarrow> tmem \<Rightarrow> tmem run" where
  "toml_free n tab m = xfree_tab n tab m"

section \<open>Layouts\<close>

datatype t_layout =
    LText addr
  | LKeyval addr addr addr
  | LArr addr addr char addr "t_layout list"
  | LTab addr addr addr "t_layout list" addr "t_layout list" addr "t_layout list"

fun t_root :: "t_layout \<Rightarrow> addr" where
  "t_root (LText c) = c"
| "t_root (LKeyval p key val) = p"
| "t_root (LArr p key kind u Es) = p"
| "t_root (LTab p key kv Ks ar As tb Ts) = p"

definition ptr_list :: "addr \<Rightarrow> addr list" where
  "ptr_list p = (if p = 0 then [] else [p])"

fun t_own :: "t_layout \<Rightarrow> addr list" where
  "t_own (LText c) = [c]"
| "t_own (LKeyval p key val) = [key, val, p]"
| "t_own (LArr p key kind u Es) = ptr_list key @ ptr_list u @ concat (map t_own Es) @ [p]"
| "t_own (LTab p key kv Ks ar As tb Ts) =
     ptr_list key @ ptr_list kv @ concat (map t_own Ks) @ ptr_list ar @ concat (map t_own As) @ ptr_list tb @ concat (map t_own Ts) @ [p]"

fun is_text :: "t_layout \<Rightarrow> bool" where "is_text (LText c) \<longleftrightarrow> True" | "is_text _ \<longleftrightarrow> False"
fun is_keyval :: "t_layout \<Rightarrow> bool" where "is_keyval (LKeyval p key val) \<longleftrightarrow> True" | "is_keyval _ \<longleftrightarrow> False"
fun is_arr :: "t_layout \<Rightarrow> bool" where "is_arr (LArr p key kind u Es) \<longleftrightarrow> True" | "is_arr _ \<longleftrightarrow> False"
fun is_tab :: "t_layout \<Rightarrow> bool" where "is_tab (LTab p key kv Ks ar As tb Ts) \<longleftrightarrow> True" | "is_tab _ \<longleftrightarrow> False"

definition holds_text :: "tmem \<Rightarrow> addr \<Rightarrow> bool" where
  "holds_text m c \<longleftrightarrow> (case blocks m c of Some (TChars s) \<Rightarrow> c \<noteq> 0 | _ \<Rightarrow> False)"

definition holds_key :: "tmem \<Rightarrow> addr \<Rightarrow> bool" where
  "holds_key m key \<longleftrightarrow> key = 0 \<or> holds_text m key"

definition holds_slots :: "tmem \<Rightarrow> addr \<Rightarrow> addr list \<Rightarrow> bool" where
  "holds_slots m q ps \<longleftrightarrow> (if q = 0 then ps = [] else (case blocks m q of Some (TPtrs xs) \<Rightarrow> take (length ps) xs = ps | _ \<Rightarrow> False))"

text \<open>The kind of an array tells what its elements are; an array without elements may have no kind.\<close>

definition kind_ok :: "char \<Rightarrow> addr \<Rightarrow> t_layout list \<Rightarrow> bool" where
  "kind_ok kind u Es \<longleftrightarrow>
     kind = CHR ''v'' \<and> list_all is_text Es \<or> kind = CHR ''a'' \<and> list_all is_arr Es \<or> kind = CHR ''t'' \<and> list_all is_tab Es \<or>
     kind \<notin> {CHR ''v'', CHR ''a'', CHR ''t''} \<and> Es = [] \<and> u = 0"

fun laid :: "tmem \<Rightarrow> t_layout \<Rightarrow> bool" where
  "laid m (LText c) \<longleftrightarrow> holds_text m c"
| "laid m (LKeyval p key val) \<longleftrightarrow> p \<noteq> 0 \<and> blocks m p = Some (TKeyval key val) \<and> holds_text m key \<and> holds_text m val"
| "laid m (LArr p key kind u Es) \<longleftrightarrow>
     p \<noteq> 0 \<and> blocks m p = Some (TArray key kind (length Es) u) \<and> holds_key m key \<and> holds_slots m u (map t_root Es) \<and>
     kind_ok kind u Es \<and> list_all (laid m) Es"
| "laid m (LTab p key kv Ks ar As tb Ts) \<longleftrightarrow>
     p \<noteq> 0 \<and> blocks m p = Some (TTable key (length Ks) kv (length As) ar (length Ts) tb) \<and> holds_key m key \<and>
     holds_slots m kv (map t_root Ks) \<and> list_all is_keyval Ks \<and> list_all (laid m) Ks \<and>
     holds_slots m ar (map t_root As) \<and> list_all is_arr As \<and> list_all (laid m) As \<and>
     holds_slots m tb (map t_root Ts) \<and> list_all is_tab Ts \<and> list_all (laid m) Ts"

fun t_fuel :: "t_layout \<Rightarrow> nat" where
  "t_fuel (LText c) = 1"
| "t_fuel (LKeyval p key val) = 1"
| "t_fuel (LArr p key kind u Es) = 2 + length Es + sum_list (map t_fuel Es)"
| "t_fuel (LTab p key kv Ks ar As tb Ts) =
     2 + length Ks + length As + length Ts + sum_list (map t_fuel Ks) + sum_list (map t_fuel As) + sum_list (map t_fuel Ts)"

section \<open>Exactly the blocks of a table\<close>

lemma set_ptr_list [simp]: "set (ptr_list p) = (if p = 0 then {} else {p})"
  by (simp add: ptr_list_def)

lemma holds_text_live: "holds_text m c \<Longrightarrow> c \<noteq> 0 \<and> blocks m c \<noteq> None"
  by (auto simp: holds_text_def split: option.splits t_block.splits)

lemma holds_key_live: "holds_key m key \<Longrightarrow> q \<in> set (ptr_list key) \<Longrightarrow> q \<noteq> 0 \<and> blocks m q \<noteq> None"
  by (auto simp: holds_key_def dest: holds_text_live split: if_splits)

lemma holds_slots_live: "holds_slots m u ps \<Longrightarrow> q \<in> set (ptr_list u) \<Longrightarrow> q \<noteq> 0 \<and> blocks m q \<noteq> None"
  by (auto simp: holds_slots_def split: if_splits option.splits)

lemma holds_text_frame: "holds_text m c \<Longrightarrow> blocks m' c = blocks m c \<Longrightarrow> holds_text m' c"
  by (simp add: holds_text_def)

lemma holds_key_frame: "holds_key m key \<Longrightarrow> (key \<noteq> 0 \<Longrightarrow> blocks m' key = blocks m key) \<Longrightarrow> holds_key m' key"
  by (auto simp: holds_key_def intro: holds_text_frame)

lemma holds_slots_frame: "holds_slots m q ps \<Longrightarrow> (q \<noteq> 0 \<Longrightarrow> blocks m' q = blocks m q) \<Longrightarrow> holds_slots m' q ps"
  by (simp add: holds_slots_def split: if_splits)

lemma laid_frame: "laid m L \<Longrightarrow> \<forall>q \<in> set (t_own L). blocks m' q = blocks m q \<Longrightarrow> laid m' L"
proof (induction L)
  case (LArr p key kind u Es)
  have "list_all (laid m') Es" using LArr by (fastforce simp: list_all_iff)
  with LArr.prems show ?case by (auto elim!: holds_key_frame holds_slots_frame)
next
  case (LTab p key kv Ks ar As tb Ts)
  have "list_all (laid m') Ks" "list_all (laid m') As" "list_all (laid m') Ts" using LTab by (fastforce simp: list_all_iff)+
  with LTab.prems show ?case by (auto elim!: holds_key_frame holds_slots_frame)
qed (auto elim!: holds_text_frame)

lemma laid_release: "laid m L \<Longrightarrow> set (t_own L) \<inter> A = {} \<Longrightarrow> laid (release A m) L"
  by (rule laid_frame) auto

definition t_frees :: "(addr \<Rightarrow> tmem \<Rightarrow> tmem run) \<Rightarrow> t_layout \<Rightarrow> bool" where
  "t_frees f L \<longleftrightarrow> (\<forall>m. laid m L \<longrightarrow> f (t_root L) m = MDone (release (set (t_own L)) m))"

lemma load_slot_nth:
  assumes "holds_slots m q ps" "i < length ps"
  shows "load_slot q i m = MDone (ps ! i)"
proof -
  from assms obtain xs where xs: "blocks m q = Some (TPtrs xs)" "take (length ps) xs = ps"
    by (auto simp: holds_slots_def split: if_splits option.splits t_block.splits)
  then obtain zs where "xs = ps @ zs" by (metis append_take_drop_id)
  with xs(1) assms(2) show ?thesis by (simp add: load_slot_def mload_live nth_append)
qed

lemma slots_loop_laid:
  assumes "list_all (laid m) Ks" "list_all (t_frees f) Ks" "blocks m p = Some b" "sel b = Some (length (pre @ Ks), q)"
    and "holds_slots m q (map t_root (pre @ Ks))" "distinct (concat (map t_own Ks))" "{p, q} \<inter> set (concat (map t_own Ks)) = {}"
    and "length Ks < n"
  shows "slots_loop sel f n p (length pre) m = MDone (release (set (concat (map t_own Ks))) m)"
  using assms
proof (induction Ks arbitrary: m pre n)
  case Nil
  then obtain k where "n = Suc k" by (cases n) auto
  with Nil show ?case by (simp add: mload_live)
next
  case (Cons K Ks)
  from Cons.prems obtain k where k: "n = Suc k" "length Ks < k" by (cases n) auto
  let ?m = "release (set (t_own K)) m"
  have "slots_loop sel f k p (length (pre @ [K])) ?m = MDone (release (set (concat (map t_own Ks))) ?m)"
  proof (rule Cons.IH)
    show "list_all (laid ?m) Ks"
      using Cons.prems(1,6) by (auto simp: list_all_iff intro!: laid_release)
    show "holds_slots ?m q (map t_root ((pre @ [K]) @ Ks))"
      using holds_slots_frame [OF Cons.prems(5), of ?m] Cons.prems(7) by simp
  qed (use Cons.prems k in auto)
  moreover have "load_slot q (length pre) m = MDone (t_root K)"
    using load_slot_nth [OF Cons.prems(5), of "length pre"] by (simp add: nth_append)
  moreover have "f (t_root K) m = MDone ?m"
    using Cons.prems(1,2) by (simp add: t_frees_def)
  ultimately show ?case
    using Cons.prems(3,4) k by (simp add: mload_live Un_commute)
qed

lemma free_slots_laid:
  assumes "list_all (laid m) Ks" "list_all (t_frees f) Ks" "blocks m p = Some b" "sel b = Some (length Ks, q)"
    and "holds_slots m q (map t_root Ks)" "distinct (concat (map t_own Ks))" "{p, q} \<inter> set (concat (map t_own Ks)) = {}"
    and "length Ks < n"
  shows "free_slots sel f n p m = MDone (release (set (ptr_list q @ concat (map t_own Ks))) m)"
proof -
  let ?O = "set (concat (map t_own Ks))"
  have "slots_loop sel f n p 0 m = MDone (release ?O m)"
    using slots_loop_laid [where pre = "[]", of m Ks f p b sel q n] assms by simp
  moreover have "mfree q (release ?O m) = MDone (release (set (ptr_list q @ concat (map t_own Ks))) m)"
  proof (cases "q = 0")
    case False
    with assms(5) have "blocks m q \<noteq> None" by (auto simp: holds_slots_def split: option.splits)
    with False assms(7) show ?thesis by (simp add: mfree_allocated)
  qed simp
  ultimately show ?thesis
    using assms(3,4,7) by (simp add: free_slots_def mload_live)
qed

lemma free_key_laid:
  assumes "blocks m p = Some b" "key_of b = Some key" "holds_key m key"
  shows "free_key p m = MDone (release (set (ptr_list key)) m)"
  using assms
  by (auto simp: free_key_def mload_live holds_key_def holds_text_def mfree_allocated split: option.splits)

definition t_free :: "nat \<Rightarrow> t_layout \<Rightarrow> addr \<Rightarrow> tmem \<Rightarrow> tmem run" where
  "t_free n L = (case L of LText c \<Rightarrow> mfree | LKeyval p key val \<Rightarrow> xfree_kval | LArr p key kind u Es \<Rightarrow> xfree_arr n | LTab p key kv Ks ar As tb Ts \<Rightarrow> xfree_tab n)"

lemma t_fuel_elem: "L \<in> set Ls \<Longrightarrow> t_fuel L \<le> sum_list (map t_fuel Ls)"
  by (induction Ls) auto

lemma t_free_kinds:
  "is_text L \<Longrightarrow> t_free n L = mfree" "is_keyval L \<Longrightarrow> t_free n L = xfree_kval"
  "is_arr L \<Longrightarrow> t_free n L = xfree_arr n" "is_tab L \<Longrightarrow> t_free n L = xfree_tab n"
  by (cases L; simp add: t_free_def)+

lemma t_frees_elems:
  assumes "\<And>L. L \<in> set Ls \<Longrightarrow> t_frees (t_free n L) L" "list_all P Ls" "\<And>L. P L \<Longrightarrow> t_free n L = f"
  shows "list_all (t_frees f) Ls"
  using assms by (fastforce simp: list_all_iff)

lemma t_frees_lower:
  assumes "\<And>m n. laid m L \<Longrightarrow> distinct (t_own L) \<Longrightarrow> t_fuel L \<le> n \<Longrightarrow> t_free n L (t_root L) m = MDone (release (set (t_own L)) m)"
    and "L \<in> set Ls" "distinct (concat (map t_own Ls))" "sum_list (map t_fuel Ls) \<le> n"
  shows "t_frees (t_free n L) L"
proof -
  have "distinct (t_own L)" using assms(2,3) by (simp add: distinct_concat_iff)
  moreover have "t_fuel L \<le> n" using t_fuel_elem [OF assms(2)] assms(4) by linarith
  ultimately show ?thesis using assms(1) by (simp add: t_frees_def)
qed

text \<open>A loop over elements of one kind, after the blocks \<open>A\<close> have been released\<close>

lemma free_slots_after:
  assumes "list_all (laid m) Ks" "list_all (t_frees f) Ks" "blocks m p = Some b" "sel b = Some (length Ks, q)"
    and "holds_slots m q (map t_root Ks)" "distinct (p # ptr_list q @ concat (map t_own Ks))" "length Ks < n" "p \<noteq> 0"
    and "A \<inter> insert p (set (ptr_list q @ concat (map t_own Ks))) = {}"
  shows "free_slots sel f n p (release A m) = MDone (release (set (ptr_list q @ concat (map t_own Ks)) \<union> A) m)"
proof -
  have q: "q \<noteq> 0 \<Longrightarrow> q \<notin> A \<and> q \<noteq> p \<and> q \<notin> set (concat (map t_own Ks))" using assms(6,9) by (auto simp: ptr_list_def)
  have q0: "Ks = []" if "q = 0" using assms(5) that by (simp add: holds_slots_def)
  have "free_slots sel f n p (release A m) = MDone (release (set (ptr_list q @ concat (map t_own Ks))) (release A m))"
  proof (rule free_slots_laid [where b = b])
    show "list_all (laid (release A m)) Ks"
      using assms(1,9) by (auto simp: list_all_iff intro!: laid_release)
    show "holds_slots (release A m) q (map t_root Ks)"
      using holds_slots_frame [OF assms(5)] q by simp
    show "{p, q} \<inter> set (concat (map t_own Ks)) = {}" using assms(6) q q0 by (cases "q = 0") auto
    show "blocks (release A m) p = Some b" using assms(3,9) by auto
  qed (use assms in auto)
  then show ?thesis by simp
qed

lemma xfree_arr_laid:
  assumes l: "laid m (LArr p key kind u Es)" and di: "distinct (t_own (LArr p key kind u Es))" and k: "length Es < k"
    and fr: "\<And>L. L \<in> set Es \<Longrightarrow> t_frees (t_free k L) L"
  shows "xfree_arr (Suc k) p m = MDone (release (set (t_own (LArr p key kind u Es))) m)"
proof -
  let ?b = "TArray key kind (length Es) u" and ?K = "set (ptr_list key)"
  let ?F = "set (ptr_list u @ concat (map t_own Es))"
  have l': "p \<noteq> 0" "blocks m p = Some ?b" "holds_key m key" "holds_slots m u (map t_root Es)" "kind_ok kind u Es" "list_all (laid m) Es"
    using l by auto
  have d: "distinct (p # ptr_list u @ concat (map t_own Es))" "?K \<inter> insert p ?F = {}" using di by auto
  have free: "free_slots elems_of f k p (release ?K m) = MDone (release (?F \<union> ?K) m)"
    if "list_all P Es" "\<And>L. P L \<Longrightarrow> t_free k L = f" for f P
    by (rule free_slots_after [OF l'(6) t_frees_elems [OF fr that] l'(2) _ l'(4) d(1) k l'(1) d(2)]) simp_all
  have elems: "free_elems (xfree_arr k) (xfree_tab k) kind k p (release ?K m) = MDone (release (?F \<union> ?K) m)"
    using l'(5) free [OF _ t_free_kinds(1)] free [OF _ t_free_kinds(3)] free [OF _ t_free_kinds(4)]
    by (auto simp: kind_ok_def free_elems_def ptr_list_def)
  have key: "free_key p m = MDone (release ?K m)" by (rule free_key_laid [OF l'(2) _ l'(3)]) simp
  have p: "p \<notin> ?F \<union> ?K" "blocks (release ?K m) p = Some ?b" using d l'(2) by auto
  have "mfree p (release (?F \<union> ?K) m) = MDone (release (insert p (?F \<union> ?K)) m)"
    using p(1) l'(1,2) by (subst mfree_allocated) auto
  moreover have "insert p (?F \<union> ?K) = set (t_own (LArr p key kind u Es))" by auto
  ultimately show ?thesis
    using l'(1) elems by (simp add: key mload_live [OF p(2)] del: t_own.simps set_ptr_list set_append)
qed

lemma xfree_tab_laid:
  assumes l: "laid m (LTab p key kv Ks ar As tb Ts)" and di: "distinct (t_own (LTab p key kv Ks ar As tb Ts))"
    and k: "length Ks < k" "length As < k" "length Ts < k"
    and fr: "\<And>L. L \<in> set (Ks @ As @ Ts) \<Longrightarrow> t_frees (t_free k L) L"
  shows "xfree_tab (Suc k) p m = MDone (release (set (t_own (LTab p key kv Ks ar As tb Ts))) m)"
proof -
  let ?b = "TTable key (length Ks) kv (length As) ar (length Ts) tb" and ?K = "set (ptr_list key)"
  let ?A = "set (ptr_list kv @ concat (map t_own Ks)) \<union> ?K"
  let ?B = "set (ptr_list ar @ concat (map t_own As)) \<union> ?A"
  let ?C = "set (ptr_list tb @ concat (map t_own Ts)) \<union> ?B"
  have l': "p \<noteq> 0" "blocks m p = Some ?b" "holds_key m key"
    "holds_slots m kv (map t_root Ks)" "list_all is_keyval Ks" "list_all (laid m) Ks"
    "holds_slots m ar (map t_root As)" "list_all is_arr As" "list_all (laid m) As"
    "holds_slots m tb (map t_root Ts)" "list_all is_tab Ts" "list_all (laid m) Ts"
    using l by auto
  have "free_slots kvals_of xfree_kval k p (release ?K m) = MDone (release ?A m)"
    by (rule free_slots_after [OF l'(6) t_frees_elems [OF _ l'(5) t_free_kinds(2)] l'(2) _ l'(4) _ k(1) l'(1)])
      (use di fr in \<open>auto simp del: set_ptr_list\<close>)
  moreover have "free_slots arrs_of (xfree_arr k) k p (release ?A m) = MDone (release ?B m)"
    by (rule free_slots_after [OF l'(9) t_frees_elems [OF _ l'(8) t_free_kinds(3)] l'(2) _ l'(7) _ k(2) l'(1)])
      (use di fr in \<open>auto simp del: set_ptr_list\<close>)
  moreover have "free_slots tabs_of (xfree_tab k) k p (release ?B m) = MDone (release ?C m)"
    by (rule free_slots_after [OF l'(12) t_frees_elems [OF _ l'(11) t_free_kinds(4)] l'(2) _ l'(10) _ k(3) l'(1)])
      (use di fr in \<open>auto simp del: set_ptr_list\<close>)
  moreover have "free_key p m = MDone (release ?K m)" by (rule free_key_laid [OF l'(2) _ l'(3)]) simp
  moreover have "mfree p (release ?C m) = MDone (release (insert p ?C) m)"
    using di l'(1,2) by (subst mfree_allocated) auto
  moreover have "insert p ?C = set (t_own (LTab p key kv Ks ar As tb Ts))" by auto
  ultimately show ?thesis
    using l'(1) by simp
qed

lemma xfree_laid:
  assumes "laid m L" "distinct (t_own L)" "t_fuel L \<le> n"
  shows "t_free n L (t_root L) m = MDone (release (set (t_own L)) m)"
  using assms
proof (induction L arbitrary: m n)
  case (LText c)
  then show ?case by (auto simp: t_free_def holds_text_def mfree_allocated split: option.splits t_block.splits)
next
  case (LKeyval p key val)
  then have "\<forall>q \<in> set [key, val, p]. q \<noteq> 0 \<and> blocks m q \<noteq> None" using holds_text_live by auto
  with LKeyval have "mfree_all [key, val, p] m = MDone (release (set [key, val, p]) m)" by (intro mfree_all_live) auto
  with LKeyval.prems(1) show ?case by (simp add: t_free_def xfree_kval_def mload_live del: mfree_all.simps)
next
  case (LArr p key kind u Es)
  from LArr.prems(3) obtain k where k: "n = Suc k" "length Es < k" "sum_list (map t_fuel Es) \<le> k" by (cases n) auto
  have "xfree_arr (Suc k) p m = MDone (release (set (t_own (LArr p key kind u Es))) m)"
  proof (rule xfree_arr_laid [OF LArr.prems(1,2) k(2)])
    fix L assume "L \<in> set Es"
    then show "t_frees (t_free k L) L"
      by (rule t_frees_lower [OF LArr.IH]) (use \<open>L \<in> set Es\<close> LArr.prems(2) k(3) in auto)
  qed
  then show ?case by (simp only: t_free_def t_layout.case t_root.simps k(1))
next
  case (LTab p key kv Ks ar As tb Ts)
  from LTab.prems(3) obtain k where k: "n = Suc k" "length Ks < k" "length As < k" "length Ts < k"
    "sum_list (map t_fuel Ks) \<le> k" "sum_list (map t_fuel As) \<le> k" "sum_list (map t_fuel Ts) \<le> k" by (cases n) auto
  have "xfree_tab (Suc k) p m = MDone (release (set (t_own (LTab p key kv Ks ar As tb Ts))) m)"
  proof (rule xfree_tab_laid [OF LTab.prems(1,2) k(2-4)])
    fix L assume "L \<in> set (Ks @ As @ Ts)"
    then consider "L \<in> set Ks" | "L \<in> set As" | "L \<in> set Ts" by auto
    then show "t_frees (t_free k L) L"
    proof cases
      case 1
      then show ?thesis by (rule t_frees_lower [OF LTab.IH(1)]) (use 1 LTab.prems(2) k(5) in auto)
    next
      case 2
      then show ?thesis by (rule t_frees_lower [OF LTab.IH(2)]) (use 2 LTab.prems(2) k(6) in auto)
    next
      case 3
      then show ?thesis by (rule t_frees_lower [OF LTab.IH(3)]) (use 3 LTab.prems(2) k(7) in auto)
    qed
  qed
  then show ?case by (simp only: t_free_def t_layout.case t_root.simps k(1))
qed

lemma laid_live: "laid m L \<Longrightarrow> q \<in> set (t_own L) \<Longrightarrow> q \<noteq> 0 \<and> blocks m q \<noteq> None"
proof (induction L)
  case (LArr p key kind u Es)
  then have "holds_key m key" "holds_slots m u (map t_root Es)" by simp_all
  then have "\<forall>r \<in> set (ptr_list key) \<union> set (ptr_list u). r \<noteq> 0 \<and> blocks m r \<noteq> None"
    using holds_key_live holds_slots_live by blast
  moreover have "\<forall>E \<in> set Es. q \<in> set (t_own E) \<longrightarrow> q \<noteq> 0 \<and> blocks m q \<noteq> None"
    using LArr by (simp add: list_all_iff)
  ultimately show ?case using LArr.prems by (auto simp del: set_ptr_list)
next
  case (LTab p key kv Ks ar As tb Ts)
  then have "holds_key m key" "holds_slots m kv (map t_root Ks)" "holds_slots m ar (map t_root As)" "holds_slots m tb (map t_root Ts)"
    by simp_all
  then have "\<forall>r \<in> set (ptr_list key) \<union> set (ptr_list kv) \<union> set (ptr_list ar) \<union> set (ptr_list tb). r \<noteq> 0 \<and> blocks m r \<noteq> None"
    using holds_key_live holds_slots_live by blast
  moreover have "\<forall>E \<in> set Ks \<union> set As \<union> set Ts. laid m E"
    using LTab.prems(1) by (simp add: list_all_iff ball_Un)
  then have "\<forall>E \<in> set Ks \<union> set As \<union> set Ts. q \<in> set (t_own E) \<longrightarrow> q \<noteq> 0 \<and> blocks m q \<noteq> None"
    using LTab.IH by blast
  moreover have "q \<in> set (ptr_list key) \<union> set (ptr_list kv) \<union> set (ptr_list ar) \<union> set (ptr_list tb) \<or> q = p \<or>
      (\<exists>E \<in> set Ks \<union> set As \<union> set Ts. q \<in> set (t_own E))"
    using LTab.prems(2) by (simp del: set_ptr_list) blast
  moreover have "p \<noteq> 0 \<and> blocks m p \<noteq> None" using LTab.prems(1) by simp
  ultimately show ?case by blast
qed (auto dest: holds_text_live)

text \<open>C21. \<^verbatim>\<open>toml_free\<close> releases a parsed configuration and nothing else: every key, value, array and table, and the arrays of pointers that hold them, once;
  nothing is used after its release, all other blocks stay, and the recursion ends.\<close>

theorem toml_free_exact:
  assumes "laid m (LTab p key kv Ks ar As tb Ts)" and "distinct (t_own (LTab p key kv Ks ar As tb Ts))"
    and "t_fuel (LTab p key kv Ks ar As tb Ts) \<le> n"
  shows "toml_free n p m = MDone (release (set (t_own (LTab p key kv Ks ar As tb Ts))) m) \<and>
    (\<forall>q \<in> set (t_own (LTab p key kv Ks ar As tb Ts)). blocks m q \<noteq> None)"
proof -
  have "toml_free n p m = MDone (release (set (t_own (LTab p key kv Ks ar As tb Ts))) m)"
    using xfree_laid [OF assms] by (simp only: toml_free_def t_free_def t_layout.case t_root.simps)
  then show ?thesis using laid_live [OF assms(1)] by blast
qed

text \<open>The heap of \<^verbatim>\<open>a = 1\<close> and \<^verbatim>\<open>l = ["x"]\<close>, with a block of somebody else\<close>

definition sample_tables :: tmem where
  "sample_tables = \<lparr>blocks = [1 \<mapsto> TTable 0 1 2 1 6 0 0, 2 \<mapsto> TPtrs [3], 3 \<mapsto> TKeyval 4 5, 4 \<mapsto> TChars ''a'', 5 \<mapsto> TChars ''1'',
     6 \<mapsto> TPtrs [7], 7 \<mapsto> TArray 8 CHR ''v'' 1 9, 8 \<mapsto> TChars ''l'', 9 \<mapsto> TPtrs [10], 10 \<mapsto> TChars ''x'', 11 \<mapsto> TChars ''y''],
     next_addr = 12, refuses = \<lambda>k. False\<rparr>"

theorem toml_free_exact_witness:
  "\<exists>m. toml_free 20 1 sample_tables = MDone m \<and> blocks m 1 = None \<and> blocks m 10 = None \<and> blocks m 11 = Some (TChars ''y'')"
proof -
  let ?L = "LTab 1 0 2 [LKeyval 3 4 5] 6 [LArr 7 8 CHR ''v'' 9 [LText 10]] 0 []"
  have "laid sample_tables ?L"
    by (simp add: sample_tables_def holds_key_def holds_text_def holds_slots_def kind_ok_def)
  from toml_free_exact [OF this, of 20] show ?thesis
    by (simp add: ptr_list_def) (simp add: sample_tables_def)
qed

end
