(* ===== verification/Stns_Base.thy ===== *)
theory Stns_Base
  imports Parson_Text
begin

text \<open>
  The small parts of \<^verbatim>\<open>stns.c\<close> and \<^verbatim>\<open>stns.h\<close>: constants, the configuration and response records, the
  name checks, the bounded mutex acquisition, the cached identifier bounds with their HTTP header
  parser, and the regular expression that guards the query wrapper.

  C \<^verbatim>\<open>int\<close> values are 32-bit words read with \<open>sint\<close>. A null-pointer dereference is the outcome
  \<open>Segv\<close>. The effect of other threads on a mutex is an oracle: \<open>busy i\<close> says that the \<open>i\<close>-th
  \<^verbatim>\<open>pthread_mutex_trylock\<close> of a call finds the mutex held.
\<close>

section \<open>Constants and records\<close>

definition STNS_MAX_BUFFER_SIZE :: nat where
  "STNS_MAX_BUFFER_SIZE = 10 * 1024 * 1024"

definition STNS_DEFAULT_BUFFER_SIZE :: nat where
  "STNS_DEFAULT_BUFFER_SIZE = 16 * 1024"

definition MAXBUF :: nat where
  "MAXBUF = 1024"

definition STNS_LOCK_RETRY :: nat where
  "STNS_LOCK_RETRY = 3"

definition MAX_USERNAME_LENGTH :: nat where
  "MAX_USERNAME_LENGTH = 32"

definition MAX_GROUPNAME_LENGTH :: nat where
  "MAX_GROUPNAME_LENGTH = 32"

definition STNS_HTTP_NOTFOUND :: int where
  "STNS_HTTP_NOTFOUND = 404"

datatype 'a outcome = Segv | Ret 'a

datatype nss_status = NSS_STATUS_TRYAGAIN | NSS_STATUS_UNAVAIL | NSS_STATUS_NOTFOUND | NSS_STATUS_SUCCESS

record stns_user_httpheader =
  hdr_key :: string
  hdr_value :: string

record stns_conf =
  api_endpoint :: string
  auth_token :: "string option"
  user :: "string option"
  password :: "string option"
  query_wrapper :: "string option"
  chain_ssh_wrapper :: "string option"
  http_proxy :: "string option"
  http_location :: int
  cache_dir :: string
  tls_cert :: "string option"
  tls_key :: "string option"
  tls_ca :: "string option"
  cached_enable :: bool
  cached_unix_socket :: string
  http_headers :: "stns_user_httpheader list option"
  uid_shift :: i32
  gid_shift :: i32
  ssl_verify :: int
  use_cached :: bool
  request_timeout :: int
  request_retry :: i32
  request_locktime :: i32
  cache :: bool
  cache_ttl :: i32
  negative_cache_ttl :: i32

text \<open>The configuration \<^verbatim>\<open>stns_load_config\<close> produces from an empty file.\<close>

definition default_conf :: stns_conf where
  "default_conf =
     \<lparr>api_endpoint = ''http://localhost:1104/v1'', auth_token = None, user = None, password = None,
      query_wrapper = None, chain_ssh_wrapper = None, http_proxy = None, http_location = 0,
      cache_dir = ''/var/cache/stns'', tls_cert = None, tls_key = None, tls_ca = None,
      cached_enable = False, cached_unix_socket = ''/var/run/cache-stnsd.sock'', http_headers = None,
      uid_shift = 0, gid_shift = 0, ssl_verify = 1, use_cached = False, request_timeout = 10,
      request_retry = 3, request_locktime = 60, cache = True, cache_ttl = 600, negative_cache_ttl = 10\<rparr>"

text \<open>
  The response buffer: \<open>res_data\<close> holds the bytes in front of the terminator (for a freshly allocated
  buffer, whatever the allocator left there), \<open>res_capacity\<close> is the allocated size.
\<close>

record stns_response =
  res_data :: string
  res_capacity :: nat
  res_size :: nat
  res_status_code :: int

section \<open>Names\<close>

definition name_char :: "char \<Rightarrow> bool" where
  "name_char c \<longleftrightarrow> isalnum c \<or> c = CHR ''-'' \<or> c = CHR ''_''"

text \<open>The loop over \<^verbatim>\<open>i = 1 .. len - 1\<close>.\<close>

fun name_rest_ok :: "string \<Rightarrow> nat \<Rightarrow> nat \<Rightarrow> bool" where
  "name_rest_ok s i 0 = True"
| "name_rest_ok s i (Suc n) = (name_char (s ! i) \<and> name_rest_ok s (Suc i) n)"

text \<open>Zero is \<open>valid\<close> and one is \<open>invalid\<close>, as in the source.\<close>

definition is_valid_username :: "string option \<Rightarrow> int" where
  "is_valid_username username =
     (case username of
        None \<Rightarrow> 1
      | Some s \<Rightarrow>
          let len = strnlen s STNS_MAX_BUFFER_SIZE in
          if len = 0 \<or> len > MAX_USERNAME_LENGTH then 1
          else if \<not> isalpha (s ! 0) then 1
          else if name_rest_ok s 1 (len - 1) then 0 else 1)"

definition is_valid_groupname :: "string option \<Rightarrow> int" where
  "is_valid_groupname groupname =
     (case groupname of
        None \<Rightarrow> 1
      | Some s \<Rightarrow>
          let len = strnlen s STNS_MAX_BUFFER_SIZE in
          if len = 0 \<or> len > MAX_GROUPNAME_LENGTH then 1
          else if \<not> isalpha (s ! 0) then 1
          else if name_rest_ok s 1 (len - 1) then 0 else 1)"

section \<open>Mutexes\<close>

definition EBUSY :: int where
  "EBUSY = 16"

text \<open>Result and number of \<^verbatim>\<open>pthread_mutex_trylock\<close> calls; between two calls the thread sleeps.\<close>

function pthread_mutex_retrylock_loop :: "(nat \<Rightarrow> bool) \<Rightarrow> nat \<Rightarrow> int \<times> nat" where
  "pthread_mutex_retrylock_loop busy i =
     (let ret = (if busy i then EBUSY else 0) in
      if ret = 0 \<or> i \<ge> STNS_LOCK_RETRY then (ret, i + 1)
      else pthread_mutex_retrylock_loop busy (i + 1))"
  by pat_completeness auto
termination
  by (relation "measure (\<lambda>(busy, i). STNS_LOCK_RETRY - i)") auto

declare pthread_mutex_retrylock_loop.simps [simp del]

definition pthread_mutex_retrylock :: "(nat \<Rightarrow> bool) \<Rightarrow> int \<times> nat" where
  "pthread_mutex_retrylock busy = pthread_mutex_retrylock_loop busy 0"

section \<open>Bounds of the identifiers\<close>

record id_bounds =
  highest_user_id :: i32
  lowest_user_id :: i32
  highest_group_id :: i32
  lowest_group_id :: i32

definition no_bounds :: id_bounds where
  "no_bounds = \<lparr>highest_user_id = 0, lowest_user_id = 0, highest_group_id = 0, lowest_group_id = 0\<rparr>"

text \<open>\<^verbatim>\<open>SET_GET_HIGH_LOW_ID\<close>: a value that is written or read under its mutex, if that can be had.\<close>

definition set_id :: "(nat \<Rightarrow> bool) \<Rightarrow> i32 \<Rightarrow> i32 \<Rightarrow> i32" where
  "set_id busy new_id old = (if fst (pthread_mutex_retrylock busy) \<noteq> 0 then old else new_id)"

definition get_id :: "(nat \<Rightarrow> bool) \<Rightarrow> i32 \<Rightarrow> i32" where
  "get_id busy stored = (if fst (pthread_mutex_retrylock busy) \<noteq> 0 then 0 else stored)"

definition set_user_highest_id :: "(nat \<Rightarrow> bool) \<Rightarrow> i32 \<Rightarrow> id_bounds \<Rightarrow> id_bounds" where
  "set_user_highest_id busy new_id st = st\<lparr>highest_user_id := set_id busy new_id (highest_user_id st)\<rparr>"

definition set_user_lowest_id :: "(nat \<Rightarrow> bool) \<Rightarrow> i32 \<Rightarrow> id_bounds \<Rightarrow> id_bounds" where
  "set_user_lowest_id busy new_id st = st\<lparr>lowest_user_id := set_id busy new_id (lowest_user_id st)\<rparr>"

definition set_group_highest_id :: "(nat \<Rightarrow> bool) \<Rightarrow> i32 \<Rightarrow> id_bounds \<Rightarrow> id_bounds" where
  "set_group_highest_id busy new_id st = st\<lparr>highest_group_id := set_id busy new_id (highest_group_id st)\<rparr>"

definition set_group_lowest_id :: "(nat \<Rightarrow> bool) \<Rightarrow> i32 \<Rightarrow> id_bounds \<Rightarrow> id_bounds" where
  "set_group_lowest_id busy new_id st = st\<lparr>lowest_group_id := set_id busy new_id (lowest_group_id st)\<rparr>"

text \<open>\<^verbatim>\<open>ID_QUERY_AVAILABLE\<close>\<close>

definition highest_query_available :: "(nat \<Rightarrow> bool) \<Rightarrow> i32 \<Rightarrow> i32 \<Rightarrow> bool" where
  "highest_query_available busy stored query =
     (let r = get_id busy stored in \<not> (r \<noteq> 0 \<and> sint r < sint query))"

definition lowest_query_available :: "(nat \<Rightarrow> bool) \<Rightarrow> i32 \<Rightarrow> i32 \<Rightarrow> bool" where
  "lowest_query_available busy stored query =
     (let r = get_id busy stored in \<not> (r \<noteq> 0 \<and> sint r > sint query))"

definition stns_user_highest_query_available :: "(nat \<Rightarrow> bool) \<Rightarrow> id_bounds \<Rightarrow> i32 \<Rightarrow> bool" where
  "stns_user_highest_query_available busy st query = highest_query_available busy (highest_user_id st) query"

definition stns_user_lowest_query_available :: "(nat \<Rightarrow> bool) \<Rightarrow> id_bounds \<Rightarrow> i32 \<Rightarrow> bool" where
  "stns_user_lowest_query_available busy st query = lowest_query_available busy (lowest_user_id st) query"

definition stns_group_highest_query_available :: "(nat \<Rightarrow> bool) \<Rightarrow> id_bounds \<Rightarrow> i32 \<Rightarrow> bool" where
  "stns_group_highest_query_available busy st query = highest_query_available busy (highest_group_id st) query"

definition stns_group_lowest_query_available :: "(nat \<Rightarrow> bool) \<Rightarrow> id_bounds \<Rightarrow> i32 \<Rightarrow> bool" where
  "stns_group_lowest_query_available busy st query = lowest_query_available busy (lowest_group_id st) query"

text \<open>\<^verbatim>\<open>USER_ID_QUERY_AVAILABLE\<close> and \<^verbatim>\<open>GROUP_ID_QUERY_AVAILABLE\<close>: may the query be sent?\<close>

definition USER_ID_QUERY_AVAILABLE :: "(nat \<Rightarrow> bool) \<Rightarrow> id_bounds \<Rightarrow> u32 \<Rightarrow> bool" where
  "USER_ID_QUERY_AVAILABLE busy st uid \<longleftrightarrow>
     stns_user_highest_query_available busy st uid \<and> stns_user_lowest_query_available busy st uid"

definition GROUP_ID_QUERY_AVAILABLE :: "(nat \<Rightarrow> bool) \<Rightarrow> id_bounds \<Rightarrow> u32 \<Rightarrow> bool" where
  "GROUP_ID_QUERY_AVAILABLE busy st gid \<longleftrightarrow>
     stns_group_highest_query_available busy st gid \<and> stns_group_lowest_query_available busy st gid"

section \<open>Header lines\<close>

text \<open>The length left by the backward loop of \<^verbatim>\<open>trim\<close>: \<open>n\<close> is \<^verbatim>\<open>i + 1\<close>.\<close>

fun trim_tail :: "nat \<Rightarrow> string \<Rightarrow> nat" where
  "trim_tail 0 s = 0"
| "trim_tail (Suc n) s = (if isspace (s ! n) then trim_tail n s else Suc n)"

definition trim :: "string \<Rightarrow> string" where
  "trim s = dropWhile isspace (take (trim_tail (strnlen s STNS_MAX_BUFFER_SIZE) s) (cstr s))"

text \<open>\<^verbatim>\<open>strtok\<close>: leading delimiters are skipped; \<open>None\<close> when nothing is left. The rest is what the next call
  continues with.\<close>

definition strtok :: "string \<Rightarrow> string \<Rightarrow> (string \<times> string) option" where
  "strtok s delims =
     (let t = dropWhile (\<lambda>c. c \<in> set delims) s in
      if t = [] then None
      else Some (takeWhile (\<lambda>c. c \<notin> set delims) t, drop 1 (dropWhile (\<lambda>c. c \<notin> set delims) t)))"

text \<open>\<^verbatim>\<open>SET_TRIM_ID\<close>: the value up to a dot, trimmed, plus the shift of the configuration.\<close>

definition trimmed_id :: "string \<Rightarrow> i32 \<Rightarrow> i32 outcome" where
  "trimmed_id rest shift =
     (case strtok rest ''.'' of None \<Rightarrow> Segv | Some (tp, _) \<Rightarrow> Ret (atoi (trim tp) + shift))"

text \<open>\<open>buffer\<close> is what libcurl hands over, ended by a null byte. libcurl does not promise that byte, and \<^verbatim>\<open>strtok\<close> reads until it finds one;
  what it would find behind the line is outside of the model.\<close>

definition header_callback :: "(nat \<Rightarrow> bool) \<Rightarrow> stns_conf \<Rightarrow> string \<Rightarrow> id_bounds \<Rightarrow> id_bounds outcome" where
  "header_callback busy c buffer st =
     (case strtok (cstr buffer) '':'' of
        None \<Rightarrow> Segv
      | Some (tp, rest) \<Rightarrow>
          if tp = ''User-Highest-Id'' then
            (case trimmed_id rest (uid_shift c) of Segv \<Rightarrow> Segv | Ret v \<Rightarrow> Ret (set_user_highest_id busy v st))
          else if tp = ''User-Lowest-Id'' then
            (case trimmed_id rest (uid_shift c) of Segv \<Rightarrow> Segv | Ret v \<Rightarrow> Ret (set_user_lowest_id busy v st))
          else if tp = ''Group-Highest-Id'' then
            (case trimmed_id rest (gid_shift c) of Segv \<Rightarrow> Segv | Ret v \<Rightarrow> Ret (set_group_highest_id busy v st))
          else if tp = ''Group-Lowest-Id'' then
            (case trimmed_id rest (gid_shift c) of Segv \<Rightarrow> Segv | Ret v \<Rightarrow> Ret (set_group_lowest_id busy v st))
          else Ret st)"

section \<open>Response segments\<close>

text \<open>The second component is what the callback returns to libcurl.\<close>

definition response_callback :: "string \<Rightarrow> stns_response \<Rightarrow> stns_response \<times> nat" where
  "response_callback buffer res =
     (let segsize = length buffer in
      if segsize > STNS_MAX_BUFFER_SIZE then (res, 0)
      else
        let cap = (if res_size res + segsize + 1 > STNS_DEFAULT_BUFFER_SIZE
                   then res_size res + segsize + 1 else res_capacity res)
        in (res\<lparr>res_capacity := cap, res_data := take (res_size res) (res_data res) @ buffer,
                res_size := res_size res + segsize\<rparr>, segsize))"

section \<open>The argument check of the query wrapper\<close>

text \<open>\<^verbatim>\<open>match ("^[a-zA-Z0-9_.=?]+$", text)\<close>\<close>

definition wrapper_char :: "char \<Rightarrow> bool" where
  "wrapper_char c \<longleftrightarrow> isalnum c \<or> c \<in> set ''_.=?''"

definition match_wrapper_arg :: "string option \<Rightarrow> bool" where
  "match_wrapper_arg text =
     (case text of None \<Rightarrow> False | Some s \<Rightarrow> cstr s \<noteq> [] \<and> list_all wrapper_char (cstr s))"

section \<open>What the name checks accept\<close>

lemma name_rest_ok_iff: "name_rest_ok s i n \<longleftrightarrow> (\<forall>j < n. name_char (s ! (i + j)))"
  by (induction n arbitrary: i) (auto simp: less_Suc_eq_0_disj)

lemma nth_cstr: "i < length (cstr s) \<Longrightarrow> cstr s ! i = s ! i"
  unfolding cstr_def by (rule takeWhile_nth)

lemma name_check_iff:
  assumes "m < STNS_MAX_BUFFER_SIZE"
  shows "(let len = strnlen s STNS_MAX_BUFFER_SIZE in
     \<not> (len = 0 \<or> len > m) \<and> isalpha (s ! 0) \<and> name_rest_ok s 1 (len - 1)) \<longleftrightarrow>
   cstr s \<noteq> [] \<and> length (cstr s) \<le> m \<and> isalpha (hd (cstr s)) \<and> list_all name_char (tl (cstr s))"
proof (cases "cstr s = [] \<or> length (cstr s) > m")
  case True
  then show ?thesis
    using assms by (auto simp: strnlen_def Let_def)
next
  case False
  then have len: "strnlen s STNS_MAX_BUFFER_SIZE = length (cstr s)" and ne: "cstr s \<noteq> []"
    using assms by (auto simp: strnlen_def)
  then have "s ! 0 = hd (cstr s)"
    using nth_cstr [of 0 s] by (simp add: hd_conv_nth)
  moreover have "name_rest_ok s 1 (length (cstr s) - 1) \<longleftrightarrow> list_all name_char (tl (cstr s))"
    unfolding name_rest_ok_iff list_all_length by (auto simp: nth_tl nth_cstr)
  ultimately show ?thesis
    using False len by (simp add: Let_def)
qed

lemma valid_username_iff:
  "is_valid_username (Some s) =
     (if cstr s \<noteq> [] \<and> length (cstr s) \<le> 32 \<and> isalpha (hd (cstr s)) \<and> list_all name_char (tl (cstr s))
      then 0 else 1)"
  using name_check_iff [of MAX_USERNAME_LENGTH s]
  by (auto simp: is_valid_username_def Let_def MAX_USERNAME_LENGTH_def STNS_MAX_BUFFER_SIZE_def)

text \<open>C40. A user name is accepted exactly when, read up to its terminator, it is non-empty, at most 32
  characters long, starts with a letter and continues with letters, digits, dashes and underscores;
  a null name is refused. (So a name that reaches the query string can hold no separator.)\<close>

theorem is_valid_username_iff:
  "is_valid_username None = 1 \<and>
   is_valid_username (Some s) =
     (if cstr s \<noteq> [] \<and> length (cstr s) \<le> 32 \<and> isalpha (hd (cstr s)) \<and> list_all name_char (tl (cstr s))
      then 0 else 1)"
  unfolding valid_username_iff by (simp add: is_valid_username_def)

lemma is_valid_groupname_eq: "is_valid_groupname = is_valid_username"
  unfolding is_valid_groupname_def is_valid_username_def MAX_USERNAME_LENGTH_def MAX_GROUPNAME_LENGTH_def ..

section \<open>Bounded waiting\<close>

lemma retrylock_loop_result:
  assumes "i \<le> STNS_LOCK_RETRY"
  shows "pthread_mutex_retrylock_loop busy i =
    (if \<forall>j. i \<le> j \<and> j \<le> STNS_LOCK_RETRY \<longrightarrow> busy j then (EBUSY, STNS_LOCK_RETRY + 1)
     else (0, (LEAST j. i \<le> j \<and> \<not> busy j) + 1))"
  using assms
proof (induction busy i rule: pthread_mutex_retrylock_loop.induct)
  case (1 busy i)
  show ?case
  proof (cases "busy i")
    case False
    then have "(LEAST j. i \<le> j \<and> \<not> busy j) = i"
      by (intro Least_equality) auto
    with False "1.prems" show ?thesis
      by (subst pthread_mutex_retrylock_loop.simps) auto
  next
    case b: True
    show ?thesis
    proof (cases "i = STNS_LOCK_RETRY")
      case True
      with b show ?thesis
        by (subst pthread_mutex_retrylock_loop.simps) (auto simp: EBUSY_def)
    next
      case False
      with "1.prems" have i: "Suc i \<le> STNS_LOCK_RETRY" by simp
      have eq: "(\<lambda>j. Suc i \<le> j \<and> \<not> busy j) = (\<lambda>j. i \<le> j \<and> \<not> busy j)"
        using b by (auto simp: fun_eq_iff Suc_le_eq order_less_le)
      have all: "(\<forall>j. Suc i \<le> j \<and> j \<le> STNS_LOCK_RETRY \<longrightarrow> busy j) \<longleftrightarrow> (\<forall>j. i \<le> j \<and> j \<le> STNS_LOCK_RETRY \<longrightarrow> busy j)"
        using b by (auto simp: Suc_le_eq order_less_le)
      from False b i show ?thesis
        using "1.IH" [of EBUSY]
        by (subst pthread_mutex_retrylock_loop.simps) (simp add: EBUSY_def eq [simplified] all [simplified])
    qed
  qed
qed

lemma retrylock_result:
  "pthread_mutex_retrylock busy =
    (if \<forall>j \<le> STNS_LOCK_RETRY. busy j then (EBUSY, STNS_LOCK_RETRY + 1) else (0, (LEAST j. \<not> busy j) + 1))"
  unfolding pthread_mutex_retrylock_def by (subst retrylock_loop_result) auto

lemma retrylock_free [simp]: "fst (pthread_mutex_retrylock (\<lambda>_. b)) = (if b then EBUSY else 0)"
  by (auto simp: retrylock_result)

lemma EBUSY_nonzero [simp]: "EBUSY \<noteq> 0"
  by (simp add: EBUSY_def)

text \<open>Acquiring a mutex always ends: it succeeds, with the first attempt that finds the mutex free, if one of
  the first four attempts does, and otherwise gives up with \<^verbatim>\<open>EBUSY\<close> after exactly four.\<close>

theorem pthread_mutex_retrylock_bounded:
  "(fst (pthread_mutex_retrylock busy) = 0 \<longleftrightarrow> \<not> (busy 0 \<and> busy 1 \<and> busy 2 \<and> busy 3)) \<and>
   snd (pthread_mutex_retrylock busy) \<le> 4 \<and>
   (fst (pthread_mutex_retrylock busy) \<noteq> 0 \<longrightarrow> pthread_mutex_retrylock busy = (EBUSY, 4)) \<and>
   (fst (pthread_mutex_retrylock busy) = 0 \<longrightarrow> \<not> busy (snd (pthread_mutex_retrylock busy) - 1))"
proof -
  have all: "(\<forall>j \<le> STNS_LOCK_RETRY. busy j) \<longleftrightarrow> busy 0 \<and> busy 1 \<and> busy 2 \<and> busy 3"
    by (auto simp: STNS_LOCK_RETRY_def numeral_eq_Suc le_Suc_eq)
  show ?thesis
  proof (cases "\<forall>j \<le> STNS_LOCK_RETRY. busy j")
    case True
    then show ?thesis
      using all by (simp add: retrylock_result STNS_LOCK_RETRY_def)
  next
    case False
    then obtain j where j: "j \<le> 3" "\<not> busy j"
      by (auto simp: STNS_LOCK_RETRY_def)
    then have "(LEAST j. \<not> busy j) \<le> 3" "\<not> busy (LEAST j. \<not> busy j)"
      using Least_le [of "\<lambda>j. \<not> busy j" j] LeastI [of "\<lambda>j. \<not> busy j" j] by auto
    then show ?thesis
      using False all by (simp add: retrylock_result)
  qed
qed

theorem pthread_mutex_retrylock_bounded_witness:
  "pthread_mutex_retrylock (\<lambda>i. i < 7) = (EBUSY, 4) \<and> \<not> (snd (pthread_mutex_retrylock (\<lambda>i. i < 2)) - 1 < 2)"
proof -
  have "fst (pthread_mutex_retrylock (\<lambda>i. i < 7)) \<noteq> 0" "fst (pthread_mutex_retrylock (\<lambda>i. i < 2)) = 0"
    by (simp_all add: retrylock_result STNS_LOCK_RETRY_def) (rule exI [of _ 2], simp)
  then show ?thesis
    using pthread_mutex_retrylock_bounded [of "\<lambda>i. i < 7"] pthread_mutex_retrylock_bounded [of "\<lambda>i. i < 2"] by blast
qed

section \<open>Which identifiers are queried\<close>

text \<open>When the mutex can be had, a query by identifier is sent exactly when the identifier, read as a signed
  integer, lies within the bounds the server has announced; a bound of zero is no bound. When it
  cannot be had, the query is sent.\<close>

theorem USER_ID_QUERY_AVAILABLE_iff:
  "USER_ID_QUERY_AVAILABLE busy st uid \<longleftrightarrow>
     (if fst (pthread_mutex_retrylock busy) = 0
      then (highest_user_id st = 0 \<or> sint uid \<le> sint (highest_user_id st)) \<and>
           (lowest_user_id st = 0 \<or> sint (lowest_user_id st) \<le> sint uid)
      else True)"
  by (auto simp: USER_ID_QUERY_AVAILABLE_def stns_user_highest_query_available_def stns_user_lowest_query_available_def
      highest_query_available_def lowest_query_available_def get_id_def Let_def)

section \<open>Header lines round trip\<close>

lemma trim_tail_le: "trim_tail n s \<le> n"
  by (induction n) auto

lemma take_trim_tail: "n \<le> length s \<Longrightarrow> take (trim_tail n s) s = rev (dropWhile isspace (rev (take n s)))"
  by (induction n) (auto simp: take_Suc_conv_app_nth)

lemma take_cstr: "n \<le> length (cstr s) \<Longrightarrow> take n (cstr s) = take n s"
  unfolding cstr_def by (metis append_take_drop_id takeWhile_dropWhile_id take_append diff_is_0_eq take0 append_Nil2)

lemma trim_strip:
  assumes "length (cstr s) \<le> STNS_MAX_BUFFER_SIZE"
  shows "trim s = dropWhile isspace (rev (dropWhile isspace (rev (cstr s))))"
proof -
  have n: "strnlen s STNS_MAX_BUFFER_SIZE = length (cstr s)"
    using assms by (simp add: strnlen_def)
  have "take (trim_tail (length (cstr s)) s) (cstr s) = take (trim_tail (length (cstr s)) s) s"
    by (rule take_cstr) (rule trim_tail_le)
  also have "\<dots> = rev (dropWhile isspace (rev (take (length (cstr s)) s)))"
    by (rule take_trim_tail) simp
  also have "take (length (cstr s)) s = cstr s"
    by (metis order_refl take_all take_cstr)
  finally show ?thesis
    by (simp add: trim_def n)
qed

lemma cstr_take_nul: "no_nul s \<Longrightarrow> cstr (s @ t) = s @ cstr t"
  by (induction s) auto

lemma list_all_dropWhile_id: "s \<noteq> [] \<Longrightarrow> \<not> P (hd s) \<Longrightarrow> dropWhile P s = s"
  by (cases s) auto

lemma show_int_chars: "c \<in> set (show_int i) \<Longrightarrow> isdigit c \<or> c = CHR ''-''"
  using show_nat_digits by (auto simp: show_int_def list_all_iff split: if_splits)

lemma show_int_no_space: "c \<in> set (show_int i) \<Longrightarrow> \<not> isspace c \<and> c \<noteq> CHR ''.'' \<and> c \<noteq> CHR '':''"
  using show_int_chars [of c i] by (auto simp: ctype_simps)

lemma show_int_ne [simp]: "show_int i \<noteq> []"
  by (simp add: show_int_def)

lemma trim_padded:
  assumes "s \<noteq> []" "\<forall>c \<in> set s. \<not> isspace c" "no_nul s" "length s + 3 \<le> STNS_MAX_BUFFER_SIZE"
  shows "trim (CHR '' '' # s @ [CR, LF]) = s"
proof -
  have sp: "isspace CR" "isspace LF" "isspace (CHR '' '')"
    by (simp_all add: isspace_def)
  have c: "cstr (CHR '' '' # s @ [CR, LF]) = CHR '' '' # s @ [CR, LF]"
    using assms(3) by simp
  have "dropWhile isspace (rev (CHR '' '' # s @ [CR, LF])) = rev s @ [CHR '' '']"
    using assms(1,2) sp by (simp add: dropWhile_append) (metis hd_append2 hd_in_set list_all_dropWhile_id rev_is_Nil_conv set_rev append_is_Nil_conv)
  moreover have "dropWhile isspace s = s"
    using assms(1,2) by (intro list_all_dropWhile_id) auto
  ultimately show ?thesis
    using assms(3,4) sp by (subst trim_strip) simp_all
qed

lemma trimmed_id_padded:
  assumes "- (2 ^ 63) \<le> n" "n < 2 ^ 63"
  shows "trimmed_id (CHR '' '' # show_int n @ [CR, LF]) shift = Ret (word_of_int n + shift)"
proof -
  have len: "length (show_int n) + 3 \<le> STNS_MAX_BUFFER_SIZE"
  proof -
    have "length (show_nat (nat \<bar>n\<bar>)) \<le> 20"
      using assms by (intro length_show_nat_pow) (simp_all add: nat_less_iff)
    then have "length (show_int n) \<le> 21"
      by (auto simp: show_int_def)
    then show ?thesis
      by (simp add: STNS_MAX_BUFFER_SIZE_def)
  qed
  have dot: "\<forall>c \<in> set (CHR '' '' # show_int n @ [CR, LF]). c \<noteq> CHR ''.''"
    using show_int_no_space [of _ n] by auto
  have "strtok (CHR '' '' # show_int n @ [CR, LF]) ''.'' = Some (CHR '' '' # show_int n @ [CR, LF], [])"
    using dot by (simp add: strtok_def takeWhile_eq_all_conv dropWhile_eq_Nil_conv)
  moreover have "trim (CHR '' '' # show_int n @ [CR, LF]) = show_int n"
    using show_int_no_space len by (intro trim_padded) auto
  ultimately show ?thesis
    using strtol10_show_int [OF assms] by (simp add: trimmed_id_def atoi_def)
qed

lemma strtok_colon:
  assumes "name \<noteq> []" "CHR '':'' \<notin> set name"
  shows "strtok (name @ CHR '':'' # rest) '':'' = Some (name, rest)"
proof -
  have "dropWhile (\<lambda>c. c \<in> set '':'') (name @ CHR '':'' # rest) = name @ CHR '':'' # rest"
    using assms by (cases name) auto
  moreover have "takeWhile (\<lambda>c. c \<notin> set '':'') (name @ CHR '':'' # rest) = name"
    "dropWhile (\<lambda>c. c \<notin> set '':'') (name @ CHR '':'' # rest) = CHR '':'' # rest"
    using assms(2) by (induction name) auto
  ultimately show ?thesis
    using assms(1) by (simp add: strtok_def)
qed

text \<open>A well-formed header line \<^verbatim>\<open>User-Highest-Id: n\<close> (terminated by CR LF, the number in decimal, also negative)
  stores \<^verbatim>\<open>n + uid_shift\<close>, in 32-bit arithmetic, and nothing else; the other three headers do the same for
  their bounds, with the shift that belongs to them.\<close>

theorem header_callback_roundtrip:
  assumes "- (2 ^ 63) \<le> n" and "n < 2 ^ 63"
  shows "header_callback (\<lambda>_. False) c (''User-Highest-Id: '' @ show_int n @ [CR, LF]) st
       = Ret (st\<lparr>highest_user_id := word_of_int n + uid_shift c\<rparr>) \<and>
     header_callback (\<lambda>_. False) c (''User-Lowest-Id: '' @ show_int n @ [CR, LF]) st
       = Ret (st\<lparr>lowest_user_id := word_of_int n + uid_shift c\<rparr>) \<and>
     header_callback (\<lambda>_. False) c (''Group-Highest-Id: '' @ show_int n @ [CR, LF]) st
       = Ret (st\<lparr>highest_group_id := word_of_int n + gid_shift c\<rparr>) \<and>
     header_callback (\<lambda>_. False) c (''Group-Lowest-Id: '' @ show_int n @ [CR, LF]) st
       = Ret (st\<lparr>lowest_group_id := word_of_int n + gid_shift c\<rparr>)"
  using strtok_colon [of "''User-Highest-Id''"] strtok_colon [of "''User-Lowest-Id''"]
    strtok_colon [of "''Group-Highest-Id''"] strtok_colon [of "''Group-Lowest-Id''"]
    trimmed_id_padded [OF assms]
  by (simp add: header_callback_def set_id_def set_user_highest_id_def set_user_lowest_id_def
      set_group_highest_id_def set_group_lowest_id_def)

theorem header_callback_roundtrip_witness:
  "header_callback (\<lambda>_. False) (default_conf\<lparr>uid_shift := 1000\<rparr>) (''User-Highest-Id: '' @ show_int 5 @ [CR, LF]) no_bounds
     = Ret (no_bounds\<lparr>highest_user_id := word_of_int 5 + 1000\<rparr>)"
  using header_callback_roundtrip [of 5 "default_conf\<lparr>uid_shift := 1000\<rparr>" no_bounds] by simp

section \<open>Bounds of the response buffer\<close>

definition wf_response :: "stns_response \<Rightarrow> bool" where
  "wf_response res \<longleftrightarrow> STNS_DEFAULT_BUFFER_SIZE \<le> res_capacity res \<and> res_size res < res_capacity res"

lemma response_callback_data:
  assumes "wf_response res" "res_size res \<le> length (res_data res)" "length buffer \<le> STNS_MAX_BUFFER_SIZE"
  shows "\<exists>res'. response_callback buffer res = (res', length buffer) \<and> wf_response res' \<and>
    res_data res' = take (res_size res) (res_data res) @ buffer \<and> res_size res' = length (res_data res') \<and>
    res_status_code res' = res_status_code res"
  using assms by (auto simp: response_callback_def Let_def wf_response_def)

text \<open>A name that passes \<open>is_valid_username\<close> may hold a dash, which the check of the query wrapper refuses.\<close>

lemma wrapper_refuses_valid_name:
  "is_valid_username (Some ''web-admin'') = 0 \<and> \<not> match_wrapper_arg (Some ''users?name=web-admin'')"
  by (simp add: valid_username_iff name_char_def match_wrapper_arg_def wrapper_char_def ctype_simps)

end
