(* ===== verification/Stns_Cache.thy ===== *)
theory Stns_Cache
  imports Stns_Base
begin

text \<open>
  The files \<^verbatim>\<open>stns.c\<close> keeps: the response cache below \<^verbatim>\<open>cache_dir/<euid>\<close> and the lock file that suspends
  requests after a connection failure.

  The part of the operating system these functions use is explicit state: a list of paths with
  their nodes, the effective user, the clock and the umask. Paths are compared as strings; a final
  symbolic link is followed by \<^verbatim>\<open>stat\<close> and \<^verbatim>\<open>fopen\<close> (at most 40 of them) and refused by \<^verbatim>\<open>O_NOFOLLOW\<close>.
  Everything else that makes the kernel refuse to open, to make or to remove something (permissions, a missing parent, no room for a
  new file) is the predicate \<open>refused\<close> on the current files and the path: the theorems hold for every such predicate.

  Not modelled: once a file is open, \<^verbatim>\<open>fstat\<close>, \<^verbatim>\<open>ftruncate\<close>, \<^verbatim>\<open>fdopen\<close>, \<^verbatim>\<open>fchmod\<close>, \<^verbatim>\<open>fprintf\<close> and \<^verbatim>\<open>fclose\<close> succeed, so a disk that fills up
  while the data is written is outside of the model (\<^verbatim>\<open>stns_export_file\<close> does not look at the results of the last three). The length of a
  file that is read is a natural number where the code has an \<^verbatim>\<open>int\<close>: files of 2 GiB and more are outside. \<open>readdir\<close> lists the paths below the
  path of the directory, where \<^verbatim>\<open>opendir\<close> would follow a symbolic link; \<^verbatim>\<open>stns_request\<close> calls \<^verbatim>\<open>delete_cache_files\<close> only when
  \<^verbatim>\<open>lstat\<close> has shown a directory.
\<close>

section \<open>Files\<close>

datatype node_kind = Directory | Regular | Symlink string

record node =
  n_kind :: node_kind
  n_uid :: u32
  n_mode :: u32
  n_data :: string
  n_mtime :: u64
  n_ctime :: u64

type_synonym files = "(string \<times> node) list"

record os =
  files :: files
  refused :: "files \<Rightarrow> string \<Rightarrow> bool"
  geteuid :: u32
  time_now :: u64
  umask :: u32

definition lstat :: "os \<Rightarrow> string \<Rightarrow> node option" where
  "lstat w p = map_of (files w) p"

fun resolve :: "nat \<Rightarrow> files \<Rightarrow> string \<Rightarrow> string option" where
  "resolve 0 fs p = None"
| "resolve (Suc n) fs p =
     (case map_of fs p of
        None \<Rightarrow> None
      | Some nd \<Rightarrow> (case n_kind nd of Symlink t \<Rightarrow> resolve n fs t | _ \<Rightarrow> Some p))"

definition stat :: "os \<Rightarrow> string \<Rightarrow> node option" where
  "stat w p = (case resolve 41 (files w) p of None \<Rightarrow> None | Some q \<Rightarrow> map_of (files w) q)"

definition S_ISDIR :: "node \<Rightarrow> bool" where
  "S_ISDIR nd \<longleftrightarrow> n_kind nd = Directory"

definition put_node :: "string \<Rightarrow> node \<Rightarrow> os \<Rightarrow> os" where
  "put_node p nd w = w\<lparr>files := AList.update p nd (files w)\<rparr>"

definition new_node :: "os \<Rightarrow> node_kind \<Rightarrow> u32 \<Rightarrow> node" where
  "new_node w k mode =
     \<lparr>n_kind = k, n_uid = geteuid w, n_mode = mode, n_data = [], n_mtime = time_now w, n_ctime = time_now w\<rparr>"

text \<open>\<^verbatim>\<open>mkdir\<close> with the umask cleared\<close>

definition mkdir :: "string \<Rightarrow> u32 \<Rightarrow> os \<Rightarrow> os" where
  "mkdir p mode w =
     (if lstat w p \<noteq> None \<or> refused w (files w) p then w else put_node p (new_node w Directory mode) w)"

text \<open>\<^verbatim>\<open>open (p, O_WRONLY | O_CREAT | O_NOFOLLOW, mode)\<close>; \<open>None\<close> is \<^verbatim>\<open>-1\<close>.\<close>

definition open_write :: "string \<Rightarrow> u32 \<Rightarrow> os \<Rightarrow> os option" where
  "open_write p mode w =
     (if refused w (files w) p then None
      else case lstat w p of
             None \<Rightarrow> Some (put_node p (new_node w Regular (mode AND NOT (umask w))) w)
           | Some nd \<Rightarrow> (case n_kind nd of Regular \<Rightarrow> Some w | _ \<Rightarrow> None))"

text \<open>Truncating a regular file and writing to it.\<close>

definition write_data :: "string \<Rightarrow> string \<Rightarrow> os \<Rightarrow> os" where
  "write_data p data w =
     (case lstat w p of
        None \<Rightarrow> w
      | Some nd \<Rightarrow> put_node p (nd\<lparr>n_data := data, n_mtime := time_now w, n_ctime := time_now w\<rparr>) w)"

definition fchmod :: "string \<Rightarrow> u32 \<Rightarrow> os \<Rightarrow> os" where
  "fchmod p mode w =
     (case lstat w p of None \<Rightarrow> w | Some nd \<Rightarrow> put_node p (nd\<lparr>n_mode := mode, n_ctime := time_now w\<rparr>) w)"

definition unlink :: "string \<Rightarrow> os \<Rightarrow> os" where
  "unlink p w = (if refused w (files w) p then w else w\<lparr>files := AList.delete p (files w)\<rparr>)"

text \<open>\<^verbatim>\<open>fopen (p, "r")\<close>: the bytes a reader gets (none from a directory).\<close>

definition fopen_read :: "string \<Rightarrow> os \<Rightarrow> string option" where
  "fopen_read p w =
     (if refused w (files w) p then None
      else map_option (\<lambda>nd. if S_ISDIR nd then [] else n_data nd) (stat w p))"

section \<open>The cache directory\<close>

definition S_ISVTX :: u32 where
  "S_ISVTX = 0x200"

definition stns_force_create_cache_dir :: "stns_conf \<Rightarrow> os \<Rightarrow> os" where
  "stns_force_create_cache_dir c w =
     (if cache c \<and> geteuid w = 0 \<and> \<not> cached_enable c then
        let path = snprintf_str MAXBUF (cache_dir c) in
        case stat w path of
          None \<Rightarrow> mkdir path (S_ISVTX OR 0x1FF) w
        | Some st \<Rightarrow>
            if S_ISVTX AND n_mode st = 0 then
              (case (if refused w (files w) path then None else resolve 41 (files w) path) of
                 None \<Rightarrow> w
               | Some q \<Rightarrow> fchmod q (S_ISVTX OR 0x1FF) w)
            else w
      else w)"

definition stns_cache_dir_is_safe :: "os \<Rightarrow> string \<Rightarrow> bool" where
  "stns_cache_dir_is_safe w dir =
     (case lstat w dir of
        None \<Rightarrow> False
      | Some st \<Rightarrow> S_ISDIR st \<and> n_uid st = geteuid w \<and> n_mode st AND 0x12 = 0)"

definition stns_export_file :: "string \<Rightarrow> string \<Rightarrow> string \<Rightarrow> os \<Rightarrow> os" where
  "stns_export_file dir file data w =
     (let w1 = (if stat w dir = None then mkdir dir 0x1C0 w else w) in
      if \<not> stns_cache_dir_is_safe w1 dir then w1
      else case open_write file 0x1E4 w1 of
             None \<Rightarrow> w1
           | Some w2 \<Rightarrow>
               (case lstat w2 file of
                  None \<Rightarrow> w2
                | Some st \<Rightarrow>
                    if n_uid st \<noteq> geteuid w2 then w2
                    else fchmod file 0x1E4 (write_data file (cstr data) w2)))"

text \<open>\<^verbatim>\<open>fgets (buf, n, fp)\<close>: at most \<^verbatim>\<open>n - 1\<close> bytes, up to and including a newline.\<close>

definition fgets :: "nat \<Rightarrow> string \<Rightarrow> string \<times> string" where
  "fgets n s =
     (let line = takeWhile (\<lambda>c. c \<noteq> LF) s;
          full = (if length line < length s then line @ [LF] else line);
          buf = take (n - 1) full
      in (buf, drop (length buf) s))"

lemma fgets_progress: "1 < n \<Longrightarrow> s \<noteq> [] \<Longrightarrow> length (snd (fgets n s)) < length s"
  by (cases s) (auto simp: fgets_def Let_def min_def)

text \<open>The reading loop: the buffer is reallocated to the exact size for every line.\<close>

function stns_import_loop :: "string \<Rightarrow> nat \<Rightarrow> stns_response \<Rightarrow> stns_response" where
  "stns_import_loop s total_len res =
     (if s = [] then res
      else
        let (buf, rest) = fgets MAXBUF s; len = strnlen buf STNS_MAX_BUFFER_SIZE
        in stns_import_loop rest (total_len + len)
             (res\<lparr>res_capacity := total_len + len + 1,
                  res_data := take total_len (res_data res) @ take len buf\<rparr>))"
  by pat_completeness auto
termination
  by (relation "measure (\<lambda>(s, n, res). length s)")
    (auto simp: MAXBUF_def dest: fgets_progress [of 1024] arg_cong [of _ _ snd] intro!: fgets_progress [of 1024, THEN le_less_trans [rotated]] split: prod.splits)

declare stns_import_loop.simps [simp del]

definition stns_import_file :: "string \<Rightarrow> os \<Rightarrow> stns_response \<Rightarrow> stns_response option" where
  "stns_import_file file w res =
     (case fopen_read file w of None \<Rightarrow> None | Some s \<Rightarrow> Some (stns_import_loop s 0 res))"

section \<open>Expiry\<close>

text \<open>An \<^verbatim>\<open>int\<close> compared with an \<^verbatim>\<open>unsigned long\<close>: sign extension to 64 bits.\<close>

definition ulong :: "i32 \<Rightarrow> u64" where
  "ulong x = scast x"

definition cache_path :: "stns_conf \<Rightarrow> os \<Rightarrow> string" where
  "cache_path c w = snprintf_str MAXBUF (cstr (cache_dir c) @ ''/'' @ show_int (sint (geteuid w)))"

definition cache_expired :: "stns_conf \<Rightarrow> u64 \<Rightarrow> nat \<Rightarrow> bool" where
  "cache_expired c diff sz \<longleftrightarrow>
     (diff > ulong (cache_ttl c) \<and> sz > 0) \<or> (diff > ulong (negative_cache_ttl c) \<and> sz = 0)"

text \<open>The entries of a directory: the paths one level below it.\<close>

definition readdir :: "os \<Rightarrow> string \<Rightarrow> string list" where
  "readdir w dir =
     map fst (filter (\<lambda>(p, nd). take (length dir + 1) p = dir @ ''/'' \<and>
       CHR ''/'' \<notin> set (drop (length dir + 1) p) \<and> drop (length dir + 1) p \<noteq> []) (files w))"

definition delete_cache_entry :: "stns_conf \<Rightarrow> u64 \<Rightarrow> string \<Rightarrow> os \<Rightarrow> os" where
  "delete_cache_entry c now p w =
     (case stat w p of
        None \<Rightarrow> w
      | Some st \<Rightarrow>
          if (n_uid st = geteuid w \<or> geteuid w = 0) \<and> \<not> S_ISDIR st \<and>
             cache_expired c (now - n_mtime st) (length (n_data st))
          then unlink p w else w)"

definition delete_cache_files :: "stns_conf \<Rightarrow> os \<Rightarrow> os" where
  "delete_cache_files c w =
     (let dir = cache_path c w in
      case stat w dir of
        None \<Rightarrow> w
      | Some st \<Rightarrow>
          if \<not> S_ISDIR st \<or> refused w (files w) dir then w
          else fold (delete_cache_entry c (time_now w)) (readdir w dir) w)"

section \<open>The lock file\<close>

definition STNS_LOCK_FILE :: string where
  "STNS_LOCK_FILE = ''/var/tmp/.stns.lock''"

definition stns_request_available :: "string \<Rightarrow> stns_conf \<Rightarrow> os \<Rightarrow> bool \<times> os" where
  "stns_request_available path c w =
     (case stat w path of
        None \<Rightarrow> (True, w)
      | Some st \<Rightarrow>
          if time_now w - n_ctime st > ulong (request_locktime c) then (True, unlink path w)
          else (False, w))"

definition stns_make_lockfile :: "string \<Rightarrow> os \<Rightarrow> os" where
  "stns_make_lockfile path w =
     (case open_write path 0x1B6 w of None \<Rightarrow> w | Some w' \<Rightarrow> write_data path [] w')"

section \<open>Reading a file back\<close>

lemma take_drop_prefix: "take k f @ drop (length (take k f)) (f @ r) = f @ r"
  by (cases "k \<le> length f") (simp_all add: min_def flip: append_assoc)

lemma fgets_append: "fst (fgets n s) @ snd (fgets n s) = s"
proof -
  let ?line = "takeWhile (\<lambda>c. c \<noteq> LF) s"
  let ?full = "if length ?line < length s then ?line @ [LF] else ?line"
  have "\<exists>r. s = ?full @ r"
  proof (cases "length ?line < length s")
    case True
    then have "dropWhile (\<lambda>c. c \<noteq> LF) s \<noteq> []"
      using takeWhile_dropWhile_id [of "\<lambda>c. c \<noteq> LF" s] by (metis append_Nil2 less_irrefl)
    then obtain r where "dropWhile (\<lambda>c. c \<noteq> LF) s = LF # r"
      using hd_dropWhile [of "\<lambda>c. c \<noteq> LF" s] by (cases "dropWhile (\<lambda>c. c \<noteq> LF) s") auto
    then have "s = ?line @ LF # r"
      by (metis takeWhile_dropWhile_id)
    with True show ?thesis
      by (intro exI [of _ r]) simp
  next
    case False
    then show ?thesis
      by (intro exI [of _ "dropWhile (\<lambda>c. c \<noteq> LF) s"]) simp
  qed
  then obtain r where "s = ?full @ r" ..
  from take_drop_prefix [of "n - 1" ?full r] this show ?thesis
    unfolding fgets_def Let_def fst_conv snd_conv by simp
qed

lemma import_loop_data:
  assumes "no_nul s" "tot \<le> length (res_data res)"
  shows "res_data (stns_import_loop s tot res) = (if s = [] then res_data res else take tot (res_data res) @ s) \<and>
    res_size (stns_import_loop s tot res) = res_size res \<and>
    res_status_code (stns_import_loop s tot res) = res_status_code res"
  using assms
proof (induction s tot res rule: stns_import_loop.induct)
  case (1 s tot res)
  show ?case
  proof (cases "s = []")
    case True
    then show ?thesis by (simp add: stns_import_loop.simps)
  next
    case False
    obtain buf rest where f: "fgets MAXBUF s = (buf, rest)" by (cases "fgets MAXBUF s")
    have s: "s = buf @ rest" using fgets_append [of MAXBUF s] f by simp
    have buf: "length buf \<le> 1023"
      using f by (auto simp: fgets_def Let_def MAXBUF_def)
    then have len: "strnlen buf STNS_MAX_BUFFER_SIZE = length buf"
      using "1.prems"(1) s by (simp add: strnlen_def STNS_MAX_BUFFER_SIZE_def)
    let ?res = "res\<lparr>res_capacity := tot + length buf + 1, res_data := take tot (res_data res) @ buf\<rparr>"
    have step: "stns_import_loop s tot res = stns_import_loop rest (tot + length buf) ?res"
      using False by (subst stns_import_loop.simps) (simp add: f len Let_def)
    have "res_data (stns_import_loop rest (tot + length buf) ?res) =
        (if rest = [] then res_data ?res else take (tot + length buf) (res_data ?res) @ rest) \<and>
      res_size (stns_import_loop rest (tot + length buf) ?res) = res_size ?res \<and>
      res_status_code (stns_import_loop rest (tot + length buf) ?res) = res_status_code ?res"
      using "1.IH" [OF False f [symmetric] refl, of "length buf"] "1.prems" s len by simp
    then show ?thesis
      unfolding step using False s "1.prems"(2) by (simp add: min_def)
  qed
qed

lemma import_file_data:
  assumes "fopen_read file w = Some s" "no_nul s" "s \<noteq> []"
  shows "\<exists>res'. stns_import_file file w res = Some res' \<and> res_data res' = s \<and>
    res_status_code res' = res_status_code res"
  using import_loop_data [of s 0 res] assms by (simp add: stns_import_file_def)

section \<open>What an export changes\<close>

lemma lstat_put_node: "lstat (put_node p nd w) q = (if q = p then Some nd else lstat w q)"
  by (simp add: lstat_def put_node_def update_conv')

lemma put_node_sel [simp]: "refused (put_node p nd w) = refused w" "geteuid (put_node p nd w) = geteuid w"
  "time_now (put_node p nd w) = time_now w" "umask (put_node p nd w) = umask w"
  by (simp_all add: put_node_def)

lemma lstat_mkdir: "lstat (mkdir p m w) q =
    (if q = p \<and> lstat w p = None \<and> \<not> refused w (files w) p then Some (new_node w Directory m) else lstat w q)"
  by (auto simp: mkdir_def lstat_put_node)

lemma mkdir_sel [simp]: "refused (mkdir p m w) = refused w" "geteuid (mkdir p m w) = geteuid w"
  "time_now (mkdir p m w) = time_now w"
  by (simp_all add: mkdir_def)

lemma lstat_write_data: "lstat (write_data p d w) q =
   (if q = p then map_option (\<lambda>nd. nd\<lparr>n_data := d, n_mtime := time_now w, n_ctime := time_now w\<rparr>) (lstat w p) else lstat w q)"
  by (auto simp: write_data_def lstat_put_node split: option.splits)

lemma lstat_fchmod: "lstat (fchmod p m w) q =
   (if q = p then map_option (\<lambda>nd. nd\<lparr>n_mode := m, n_ctime := time_now w\<rparr>) (lstat w p) else lstat w q)"
  by (auto simp: fchmod_def lstat_put_node split: option.splits)

lemma write_chmod_sel [simp]: "refused (write_data p d w) = refused w" "geteuid (write_data p d w) = geteuid w"
  "time_now (write_data p d w) = time_now w"
  "refused (fchmod p m w) = refused w" "geteuid (fchmod p m w) = geteuid w" "time_now (fchmod p m w) = time_now w"
  by (auto simp: write_data_def fchmod_def split: option.splits)

lemma open_writeD:
  assumes "open_write p m w = Some w'"
  shows "\<exists>nd. lstat w' p = Some nd \<and> n_kind nd = Regular \<and> (lstat w p = Some nd \<or> lstat w p = None \<and> n_uid nd = geteuid w)"
    and "q \<noteq> p \<Longrightarrow> lstat w' q = lstat w q"
    and "refused w' = refused w" "geteuid w' = geteuid w" "time_now w' = time_now w"
  using assms by (auto simp: open_write_def lstat_put_node new_node_def split: if_splits option.splits node_kind.splits)

lemma stat_lstat: "lstat w p = Some nd \<Longrightarrow> (\<forall>t. n_kind nd \<noteq> Symlink t) \<Longrightarrow> stat w p = Some nd"
  by (auto simp: stat_def lstat_def eval_nat_numeral split: node_kind.splits)

lemma stat_None_lstat: "lstat w p = None \<Longrightarrow> stat w p = None"
  by (auto simp: stat_def lstat_def eval_nat_numeral)

definition own_file :: "os \<Rightarrow> string \<Rightarrow> bool" where
  "own_file w p \<longleftrightarrow> (case lstat w p of None \<Rightarrow> True | Some nd \<Rightarrow> n_kind nd = Regular \<and> n_uid nd = geteuid w)"

lemma export_frame:
  assumes "p \<noteq> dir" "p \<noteq> file"
  shows "lstat (stns_export_file dir file data w) p = lstat w p"
  using assms
  by (auto simp: stns_export_file_def Let_def lstat_mkdir lstat_fchmod lstat_write_data open_writeD(2)
      split: option.splits)

lemma export_sel [simp]: "geteuid (stns_export_file dir file data w) = geteuid w"
  "time_now (stns_export_file dir file data w) = time_now w" "refused (stns_export_file dir file data w) = refused w"
  by (auto simp: stns_export_file_def Let_def dest: open_writeD(3-5) split: option.splits)

text \<open>What an export may do to the file itself.\<close>

lemma export_file_node:
  assumes "dir \<noteq> file"
  shows "lstat (stns_export_file dir file data w) file = lstat w file \<or>
     own_file w file \<and>
     (\<exists>nd. lstat (stns_export_file dir file data w) file = Some nd \<and> n_kind nd = Regular \<and>
        n_uid nd = geteuid w \<and> n_data nd = cstr data \<and> n_mode nd = 0x1E4 \<and> n_mtime nd = time_now w)"
proof -
  define w1 where "w1 = (if stat w dir = None then mkdir dir 0x1C0 w else w)"
  have w1: "lstat w1 file = lstat w file" "geteuid w1 = geteuid w" "time_now w1 = time_now w"
    using assms by (auto simp: w1_def lstat_mkdir)
  show ?thesis
  proof (cases "stns_cache_dir_is_safe w1 dir \<and> open_write file 0x1E4 w1 \<noteq> None")
    case False
    then show ?thesis
      using w1 unfolding stns_export_file_def w1_def [symmetric] Let_def by (auto split: option.splits)
  next
    case True
    then obtain w2 where w2: "open_write file 0x1E4 w1 = Some w2" by blast
    from open_writeD(1) [OF w2] obtain nd where nd: "lstat w2 file = Some nd" "n_kind nd = Regular"
      "lstat w file = Some nd \<or> lstat w file = None \<and> n_uid nd = geteuid w"
      using w1 by auto
    have "stns_export_file dir file data w =
       (if n_uid nd \<noteq> geteuid w2 then w2 else fchmod file 0x1E4 (write_data file (cstr data) w2))"
      unfolding stns_export_file_def w1_def [symmetric] Let_def using True w2 nd(1) by simp
    then show ?thesis
      using nd w1 open_writeD(4,5) [OF w2]
      by (auto simp: lstat_fchmod lstat_write_data own_file_def)
  qed
qed

section \<open>The cache as a store\<close>

text \<open>The path is usable for caching: the directory is safe already, or can be created; nothing refuses the
  calls on the two paths; the file is absent or a regular file of the caller.\<close>

definition cache_usable :: "string \<Rightarrow> string \<Rightarrow> os \<Rightarrow> bool" where
  "cache_usable dir file w \<longleftrightarrow> dir \<noteq> file \<and> (\<forall>fs. \<not> refused w fs dir \<and> \<not> refused w fs file) \<and> own_file w file \<and>
     (lstat w dir = None \<or> stns_cache_dir_is_safe w dir)"

lemma export_stores:
  assumes "cache_usable dir file w"
  shows "\<exists>nd. lstat (stns_export_file dir file data w) file = Some nd \<and> n_kind nd = Regular \<and> n_uid nd = geteuid w \<and>
      n_data nd = cstr data \<and> n_mtime nd = time_now w" (is ?A)
    and "stns_cache_dir_is_safe (stns_export_file dir file data w) dir" (is ?B)
proof -
  define w1 where "w1 = (if stat w dir = None then mkdir dir 0x1C0 w else w)"
  have w1: "lstat w1 file = lstat w file" "geteuid w1 = geteuid w" "time_now w1 = time_now w" "refused w1 = refused w"
    using assms by (auto simp: w1_def lstat_mkdir cache_usable_def)
  have safe: "stns_cache_dir_is_safe w1 dir"
  proof (cases "lstat w dir = None")
    case True
    then have "stat w dir = None"
      by (rule stat_None_lstat)
    then have "lstat w1 dir = Some (new_node w Directory 0x1C0)"
      using True assms by (simp add: w1_def lstat_mkdir cache_usable_def)
    then show ?thesis
      by (simp add: stns_cache_dir_is_safe_def S_ISDIR_def new_node_def w1(2))
  next
    case False
    then have "stns_cache_dir_is_safe w dir"
      using assms by (auto simp: cache_usable_def)
    moreover from this obtain nd where "lstat w dir = Some nd" "n_kind nd = Directory"
      by (auto simp: stns_cache_dir_is_safe_def S_ISDIR_def split: option.splits)
    then have "stat w dir \<noteq> None"
      using stat_lstat by fastforce
    ultimately show ?thesis
      by (auto simp: w1_def)
  qed
  obtain w2 where w2: "open_write file 0x1E4 w1 = Some w2"
    using assms w1 by (auto simp: cache_usable_def own_file_def open_write_def split: option.splits node_kind.splits)
  from open_writeD(1) [OF w2] obtain nd where nd: "lstat w2 file = Some nd" "n_kind nd = Regular" "n_uid nd = geteuid w"
    using assms w1 by (auto simp: cache_usable_def own_file_def)
  have ex: "stns_export_file dir file data w = fchmod file 0x1E4 (write_data file (cstr data) w2)"
    unfolding stns_export_file_def w1_def [symmetric] Let_def
    using safe w2 nd w1 open_writeD(4) [OF w2] by simp
  show ?A
    unfolding ex using nd w1 open_writeD(5) [OF w2] by (simp add: lstat_fchmod lstat_write_data)
  have "lstat (stns_export_file dir file data w) dir = lstat w1 dir"
    unfolding ex using assms open_writeD(2) [OF w2, of dir]
    by (simp add: lstat_fchmod lstat_write_data cache_usable_def)
  then show ?B
    using safe w1 by (auto simp: stns_cache_dir_is_safe_def split: option.splits)
qed

lemma fopen_own_file:
  assumes "lstat w file = Some nd" "n_kind nd = Regular" "\<not> refused w (files w) file"
  shows "fopen_read file w = Some (n_data nd)"
  using assms stat_lstat [of w "file" nd] by (simp add: fopen_read_def S_ISDIR_def)

lemma import_export:
  assumes "cache_usable dir file w" "cstr data \<noteq> []"
  shows "\<exists>res'. stns_import_file file (stns_export_file dir file data w) res = Some res' \<and>
    res_data res' = cstr data \<and> res_status_code res' = res_status_code res"
proof -
  let ?w = "stns_export_file dir file data w"
  obtain nd where nd: "lstat ?w file = Some nd" "n_kind nd = Regular" "n_data nd = cstr data"
    using export_stores(1) [OF assms(1), of data] by blast
  have "fopen_read file ?w = Some (cstr data)"
    using fopen_own_file [OF nd(1,2)] nd(3) assms(1) by (auto simp: cache_usable_def)
  then show ?thesis
    using assms(2) by (intro import_file_data) auto
qed

section \<open>Expiry removes only what has expired\<close>

lemma lstat_unlink: "lstat (unlink p w) q = (if q = p \<and> \<not> refused w (files w) p then None else lstat w q)"
  by (auto simp: unlink_def lstat_def delete_conv')

lemma unlink_sel [simp]: "geteuid (unlink p w) = geteuid w" "time_now (unlink p w) = time_now w"
  by (simp_all add: unlink_def)

lemma delete_entry_frame:
  "lstat (delete_cache_entry c t p w) q = lstat w q \<or>
   q = p \<and> lstat (delete_cache_entry c t p w) q = None \<and>
   (\<exists>st. stat w q = Some st \<and> \<not> S_ISDIR st \<and> (n_uid st = geteuid w \<or> geteuid w = 0) \<and>
      cache_expired c (t - n_mtime st) (length (n_data st)))"
  by (auto simp: delete_cache_entry_def lstat_unlink split: option.splits)

lemma delete_entry_euid [simp]: "geteuid (delete_cache_entry c t p w) = geteuid w"
  by (auto simp: delete_cache_entry_def split: option.splits)

lemma delete_fold_frame:
  assumes "lstat w q = Some nd" "n_kind nd = Regular"
  shows "lstat (fold (delete_cache_entry c t) ps w) q = Some nd \<or>
    q \<in> set ps \<and> lstat (fold (delete_cache_entry c t) ps w) q = None \<and>
      (n_uid nd = geteuid w \<or> geteuid w = 0) \<and> cache_expired c (t - n_mtime nd) (length (n_data nd))"
  using assms
proof (induction ps arbitrary: w)
  case (Cons p ps)
  let ?w = "delete_cache_entry c t p w"
  have gone: "lstat (fold (delete_cache_entry c t) xs v) q = None" if "lstat v q = None" for xs v
    using that delete_entry_frame [of c t _ _ q] by (induction xs arbitrary: v) (simp, metis fold_simps(2))
  have st: "stat w q = Some nd"
    using stat_lstat [OF Cons.prems(1)] Cons.prems(2) by simp
  from delete_entry_frame [of c t p w q] show ?case
  proof
    assume "lstat ?w q = lstat w q"
    with Cons.IH [of ?w] Cons.prems show ?thesis by auto
  next
    assume "q = p \<and> lstat ?w q = None \<and> (\<exists>st. stat w q = Some st \<and> \<not> S_ISDIR st \<and>
      (n_uid st = geteuid w \<or> geteuid w = 0) \<and> cache_expired c (t - n_mtime st) (length (n_data st)))"
    with st gone [of ?w ps] show ?thesis by auto
  qed
qed simp

section \<open>Properties of the cache\<close>

text \<open>C33. Writing the cache is safe. Whatever the files are, exporting touches no path but the cache directory and
  the cache file; a file that is a symbolic link, a directory or belongs to someone else is left
  exactly as it is, and a file that is written ends up as a regular file of the caller that holds the
  data and is writable by nobody else.\<close>

theorem stns_export_file_safe:
  assumes "dir \<noteq> file"
  shows "(\<forall>p. p \<noteq> dir \<longrightarrow> p \<noteq> file \<longrightarrow> lstat (stns_export_file dir file data w) p = lstat w p) \<and>
    (lstat (stns_export_file dir file data w) file = lstat w file \<or>
     (case lstat w file of None \<Rightarrow> True | Some nd \<Rightarrow> n_kind nd = Regular \<and> n_uid nd = geteuid w) \<and>
     (\<exists>nd. lstat (stns_export_file dir file data w) file = Some nd \<and> n_kind nd = Regular \<and>
        n_uid nd = geteuid w \<and> n_data nd = cstr data \<and> n_mode nd AND 0x12 = 0))"
  using export_frame export_file_node [OF assms, of data w] by (auto simp: own_file_def)

text \<open>C34. The cache is a store: on a usable cache path, importing the file after an export gives back exactly the
  exported C string, whatever the response buffer held before.\<close>

theorem stns_export_import_roundtrip:
  assumes "cache_usable dir file w" and "cstr data \<noteq> []"
  shows "\<exists>res'. stns_import_file file (stns_export_file dir file data w) res = Some res' \<and> res_data res' = cstr data"
  using import_export [OF assms, of res] by blast

definition sample_os :: os where
  "sample_os = \<lparr>files = [(''/c/0'', \<lparr>n_kind = Directory, n_uid = 0, n_mode = 0x1C0, n_data = [], n_mtime = 5, n_ctime = 5\<rparr>)],
     refused = (\<lambda>fs p. False), geteuid = 0, time_now = 100, umask = 0x12\<rparr>"

lemma sample_os_usable: "cache_usable ''/c/0'' ''/c/0/users'' sample_os"
  by (simp add: cache_usable_def sample_os_def own_file_def lstat_def stns_cache_dir_is_safe_def S_ISDIR_def)

theorem stns_export_file_safe_witness:
  "lstat (stns_export_file ''/c/0'' ''/c/0/users'' ''[]'' sample_os) ''/etc/passwd'' = lstat sample_os ''/etc/passwd''"
  using stns_export_file_safe [of "''/c/0''" "''/c/0/users''" "''[]''" sample_os] by simp

theorem stns_export_import_roundtrip_witness:
  "\<exists>res'. stns_import_file ''/c/0/users''
       (stns_export_file ''/c/0'' ''/c/0/users'' (''[1]'' @ [LF] @ ''x'') sample_os)
       \<lparr>res_data = ''junk'', res_capacity = 16384, res_size = 0, res_status_code = 200\<rparr> = Some res' \<and>
     res_data res' = ''[1]'' @ [LF] @ ''x''"
  using stns_export_import_roundtrip [OF sample_os_usable, of "''[1]'' @ [LF] @ ''x''"] by simp

lemma delete_fold_hit:
  assumes "lstat w q = Some nd" "n_kind nd = Regular" "q \<in> set ps" "\<forall>fs. \<not> refused w fs q"
    and "n_uid nd = geteuid w \<or> geteuid w = 0" "cache_expired c (t - n_mtime nd) (length (n_data nd))"
  shows "lstat (fold (delete_cache_entry c t) ps w) q = None"
  using assms
proof (induction ps arbitrary: w)
  case (Cons p ps)
  let ?w = "delete_cache_entry c t p w"
  have gone: "lstat (fold (delete_cache_entry c t) xs v) q = None" if "lstat v q = None" for xs v
    using that delete_entry_frame [of c t _ _ q] by (induction xs arbitrary: v) (simp, metis fold_simps(2))
  have st: "stat w q = Some nd"
    using stat_lstat [OF Cons.prems(1)] Cons.prems(2) by simp
  have ref: "refused ?w = refused w"
    by (auto simp: delete_cache_entry_def unlink_def split: option.splits)
  show ?case
  proof (cases "p = q")
    case True
    have "lstat ?w q = None"
      using st Cons.prems True by (simp add: delete_cache_entry_def S_ISDIR_def lstat_unlink)
    then show ?thesis
      using gone [of ?w ps] by simp
  next
    case False
    then have "lstat ?w q = lstat w q"
      using delete_entry_frame [of c t p w q] by auto
    with Cons.IH [of ?w] Cons.prems False ref show ?thesis
      by simp
  qed
qed simp

text \<open>C35. Cleaning the cache removes exactly the expired entries: a regular file that the caller may judge (it is the
  caller's own, or the caller is root) is gone afterwards if and only if it lies directly in the
  caller's cache directory and its age exceeds the limit for its kind (empty files are negative
  entries); every other regular file is untouched.\<close>

theorem delete_cache_files_expired:
  assumes "lstat w q = Some nd" and "n_kind nd = Regular"
    and "stat w (cache_path c w) = Some dnd" and "n_kind dnd = Directory"
    and "\<forall>fs. \<not> refused w fs q \<and> \<not> refused w fs (cache_path c w)"
  shows "lstat (delete_cache_files c w) q =
    (if q \<in> set (readdir w (cache_path c w)) \<and> (n_uid nd = geteuid w \<or> geteuid w = 0) \<and>
        cache_expired c (time_now w - n_mtime nd) (length (n_data nd))
     then None else Some nd)"
proof -
  have eq: "delete_cache_files c w = fold (delete_cache_entry c (time_now w)) (readdir w (cache_path c w)) w"
    using assms(3-5) by (simp add: delete_cache_files_def S_ISDIR_def)
  show ?thesis
    unfolding eq
    using delete_fold_frame [OF assms(1,2), of c "time_now w" "readdir w (cache_path c w)"]
      delete_fold_hit [OF assms(1,2), of "readdir w (cache_path c w)" c "time_now w"] assms(5) by auto
qed

text \<open>C36. The lock file suspends requests: once it has been made, a request is held back until more than
  \<^verbatim>\<open>request_locktime\<close> seconds have passed; then requests are allowed again and the lock is removed.\<close>

theorem stns_lockfile_suspends:
  assumes "case lstat w path of None \<Rightarrow> True | Some nd \<Rightarrow> n_kind nd = Regular" and "\<forall>fs. \<not> refused w fs path"
  shows "let w' = (stns_make_lockfile path w)\<lparr>time_now := t\<rparr> in
    (fst (stns_request_available path c w') \<longleftrightarrow> t - time_now w > ulong (request_locktime c)) \<and>
    (lstat (snd (stns_request_available path c w')) path = None \<longleftrightarrow> t - time_now w > ulong (request_locktime c))"
proof -
  obtain w1 where w1: "open_write path 0x1B6 w = Some w1"
    using assms by (auto simp: open_write_def split: option.splits node_kind.splits)
  from open_writeD [OF w1] obtain nd where nd: "lstat w1 path = Some nd" "n_kind nd = Regular"
    and sel: "time_now w1 = time_now w" "refused w1 = refused w" by auto
  define w' where "w' = (stns_make_lockfile path w)\<lparr>time_now := t\<rparr>"
  define nd' where "nd' = nd\<lparr>n_data := [], n_mtime := time_now w, n_ctime := time_now w\<rparr>"
  have l: "lstat w' path = Some nd'"
    using nd sel lstat_write_data [of path "[]" w1 path]
    by (simp add: w'_def nd'_def stns_make_lockfile_def w1 lstat_def)
  then have "stat w' path = Some nd'"
    using nd(2) by (intro stat_lstat) (simp_all add: nd'_def)
  then have "stns_request_available path c w' =
      (if t - time_now w > ulong (request_locktime c) then (True, unlink path w') else (False, w'))"
    by (simp add: stns_request_available_def w'_def nd'_def)
  moreover have "lstat (unlink path w') path = None"
    using assms(2) sel by (simp add: lstat_unlink w'_def stns_make_lockfile_def w1)
  ultimately show ?thesis
    unfolding w'_def [symmetric] Let_def using l by simp
qed

definition expired_os :: os where
  "expired_os = sample_os\<lparr>files :=
     [(''/c/0'', \<lparr>n_kind = Directory, n_uid = 0, n_mode = 0x1C0, n_data = [], n_mtime = 5, n_ctime = 5\<rparr>),
      (''/c/0/users'', \<lparr>n_kind = Regular, n_uid = 0, n_mode = 0x1E4, n_data = ''[]'', n_mtime = 5, n_ctime = 5\<rparr>)]\<rparr>"

theorem delete_cache_files_expired_witness:
  "lstat (delete_cache_files (default_conf\<lparr>cache_dir := ''/c'', cache_ttl := 60\<rparr>) expired_os) ''/c/0/users'' = None"
proof -
  let ?c = "default_conf\<lparr>cache_dir := ''/c'', cache_ttl := 60\<rparr>"
  let ?nd = "\<lparr>n_kind = Regular, n_uid = 0, n_mode = 0x1E4, n_data = ''[]'', n_mtime = 5, n_ctime = 5\<rparr>"
  let ?dnd = "\<lparr>n_kind = Directory, n_uid = 0, n_mode = 0x1C0, n_data = [], n_mtime = 5, n_ctime = 5\<rparr>"
  have path: "cache_path ?c expired_os = ''/c/0''"
    by code_simp
  have l: "lstat expired_os ''/c/0/users'' = Some ?nd" "lstat expired_os ''/c/0'' = Some ?dnd"
    by (simp_all add: lstat_def expired_os_def)
  have "lstat (delete_cache_files ?c expired_os) ''/c/0/users'' =
     (if ''/c/0/users'' \<in> set (readdir expired_os (cache_path ?c expired_os)) \<and>
         (n_uid ?nd = geteuid expired_os \<or> geteuid expired_os = 0) \<and>
         cache_expired ?c (time_now expired_os - n_mtime ?nd) (length (n_data ?nd)) then None else Some ?nd)"
    using l stat_lstat [OF l(2)]
    by (intro delete_cache_files_expired [where dnd = ?dnd]) (simp_all add: path, simp_all add: expired_os_def sample_os_def)
  then show ?thesis
    by (simp add: path)
      (simp add: readdir_def expired_os_def sample_os_def cache_expired_def ulong_def)
qed

theorem stns_lockfile_suspends_witness:
  "\<not> fst (stns_request_available STNS_LOCK_FILE default_conf
      ((stns_make_lockfile STNS_LOCK_FILE sample_os)\<lparr>time_now := 130\<rparr>))"
  using stns_lockfile_suspends [of sample_os STNS_LOCK_FILE 130 default_conf]
  by (simp add: sample_os_def lstat_def STNS_LOCK_FILE_def default_conf_def ulong_def Let_def)
end
