(* ===== verification/Stns_Request.thy ===== *)
theory Stns_Request
  imports Stns_Cache
begin

text \<open>
  Requests to the STNS server (\<^verbatim>\<open>inner_http_request\<close>, \<^verbatim>\<open>stns_exec_cmd\<close>, \<^verbatim>\<open>stns_request\<close> of \<^verbatim>\<open>stns.c\<close>): building the
  transfer, the callbacks that libcurl runs, the retries, the query wrapper, the lock file and the
  response cache.

  libcurl and the shell are not part of the sources: they are the functions of the record
  \<open>services\<close>. \<open>curl_perform n rq\<close> is what the \<open>n\<close>-th transfer of the process does for the request \<open>rq\<close>: the
  header lines and body segments it hands to the callbacks, the response code and the result. As
  libcurl documents, a write callback that does not take the whole segment ends the transfer with
  \<^verbatim>\<open>CURLE_WRITE_ERROR\<close>. \<open>popen_output\<close> is what a command writes (\<open>None\<close> when it cannot be started).
\<close>

section \<open>Services and state\<close>

definition CURLE_OK :: int where "CURLE_OK = 0"
definition CURLE_COULDNT_CONNECT :: int where "CURLE_COULDNT_CONNECT = 7"
definition CURLE_HTTP_RETURNED_ERROR :: int where "CURLE_HTTP_RETURNED_ERROR = 22"
definition CURLE_WRITE_ERROR :: int where "CURLE_WRITE_ERROR = 23"

lemmas curle_defs = CURLE_OK_def CURLE_COULDNT_CONNECT_def CURLE_HTTP_RETURNED_ERROR_def CURLE_WRITE_ERROR_def

record curl_request =
  rq_url :: string
  rq_headers :: "string list"
  rq_verify :: "int option"
  rq_follow :: bool
  rq_client_cert :: "(string \<times> string) option"
  rq_cainfo :: "string option"
  rq_username :: "string option"
  rq_password :: "string option"
  rq_unix_socket :: "string option"
  rq_proxy :: string
  rq_timeout :: int

record curl_outcome =
  co_headers :: "string list"
  co_segments :: "string list"
  co_code :: int
  co_result :: int

record services =
  curl_perform :: "nat \<Rightarrow> curl_request \<Rightarrow> curl_outcome"
  curl_escape :: "string \<Rightarrow> string"
  popen_output :: "string \<Rightarrow> string option"
  id_mutex_busy :: "nat \<Rightarrow> bool"

record client =
  sys :: os
  bounds :: id_bounds
  transfers :: nat

section \<open>One transfer\<close>

definition auth_header :: "stns_conf \<Rightarrow> string list" where
  "auth_header c =
     (case auth_token c of
        None \<Rightarrow> []
      | Some tok \<Rightarrow>
          [snprintf_str (strnlen tok STNS_MAX_BUFFER_SIZE + 22) (''Authorization: token '' @ cstr tok)])"

definition user_headers :: "stns_conf \<Rightarrow> string list" where
  "user_headers c =
     (case http_headers c of
        None \<Rightarrow> []
      | Some hs \<Rightarrow>
          map (\<lambda>h. snprintf_str
                 (strnlen (hdr_key h) STNS_MAX_BUFFER_SIZE + strnlen (hdr_value h) STNS_MAX_BUFFER_SIZE + 3)
                 (cstr (hdr_key h) @ '': '' @ cstr (hdr_value h))) hs)"

definition make_url :: "string \<Rightarrow> string \<Rightarrow> string" where
  "make_url base path =
     snprintf_str (strnlen base STNS_MAX_BUFFER_SIZE + strnlen path STNS_MAX_BUFFER_SIZE + 2)
       (cstr base @ ''/'' @ cstr path)"

definition curl_options :: "stns_conf \<Rightarrow> string \<Rightarrow> curl_request" where
  "curl_options c path =
     (if \<not> cached_enable c then
        \<lparr>rq_url = make_url (api_endpoint c) path,
         rq_headers = auth_header c @ user_headers c,
         rq_verify = Some (ssl_verify c),
         rq_follow = (http_location c = 1),
         rq_client_cert = (case (tls_cert c, tls_key c) of (Some x, Some y) \<Rightarrow> Some (x, y) | _ \<Rightarrow> None),
         rq_cainfo = tls_ca c,
         rq_username = user c,
         rq_password = password c,
         rq_unix_socket = None,
         rq_proxy = (case http_proxy c of Some p \<Rightarrow> p | None \<Rightarrow> []),
         rq_timeout = request_timeout c\<rparr>
      else
        \<lparr>rq_url = make_url ''http://unix'' path,
         rq_headers = [],
         rq_verify = None,
         rq_follow = False,
         rq_client_cert = None,
         rq_cainfo = None,
         rq_username = None,
         rq_password = None,
         rq_unix_socket = Some (cached_unix_socket c),
         rq_proxy = [],
         rq_timeout = request_timeout c\<rparr>)"

fun run_headers :: "(nat \<Rightarrow> bool) \<Rightarrow> stns_conf \<Rightarrow> string list \<Rightarrow> id_bounds \<Rightarrow> id_bounds outcome" where
  "run_headers busy c [] st = Ret st"
| "run_headers busy c (h # hs) st =
     (case header_callback busy c h st of Segv \<Rightarrow> Segv | Ret st' \<Rightarrow> run_headers busy c hs st')"

text \<open>Body segments until one is refused; the flag says that none was.\<close>

fun run_segments :: "string list \<Rightarrow> stns_response \<Rightarrow> stns_response \<times> bool" where
  "run_segments [] res = (res, True)"
| "run_segments (b # bs) res =
     (case response_callback b res of
        (res', n) \<Rightarrow> if n = length b then run_segments bs res' else (res', False))"

definition inner_http_request ::
  "services \<Rightarrow> stns_conf \<Rightarrow> string \<Rightarrow> stns_response \<Rightarrow> client \<Rightarrow> (int \<times> stns_response \<times> client) outcome" where
  "inner_http_request sv c path res st =
     (let out = curl_perform sv (transfers st) (curl_options c path) in
      case run_headers (id_mutex_busy sv) c (co_headers out) (bounds st) of
        Segv \<Rightarrow> Segv
      | Ret bs \<Rightarrow>
          let (res1, taken) = run_segments (co_segments out) res;
              result = (if taken then co_result out else CURLE_WRITE_ERROR);
              code = co_code out;
              st' = st\<lparr>bounds := bs, transfers := Suc (transfers st)\<rparr>
          in if code \<ge> 400 \<or> code = 0 then
               Ret (if code \<noteq> 0 then CURLE_HTTP_RETURNED_ERROR else result,
                    res1\<lparr>res_size := 0, res_status_code := code\<rparr>, st')
             else Ret (result, res1, st'))"

section \<open>The query wrapper\<close>

text \<open>The length read so far is a natural number where the code has an \<^verbatim>\<open>int\<close>: an output of 2 GiB and more is outside of the model.\<close>

function stns_exec_loop :: "string \<Rightarrow> nat \<Rightarrow> stns_response \<Rightarrow> stns_response \<times> nat" where
  "stns_exec_loop s total_len res =
     (if s = [] then (res, total_len)
      else
        let (buf, rest) = fgets MAXBUF s; len = strnlen buf STNS_MAX_BUFFER_SIZE;
            cap = (if total_len + len + 1 > STNS_DEFAULT_BUFFER_SIZE then total_len + len + 1 else res_capacity res)
        in stns_exec_loop rest (total_len + len)
             (res\<lparr>res_capacity := cap, res_data := take total_len (res_data res) @ take len buf\<rparr>))"
  by pat_completeness auto
termination
  by (relation "measure (\<lambda>(s, n, res). length s)")
    (auto simp: MAXBUF_def intro!: fgets_progress [of 1024, THEN le_less_trans [rotated]] dest: arg_cong [of _ _ snd] split: prod.splits)

declare stns_exec_loop.simps [simp del]

definition stns_exec_cmd :: "services \<Rightarrow> string \<Rightarrow> string option \<Rightarrow> stns_response \<Rightarrow> int \<times> stns_response" where
  "stns_exec_cmd sv cmd arg r =
     (let r0 = r\<lparr>res_size := 0, res_status_code := 200\<rparr> in
      if \<not> match_wrapper_arg arg then (1, r0)
      else
        let command = (case arg of
              Some a \<Rightarrow> snprintf_str (strnlen cmd STNS_MAX_BUFFER_SIZE + strnlen a STNS_MAX_BUFFER_SIZE + 2)
                         (cstr cmd @ '' '' @ cstr a)
            | None \<Rightarrow> cmd)
        in case popen_output sv command of
             None \<Rightarrow> (1, r0)
           | Some out \<Rightarrow>
               (case stns_exec_loop out 0 r0 of
                  (r1, total_len) \<Rightarrow> if total_len = 0 then (1, r1) else (0, r1\<lparr>res_size := total_len\<rparr>)))"

section \<open>A request\<close>

definition cache_fresh :: "stns_conf \<Rightarrow> u64 \<Rightarrow> nat \<Rightarrow> bool" where
  "cache_fresh c diff sz \<longleftrightarrow>
     (diff < ulong (cache_ttl c) \<and> sz > 0) \<or> (diff < ulong (negative_cache_ttl c) \<and> sz = 0)"

definition cache_file :: "services \<Rightarrow> stns_conf \<Rightarrow> string \<Rightarrow> os \<Rightarrow> string" where
  "cache_file sv c path w =
     snprintf_str (MAXBUF * 2 + 2)
       (cache_path c w @ ''/'' @ cstr (curl_escape sv (take (strnlen path STNS_MAX_BUFFER_SIZE) path)))"

text \<open>The cache lookup of \<^verbatim>\<open>stns_request\<close>: \<open>Inl\<close> is a return, \<open>Inr\<close> falls through to the label \<^verbatim>\<open>request\<close>.\<close>

definition cache_lookup ::
  "services \<Rightarrow> stns_conf \<Rightarrow> string \<Rightarrow> stns_response \<Rightarrow> os \<Rightarrow> (int \<times> stns_response) + os" where
  "cache_lookup sv c path res w =
     (let dpath = cache_path c w; fpath = cache_file sv c path w in
      if cache c \<and> \<not> cached_enable c \<and> stns_cache_dir_is_safe w dpath then
        (case stat w fpath of
           None \<Rightarrow> Inr w
         | Some st \<Rightarrow>
             if n_uid st = geteuid w then
               let sz = length (n_data st) in
               if cache_fresh c (time_now w - n_mtime st) sz then
                 if sz = 0 then Inl (CURLE_HTTP_RETURNED_ERROR, res\<lparr>res_status_code := STNS_HTTP_NOTFOUND\<rparr>)
                 else (case stns_import_file fpath w res of
                         None \<Rightarrow> Inr w
                       | Some res' \<Rightarrow>
                           Inl (CURLE_OK, res'\<lparr>res_size := strnlen (res_data res') STNS_MAX_BUFFER_SIZE\<rparr>))
               else Inr (delete_cache_files c w)
             else Inr w)
      else Inr w)"

text \<open>The retry loop; \<^verbatim>\<open>sleep (1)\<close> lets a second pass.\<close>

fun retry_loop ::
  "services \<Rightarrow> stns_conf \<Rightarrow> string \<Rightarrow> nat \<Rightarrow> int \<Rightarrow> stns_response \<Rightarrow> client \<Rightarrow> (int \<times> stns_response \<times> client) outcome" where
  "retry_loop sv c path 0 result res st = Ret (result, res, st)"
| "retry_loop sv c path (Suc n) result res st =
     (if result \<noteq> CURLE_OK then
        if result = CURLE_HTTP_RETURNED_ERROR then Ret (result, res, st)
        else
          (case inner_http_request sv c path res
                  (st\<lparr>sys := (sys st)\<lparr>time_now := time_now (sys st) + 1\<rparr>\<rparr>) of
             Segv \<Rightarrow> Segv
           | Ret (result', res', st') \<Rightarrow> retry_loop sv c path n result' res' st')
      else Ret (result, res, st))"

definition stns_request ::
  "services \<Rightarrow> stns_conf \<Rightarrow> string option \<Rightarrow> stns_response \<Rightarrow> client \<Rightarrow> (int \<times> stns_response \<times> client) outcome" where
  "stns_request sv c path_opt res0 st =
     (let res = res0\<lparr>res_size := 0, res_status_code := 200\<rparr> in
      case path_opt of
        None \<Rightarrow> Ret (CURLE_HTTP_RETURNED_ERROR, res, st)
      | Some path \<Rightarrow>
          let dpath = cache_path c (sys st); fpath = cache_file sv c path (sys st) in
          case cache_lookup sv c path res (sys st) of
            Inl (result, res') \<Rightarrow> Ret (result, res', st)
          | Inr w \<Rightarrow>
              let (available, w1) = stns_request_available STNS_LOCK_FILE c w; st1 = st\<lparr>sys := w1\<rparr> in
              if \<not> available then Ret (CURLE_COULDNT_CONNECT, res, st1)
              else
                (case (case query_wrapper c of
                         None \<Rightarrow>
                           (case inner_http_request sv c path res st1 of
                              Segv \<Rightarrow> Segv
                            | Ret (result, res', st2) \<Rightarrow>
                                retry_loop sv c path (nat (sint (request_retry c))) result res' st2)
                       | Some cmd \<Rightarrow>
                           (let (result, res') = stns_exec_cmd sv cmd (Some path) res in Ret (result, res', st1))) of
                   Segv \<Rightarrow> Segv
                 | Ret (result, res', st2) \<Rightarrow>
                     let w2 = (if result = CURLE_COULDNT_CONNECT
                               then stns_make_lockfile STNS_LOCK_FILE (sys st2) else sys st2);
                         w3 = (if cache c \<and> \<not> cached_enable c
                               then stns_export_file dpath fpath (res_data res') w2 else w2)
                     in Ret (result, res', st2\<lparr>sys := w3\<rparr>)))"

section \<open>Retries\<close>

lemma inner_request_state:
  assumes "inner_http_request sv c path res st = Ret (r, res', st')"
  shows "sys st' = sys st" "transfers st' = Suc (transfers st)"
  using assms by (auto simp: inner_http_request_def Let_def split: outcome.splits prod.splits if_splits)

lemma retry_loop_state:
  assumes "retry_loop sv c path n r res st = Ret (r', res', st')"
  shows "(\<exists>t. sys st' = (sys st)\<lparr>time_now := t\<rparr>) \<and> transfers st \<le> transfers st' \<and> transfers st' \<le> transfers st + n \<and>
    (transfers st' < transfers st + n \<longrightarrow> r' = CURLE_OK \<or> r' = CURLE_HTTP_RETURNED_ERROR)"
  using assms
proof (induction n arbitrary: r res st)
  case 0
  then show ?case by (auto intro!: exI [of _ "time_now (sys st)"])
next
  case (Suc n)
  show ?case
  proof (cases "r = CURLE_OK \<or> r = CURLE_HTTP_RETURNED_ERROR")
    case True
    with Suc.prems show ?thesis by (auto split: if_splits intro!: exI [of _ "time_now (sys st)"])
  next
    case False
    let ?st = "st\<lparr>sys := (sys st)\<lparr>time_now := time_now (sys st) + 1\<rparr>\<rparr>"
    from False Suc.prems obtain r1 res1 st1 where i: "inner_http_request sv c path res ?st = Ret (r1, res1, st1)"
      and l: "retry_loop sv c path n r1 res1 st1 = Ret (r', res', st')"
      by (auto split: outcome.splits)
    note s = inner_request_state [OF i]
    from Suc.IH [OF l] s show ?thesis
      by auto
  qed
qed

text \<open>The answer to transfer number \<open>k\<close> of a request, and the answers after which a request ends: an error status, and a success
  (of a body that the callback can take).\<close>

definition answer :: "services \<Rightarrow> stns_conf \<Rightarrow> string \<Rightarrow> nat \<Rightarrow> curl_outcome" where
  "answer sv c path k = curl_perform sv k (curl_options c path)"

definition http_error :: "services \<Rightarrow> stns_conf \<Rightarrow> string \<Rightarrow> nat \<Rightarrow> bool" where
  "http_error sv c path k \<longleftrightarrow> 400 \<le> co_code (answer sv c path k)"

definition delivered :: "services \<Rightarrow> stns_conf \<Rightarrow> string \<Rightarrow> nat \<Rightarrow> bool" where
  "delivered sv c path k \<longleftrightarrow> co_result (answer sv c path k) = CURLE_OK \<and>
     (\<forall>b \<in> set (co_segments (answer sv c path k)). length b \<le> STNS_MAX_BUFFER_SIZE)"

lemma run_segments_taken: "\<forall>b \<in> set bs. length b \<le> STNS_MAX_BUFFER_SIZE \<Longrightarrow> snd (run_segments bs res)"
  by (induction bs arbitrary: res) (auto simp: response_callback_def Let_def split: prod.splits)

lemma inner_request_answer:
  assumes "inner_http_request sv c path res st = Ret (r, res', st')"
  shows "http_error sv c path (transfers st) \<Longrightarrow> r = CURLE_HTTP_RETURNED_ERROR"
    and "delivered sv c path (transfers st) \<Longrightarrow> r = CURLE_OK \<or> r = CURLE_HTTP_RETURNED_ERROR"
  using assms run_segments_taken [of "co_segments (answer sv c path (transfers st))" res]
  by (auto simp: inner_http_request_def http_error_def delivered_def answer_def Let_def split: outcome.splits prod.splits if_splits)

lemma retry_loop_answers:
  assumes "retry_loop sv c path n r res st = Ret (r', res', st')"
  shows "(r = CURLE_OK \<or> r = CURLE_HTTP_RETURNED_ERROR \<longrightarrow> transfers st' = transfers st \<and> r' = r) \<and>
    (\<forall>k. transfers st \<le> k \<and> Suc k < transfers st' \<longrightarrow> \<not> http_error sv c path k \<and> \<not> delivered sv c path k) \<and>
    (transfers st < transfers st' \<and> http_error sv c path (transfers st' - 1) \<longrightarrow> r' = CURLE_HTTP_RETURNED_ERROR)"
  using assms
proof (induction n arbitrary: r res st)
  case (Suc n)
  show ?case
  proof (cases "r = CURLE_OK \<or> r = CURLE_HTTP_RETURNED_ERROR")
    case True
    with Suc.prems show ?thesis by (auto split: if_splits)
  next
    case False
    let ?st = "st\<lparr>sys := (sys st)\<lparr>time_now := time_now (sys st) + 1\<rparr>\<rparr>"
    from False Suc.prems obtain r1 res1 st1 where i: "inner_http_request sv c path res ?st = Ret (r1, res1, st1)"
      and l: "retry_loop sv c path n r1 res1 st1 = Ret (r', res', st')"
      by (auto split: outcome.splits)
    have s: "transfers st1 = Suc (transfers st)" "transfers st1 \<le> transfers st'"
      using inner_request_state(2) [OF i] retry_loop_state [OF l] by auto
    note ih = Suc.IH [OF l]
    have r1: "http_error sv c path (transfers st) \<Longrightarrow> r1 = CURLE_HTTP_RETURNED_ERROR"
      "delivered sv c path (transfers st) \<Longrightarrow> r1 = CURLE_OK \<or> r1 = CURLE_HTTP_RETURNED_ERROR"
      using inner_request_answer [OF i] by simp_all
    have stop: "http_error sv c path (transfers st) \<or> delivered sv c path (transfers st) \<Longrightarrow> transfers st' = Suc (transfers st) \<and> r' = r1"
      using r1 ih s by metis
    have "\<not> http_error sv c path k \<and> \<not> delivered sv c path k" if "transfers st \<le> k" "Suc k < transfers st'" for k
    proof (cases "k = transfers st")
      case True
      with stop that show ?thesis by auto
    next
      case False
      with that have "transfers st1 \<le> k" using s by simp
      with ih that show ?thesis by blast
    qed
    moreover have "r' = CURLE_HTTP_RETURNED_ERROR" if "http_error sv c path (transfers st' - 1)"
    proof (cases "transfers st' = Suc (transfers st)")
      case True
      with that r1 stop show ?thesis by auto
    next
      case False
      with s have "transfers st1 < transfers st'" by simp
      with ih that show ?thesis by blast
    qed
    ultimately show ?thesis using False by blast
  qed
qed auto

section \<open>The cache path stays usable\<close>

lemma cache_usable_time [simp]: "cache_usable d f (w\<lparr>time_now := t\<rparr>) = cache_usable d f w"
  by (simp add: cache_usable_def own_file_def lstat_def stns_cache_dir_is_safe_def cong: option.case_cong)

lemma unlink_refused [simp]: "refused (unlink p w) = refused w"
  by (simp add: unlink_def)

lemma cache_usable_unlink:
  assumes "cache_usable d f w" "p \<noteq> d"
  shows "cache_usable d f (unlink p w)"
proof -
  have "lstat (unlink p w) d = lstat w d"
    using assms(2) by (simp add: lstat_unlink)
  moreover have "lstat (unlink p w) f = lstat w f \<or> lstat (unlink p w) f = None"
    by (auto simp: lstat_unlink)
  ultimately show ?thesis
    using assms(1) by (auto simp: cache_usable_def own_file_def stns_cache_dir_is_safe_def split: option.splits)
qed

lemma delete_entry_cases: "delete_cache_entry c t p w = w \<or> delete_cache_entry c t p w = unlink p w"
  by (auto simp: delete_cache_entry_def split: option.splits)

lemma cache_usable_fold:
  "cache_usable d f w \<Longrightarrow> d \<notin> set ps \<Longrightarrow> cache_usable d f (fold (delete_cache_entry c t) ps w)"
proof (induction ps arbitrary: w)
  case (Cons p ps)
  have "cache_usable d f (delete_cache_entry c t p w)"
    using delete_entry_cases [of c t p w] cache_usable_unlink [OF Cons.prems(1)] Cons.prems by auto
  with Cons show ?case by simp
qed simp

lemma readdir_self: "dir \<notin> set (readdir w dir)"
  by (auto simp: readdir_def)

lemma fold_delete_sel: "geteuid (fold (delete_cache_entry c t) ps w) = geteuid w \<and>
    time_now (fold (delete_cache_entry c t) ps w) = time_now w \<and> refused (fold (delete_cache_entry c t) ps w) = refused w"
proof (induction ps arbitrary: w)
  case (Cons p ps)
  then show ?case
    using delete_entry_cases [of c t p w] by auto
qed simp

lemma delete_files_sel [simp]: "geteuid (delete_cache_files c w) = geteuid w" "time_now (delete_cache_files c w) = time_now w"
   "refused (delete_cache_files c w) = refused w"
  using fold_delete_sel by (auto simp: delete_cache_files_def Let_def split: option.splits)

lemma cache_usable_delete: "cache_usable (cache_path c w) f w \<Longrightarrow> cache_usable (cache_path c w) f (delete_cache_files c w)"
  using cache_usable_fold readdir_self by (auto simp: delete_cache_files_def Let_def split: option.splits)

lemma cache_lookup_Inr:
  assumes "cache_lookup sv c path res w = Inr w'"
  shows "w' = w \<or> w' = delete_cache_files c w"
  using assms by (auto simp: cache_lookup_def Let_def split: if_splits option.splits)

lemma request_available_cases: "snd (stns_request_available p c w) = w \<or> snd (stns_request_available p c w) = unlink p w"
  by (auto simp: stns_request_available_def split: option.splits)

lemma cache_path_cong: "geteuid w = geteuid w' \<Longrightarrow> cache_path c w = cache_path c w'"
  by (simp add: cache_path_def)

lemma cache_file_cong: "geteuid w = geteuid w' \<Longrightarrow> cache_file sv c path w = cache_file sv c path w'"
  by (simp add: cache_file_def cache_path_def)

text \<open>Where a request that went past the cache ends: the state before its results are stored.\<close>

lemma stns_request_inv:
  assumes "stns_request sv c (Some path) res0 st = Ret (result, res', st')"
    and "cache_lookup sv c path (res0\<lparr>res_size := 0, res_status_code := 200\<rparr>) (sys st) = Inr w"
    and "fst (stns_request_available STNS_LOCK_FILE c w)"
  shows "\<exists>t. sys st' =
     (let w2 = (snd (stns_request_available STNS_LOCK_FILE c w))\<lparr>time_now := t\<rparr>;
          w3 = (if result = CURLE_COULDNT_CONNECT then stns_make_lockfile STNS_LOCK_FILE w2 else w2) in
      if cache c \<and> \<not> cached_enable c
      then stns_export_file (cache_path c (sys st)) (cache_file sv c path (sys st)) (res_data res') w3 else w3)"
proof -
  let ?res = "res0\<lparr>res_size := 0, res_status_code := 200\<rparr>"
  obtain w1 where w1: "stns_request_available STNS_LOCK_FILE c w = (True, w1)"
    using assms(3) by (cases "stns_request_available STNS_LOCK_FILE c w") auto
  let ?q = "case query_wrapper c of
       None \<Rightarrow> (case inner_http_request sv c path ?res (st\<lparr>sys := w1\<rparr>) of
                 Segv \<Rightarrow> Segv
               | Ret (result, res', st2) \<Rightarrow> retry_loop sv c path (nat (sint (request_retry c))) result res' st2)
     | Some cmd \<Rightarrow> (let (result, res') = stns_exec_cmd sv cmd (Some path) ?res in Ret (result, res', st\<lparr>sys := w1\<rparr>))"
  from assms(1) obtain st2 where q: "?q = Ret (result, res', st2)"
    and fin: "sys st' = (let w3 = (if result = CURLE_COULDNT_CONNECT then stns_make_lockfile STNS_LOCK_FILE (sys st2) else sys st2) in
       if cache c \<and> \<not> cached_enable c
       then stns_export_file (cache_path c (sys st)) (cache_file sv c path (sys st)) (res_data res') w3 else w3)"
    unfolding stns_request_def Let_def assms(2) w1
    by (auto simp: assms(2) w1 split: outcome.splits)
  have "\<exists>t. sys st2 = w1\<lparr>time_now := t\<rparr>"
  proof (cases "query_wrapper c")
    case None
    with q obtain r1 res1 st1 where i: "inner_http_request sv c path ?res (st\<lparr>sys := w1\<rparr>) = Ret (r1, res1, st1)"
      and l: "retry_loop sv c path (nat (sint (request_retry c))) r1 res1 st1 = Ret (result, res', st2)"
      by (auto split: outcome.splits)
    show ?thesis
      using retry_loop_state [OF l] inner_request_state(1) [OF i] by auto
  next
    case (Some cmd)
    with q have "sys st2 = w1"
      by (auto split: prod.splits)
    then show ?thesis by (auto intro!: exI [of _ "time_now w1"])
  qed
  then obtain t where "sys st2 = w1\<lparr>time_now := t\<rparr>" ..
  with fin w1 show ?thesis
    by (auto simp: Let_def)
qed

text \<open>A fresh entry is served from the file, without a transfer.\<close>

lemma stns_request_hit:
  assumes "cache c" "\<not> cached_enable c" "stns_cache_dir_is_safe (sys st) (cache_path c (sys st))"
    and nd: "lstat (sys st) (cache_file sv c path (sys st)) = Some nd" "n_kind nd = Regular" "n_uid nd = geteuid (sys st)"
    and d: "n_data nd \<noteq> []" "no_nul (n_data nd)"
    and fresh: "time_now (sys st) - n_mtime nd < ulong (cache_ttl c)"
    and "\<not> refused (sys st) (files (sys st)) (cache_file sv c path (sys st))"
  shows "\<exists>res'. stns_request sv c (Some path) res st = Ret (CURLE_OK, res', st) \<and> res_data res' = n_data nd \<and>
    res_size res' = strnlen (n_data nd) STNS_MAX_BUFFER_SIZE \<and> res_status_code res' = 200"
proof -
  let ?res = "res\<lparr>res_size := 0, res_status_code := 200\<rparr>" and ?f = "cache_file sv c path (sys st)"
  have "stat (sys st) ?f = Some nd"
    using nd by (intro stat_lstat) simp_all
  moreover have "fopen_read ?f (sys st) = Some (n_data nd)"
    using nd assms(10) by (intro fopen_own_file) simp_all
  then obtain res1 where r: "stns_import_file ?f (sys st) ?res = Some res1" "res_data res1 = n_data nd" "res_status_code res1 = 200"
    using import_file_data [of ?f "sys st" "n_data nd" ?res] d by auto
  moreover have "cache_fresh c (time_now (sys st) - n_mtime nd) (length (n_data nd))"
    using fresh d by (simp add: cache_fresh_def)
  ultimately have "cache_lookup sv c path ?res (sys st) =
      Inl (CURLE_OK, res1\<lparr>res_size := strnlen (n_data nd) STNS_MAX_BUFFER_SIZE\<rparr>)"
    using assms(1-3) nd d by (simp add: cache_lookup_def Let_def)
  then show ?thesis
    using r by (simp add: stns_request_def)
qed

lemma make_lockfile_sel [simp]: "geteuid (stns_make_lockfile p w) = geteuid w" "time_now (stns_make_lockfile p w) = time_now w"
  "refused (stns_make_lockfile p w) = refused w"
  by (auto simp: stns_make_lockfile_def open_writeD(3-5) split: option.splits)

text \<open>What a request leaves in the cache is served to the next one, whatever the result of the first.\<close>

lemma stns_request_then_hit:
  assumes c: "cache c" "\<not> cached_enable c"
    and us: "cache_usable (cache_path c (sys st)) (cache_file sv c path (sys st)) (sys st)"
    and lk: "STNS_LOCK_FILE \<noteq> cache_path c (sys st)"
    and miss: "cache_lookup sv c path (res0\<lparr>res_size := 0, res_status_code := 200\<rparr>) (sys st) = Inr w"
      "fst (stns_request_available STNS_LOCK_FILE c w)"
    and r1: "stns_request sv c (Some path) res0 st = Ret (result, res1, st1)" "result \<noteq> CURLE_COULDNT_CONNECT"
    and d: "cstr (res_data res1) \<noteq> []"
    and t: "t - time_now (sys st1) < ulong (cache_ttl c)"
    and sv': "curl_escape sv' = curl_escape sv"
  shows "\<exists>res2. stns_request sv' c (Some path) res (st1\<lparr>sys := (sys st1)\<lparr>time_now := t\<rparr>\<rparr>)
      = Ret (CURLE_OK, res2, st1\<lparr>sys := (sys st1)\<lparr>time_now := t\<rparr>\<rparr>) \<and> res_data res2 = cstr (res_data res1) \<and>
        res_size res2 = strnlen (res_data res1) STNS_MAX_BUFFER_SIZE"
proof -
  let ?dir = "cache_path c (sys st)" and ?file = "cache_file sv c path (sys st)"
  obtain t0 where t0: "sys st1 = stns_export_file ?dir ?file (res_data res1)
      ((snd (stns_request_available STNS_LOCK_FILE c w))\<lparr>time_now := t0\<rparr>)"
    using stns_request_inv [OF r1(1) miss] r1(2) c by (auto simp: Let_def)
  define w2 where w2: "w2 = (snd (stns_request_available STNS_LOCK_FILE c w))\<lparr>time_now := t0\<rparr>"
  have st1: "sys st1 = stns_export_file ?dir ?file (res_data res1) w2"
    using t0 by (simp add: w2)
  have uw: "cache_usable ?dir ?file w" "geteuid w = geteuid (sys st)" "refused w = refused (sys st)"
    using cache_lookup_Inr [OF miss(1)] us cache_usable_delete [OF us] by auto
  have u2: "cache_usable ?dir ?file w2" and e2: "geteuid w2 = geteuid (sys st)" "refused w2 = refused (sys st)"
    using request_available_cases [of STNS_LOCK_FILE c w] uw cache_usable_unlink [OF uw(1) lk] by (auto simp: w2)
  obtain nd where nd: "lstat (sys st1) ?file = Some nd" "n_kind nd = Regular" "n_uid nd = geteuid w2"
      "n_data nd = cstr (res_data res1)" "n_mtime nd = time_now w2"
    using export_stores(1) [OF u2, of "res_data res1"] st1 by auto
  have safe: "stns_cache_dir_is_safe (sys st1) ?dir"
    using export_stores(2) [OF u2, of "res_data res1"] st1 by simp
  let ?st = "st1\<lparr>sys := (sys st1)\<lparr>time_now := t\<rparr>\<rparr>"
  have e: "geteuid (sys ?st) = geteuid (sys st)" "cache_path c (sys ?st) = ?dir" "cache_file sv' c path (sys ?st) = ?file"
    using e2 st1 sv' by (simp_all add: cache_path_def cache_file_def)
  have "\<not> refused (sys st) fs ?file" for fs
    using us by (auto simp: cache_usable_def)
  then show ?thesis
    using stns_request_hit [of c ?st sv' path nd res] c safe nd d t e e2 st1
    by (auto simp: lstat_def strnlen_def stns_cache_dir_is_safe_def cong: option.case_cong)
qed

section \<open>What one transfer stores\<close>

lemma run_segments_data:
  assumes "wf_response res" "res_size res \<le> length (res_data res)"
    and "\<forall>b \<in> set bs. length b \<le> STNS_MAX_BUFFER_SIZE"
  shows "\<exists>res'. run_segments bs res = (res', True) \<and> wf_response res' \<and>
    (bs \<noteq> [] \<longrightarrow> res_data res' = take (res_size res) (res_data res) @ concat bs) \<and>
    res_size res' = res_size res + length (concat bs) \<and> res_size res' \<le> length (res_data res') \<and>
    take (res_size res') (res_data res') = take (res_size res) (res_data res) @ concat bs \<and>
    res_status_code res' = res_status_code res"
  using assms
proof (induction bs arbitrary: res)
  case (Cons b bs)
  obtain r1 where r1: "response_callback b res = (r1, length b)" "wf_response r1"
    "res_data r1 = take (res_size res) (res_data res) @ b" "res_size r1 = length (res_data r1)"
    "res_status_code r1 = res_status_code res"
    using response_callback_data [OF Cons.prems(1,2), of b] Cons.prems(3) by auto
  with Cons.IH [OF r1(2)] Cons.prems show ?case
    by (cases bs) auto
qed auto

lemma transfers_request:
  assumes "stns_request sv c p res st = Ret (r, res', st')"
  shows "transfers st \<le> transfers st' \<and> transfers st' \<le> transfers st + Suc (nat (sint (request_retry c))) \<and>
    (transfers st < transfers st' \<and> transfers st' < transfers st + Suc (nat (sint (request_retry c))) \<longrightarrow>
      r = CURLE_OK \<or> r = CURLE_HTTP_RETURNED_ERROR)"
proof -
  let ?res = "res\<lparr>res_size := 0, res_status_code := 200\<rparr>" and ?n = "nat (sint (request_retry c))"
  have inner: "transfers st2 = Suc (transfers st) \<Longrightarrow> retry_loop sv c q ?n r1 res1 st2 = Ret (r, res', st3) \<Longrightarrow>
      transfers st \<le> transfers st3 \<and> transfers st3 \<le> transfers st + Suc ?n \<and>
      (transfers st < transfers st3 \<and> transfers st3 < transfers st + Suc ?n \<longrightarrow> r = CURLE_OK \<or> r = CURLE_HTTP_RETURNED_ERROR)"
    for q r1 res1 st2 st3
    using retry_loop_state [of sv c q ?n r1 res1 st2 r res' st3] by auto
  show ?thesis
  proof (cases p)
    case None
    with assms show ?thesis by (auto simp: stns_request_def Let_def)
  next
    case (Some q)
    show ?thesis
    proof (cases "cache_lookup sv c q ?res (sys st)")
      case (Inl x)
      with assms Some show ?thesis by (cases x) (auto simp: stns_request_def Let_def)
    next
      case (Inr w)
      obtain a w1 where av: "stns_request_available STNS_LOCK_FILE c w = (a, w1)" by force
      show ?thesis
      proof (cases "query_wrapper c")
        case None
        with assms Some Inr av show ?thesis
          by (auto simp: stns_request_def Let_def split: if_splits outcome.splits
              dest!: inner_request_state(2) inner [rotated])
      next
        case (Some cmd)
        with assms \<open>p = Some q\<close> Inr av show ?thesis
          by (auto simp: stns_request_def Let_def split: if_splits prod.splits)
      qed
    qed
  qed
qed

lemma answers_request:
  assumes "stns_request sv c (Some q) res st = Ret (r, res', st')"
  shows "(\<forall>k. transfers st \<le> k \<and> Suc k < transfers st' \<longrightarrow> \<not> http_error sv c q k \<and> \<not> delivered sv c q k) \<and>
    (transfers st < transfers st' \<and> http_error sv c q (transfers st' - 1) \<longrightarrow> r = CURLE_HTTP_RETURNED_ERROR)"
proof -
  let ?res = "res\<lparr>res_size := 0, res_status_code := 200\<rparr>" and ?n = "nat (sint (request_retry c))"
  let ?P = "\<lambda>t r. (\<forall>k. transfers st \<le> k \<and> Suc k < t \<longrightarrow> \<not> http_error sv c q k \<and> \<not> delivered sv c q k) \<and>
    (transfers st < t \<and> http_error sv c q (t - 1) \<longrightarrow> r = CURLE_HTTP_RETURNED_ERROR)"
  have inner: "?P (transfers st3) r"
    if i: "inner_http_request sv c q res1 st1 = Ret (r1, res2, st2)" and l: "retry_loop sv c q ?n r1 res2 st2 = Ret (r, res3, st3)"
      and t: "transfers st1 = transfers st" for res1 st1 r1 res2 st2 res3 st3
  proof -
    have s: "transfers st2 = Suc (transfers st)" "transfers st2 \<le> transfers st3"
      using inner_request_state(2) [OF i] retry_loop_state [OF l] t by auto
    note a = retry_loop_answers [OF l]
    have r1: "http_error sv c q (transfers st) \<Longrightarrow> r1 = CURLE_HTTP_RETURNED_ERROR"
      "delivered sv c q (transfers st) \<Longrightarrow> r1 = CURLE_OK \<or> r1 = CURLE_HTTP_RETURNED_ERROR"
      using inner_request_answer [OF i] t by simp_all
    have stop: "http_error sv c q (transfers st) \<or> delivered sv c q (transfers st) \<Longrightarrow> transfers st3 = Suc (transfers st) \<and> r = r1"
      using r1 a s by metis
    have "\<not> http_error sv c q k \<and> \<not> delivered sv c q k" if "transfers st \<le> k" "Suc k < transfers st3" for k
    proof (cases "k = transfers st")
      case True
      with stop that show ?thesis by auto
    next
      case False
      with that have "transfers st2 \<le> k" using s by simp
      with a that show ?thesis by blast
    qed
    moreover have "r = CURLE_HTTP_RETURNED_ERROR" if "http_error sv c q (transfers st3 - 1)"
    proof (cases "transfers st3 = Suc (transfers st)")
      case True
      with that r1 stop show ?thesis by auto
    next
      case False
      with s have "transfers st2 < transfers st3" by simp
      with a that show ?thesis by blast
    qed
    ultimately show ?thesis by blast
  qed
  show ?thesis
  proof (cases "cache_lookup sv c q ?res (sys st)")
    case (Inl x)
    with assms show ?thesis by (cases x) (auto simp: stns_request_def Let_def)
  next
    case (Inr w)
    obtain a w1 where av: "stns_request_available STNS_LOCK_FILE c w = (a, w1)" by force
    show ?thesis
    proof (cases "a \<and> query_wrapper c = None")
      case False
      with assms Inr av have "transfers st' = transfers st"
        by (auto simp: stns_request_def Let_def split: if_splits prod.splits option.splits)
      then show ?thesis by auto
    next
      case True
      with assms Inr av obtain r1 res2 st2 res3 st3 where
        "inner_http_request sv c q ?res (st\<lparr>sys := w1\<rparr>) = Ret (r1, res2, st2)" "retry_loop sv c q ?n r1 res2 st2 = Ret (r, res3, st3)"
        "transfers st' = transfers st3"
        by (auto simp: stns_request_def Let_def split: if_splits outcome.splits prod.splits)
      with inner show ?thesis by simp
    qed
  qed
qed

text \<open>C11. The number of transfers of a request is bounded by one more than the configured number of retries (a
  negative number counts as none), and a request that made a transfer and stopped short of that bound stopped because the last
  transfer succeeded or the server answered with an error status. No transfer is repeated that was answered with an error status
  (400 or more) or that delivered its body: such a transfer is the last one of the request, and after an error status the result is
  \<^verbatim>\<open>CURLE_HTTP_RETURNED_ERROR\<close>.\<close>

theorem stns_request_retry_bound:
  assumes "stns_request sv c p res st = Ret (r, res', st')"
  shows "transfers st \<le> transfers st' \<and> transfers st' \<le> transfers st + 1 + nat (sint (request_retry c)) \<and>
    (transfers st < transfers st' \<and> transfers st' < transfers st + 1 + nat (sint (request_retry c)) \<longrightarrow>
      r = CURLE_OK \<or> r = CURLE_HTTP_RETURNED_ERROR) \<and>
    (\<forall>path. p = Some path \<longrightarrow>
      (\<forall>k. transfers st \<le> k \<and> Suc k < transfers st' \<longrightarrow> \<not> http_error sv c path k \<and> \<not> delivered sv c path k) \<and>
      (transfers st < transfers st' \<and> http_error sv c path (transfers st' - 1) \<longrightarrow> r = CURLE_HTTP_RETURNED_ERROR))"
  using transfers_request [OF assms] answers_request [of sv c _ res st r res' st'] assms by auto

definition sample_services :: "int \<Rightarrow> int \<Rightarrow> string \<Rightarrow> services" where
  "sample_services status result body =
     \<lparr>curl_perform = (\<lambda>n rq. \<lparr>co_headers = [], co_segments = [body], co_code = status, co_result = result\<rparr>),
      curl_escape = (\<lambda>s. s), popen_output = (\<lambda>s. None), id_mutex_busy = (\<lambda>_. False)\<rparr>"

definition sample_client :: client where
  "sample_client = \<lparr>sys = sample_os, bounds = no_bounds, transfers = 0\<rparr>"

definition sample_response :: stns_response where
  "sample_response = \<lparr>res_data = [], res_capacity = STNS_DEFAULT_BUFFER_SIZE, res_size = 0, res_status_code = 200\<rparr>"

definition sample_conf :: stns_conf where
  "sample_conf = default_conf\<lparr>cache_dir := ''/c''\<rparr>"

text \<open>The transport fails every time: four transfers, a lock file only for a refused connection.\<close>

lemma sample_failing: "\<exists>res' st'. stns_request (sample_services 0 28 ''x'') sample_conf (Some ''users'') sample_response sample_client
    = Ret (28, res', st') \<and> transfers st' = 4"
proof -
  have "(case stns_request (sample_services 0 28 ''x'') sample_conf (Some ''users'') sample_response sample_client of
    Segv \<Rightarrow> False | Ret (r, res', st') \<Rightarrow> r = 28 \<and> transfers st' = 4)"
    by code_simp
  then show ?thesis by (auto split: outcome.splits)
qed

theorem stns_request_retry_bound_witness:
  "(\<exists>res' st'. stns_request (sample_services 0 28 ''x'') sample_conf (Some ''users'') sample_response sample_client
    = Ret (28, res', st') \<and> transfers st' \<le> 4) \<and>
   (\<exists>res' st'. stns_request (sample_services 503 0 ''x'') sample_conf (Some ''users'') sample_response sample_client
    = Ret (CURLE_HTTP_RETURNED_ERROR, res', st') \<and> transfers st' = 1)"
proof (rule conjI)
  obtain res' st' where r: "stns_request (sample_services 0 28 ''x'') sample_conf (Some ''users'') sample_response sample_client
    = Ret (28, res', st')" using sample_failing by blast
  have "transfers st' \<le> 4"
    using stns_request_retry_bound [OF r] by (simp add: sample_client_def sample_conf_def default_conf_def)
  with r show "\<exists>res' st'. stns_request (sample_services 0 28 ''x'') sample_conf (Some ''users'') sample_response sample_client
    = Ret (28, res', st') \<and> transfers st' \<le> 4" by blast
next
  have "(case stns_request (sample_services 503 0 ''x'') sample_conf (Some ''users'') sample_response sample_client of
    Segv \<Rightarrow> False | Ret (r, res', st') \<Rightarrow> 0 < transfers st')"
    by code_simp
  then obtain r res' st' where r: "stns_request (sample_services 503 0 ''x'') sample_conf (Some ''users'') sample_response sample_client
    = Ret (r, res', st')" "0 < transfers st'" by (auto split: outcome.splits)
  have e: "http_error (sample_services 503 0 ''x'') sample_conf ''users'' k" for k
    by (simp add: http_error_def answer_def sample_services_def)
  have "transfers sample_client = 0" by (simp add: sample_client_def)
  with stns_request_retry_bound [OF r(1)] r(2) e
  have "\<forall>k. Suc k < transfers st' \<longrightarrow> False" "r = CURLE_HTTP_RETURNED_ERROR" by auto
  moreover from this(1) r(2) have "transfers st' = 1" by (metis One_nat_def Suc_lessI)
  ultimately show "\<exists>res' st'. stns_request (sample_services 503 0 ''x'') sample_conf (Some ''users'') sample_response sample_client
    = Ret (CURLE_HTTP_RETURNED_ERROR, res', st') \<and> transfers st' = 1"
    using r(1) by blast
qed

text \<open>A successful transfer stores the body: whatever segments the transport delivers (none larger than
  \<^verbatim>\<open>STNS_MAX_BUFFER_SIZE\<close>), the response buffer holds their concatenation, the size is its length and the
  allocation covers it with its terminator; the status stays 200 and the result is the one of the transport.\<close>

theorem inner_http_request_body:
  assumes out: "curl_perform sv (transfers st) (curl_options c path) = out"
    and "co_headers out = []" "co_segments out \<noteq> []" "\<forall>b \<in> set (co_segments out). length b \<le> STNS_MAX_BUFFER_SIZE"
    and "0 < co_code out" "co_code out < 400"
    and "wf_response res" "res_size res = 0"
  shows "\<exists>res'. inner_http_request sv c path res st = Ret (co_result out, res', st\<lparr>transfers := Suc (transfers st)\<rparr>) \<and>
    res_data res' = concat (co_segments out) \<and> res_size res' = length (res_data res') \<and>
    res_size res' < res_capacity res' \<and> res_status_code res' = res_status_code res"
  using run_segments_data [OF assms(7) _ assms(4)] assms
  by (auto simp: inner_http_request_def Let_def wf_response_def)

theorem inner_http_request_body_witness:
  "\<exists>res'. inner_http_request (sample_services 200 0 ''[1]'') sample_conf ''users'' sample_response sample_client
     = Ret (0, res', sample_client\<lparr>transfers := 1\<rparr>) \<and> res_data res' = ''[1]'' \<and> res_size res' = 3"
  using inner_http_request_body [of "sample_services 200 0 ''[1]''" sample_client sample_conf "''users''"
      "\<lparr>co_headers = [], co_segments = [''[1]''], co_code = 200, co_result = 0\<rparr>" sample_response]
  by (auto simp: sample_services_def sample_client_def sample_response_def wf_response_def STNS_MAX_BUFFER_SIZE_def
      STNS_DEFAULT_BUFFER_SIZE_def)

text \<open>C10. The cache answers the next request. When a request that was not answered from the cache succeeds with a
  non-empty body, the same request made later, but less than \<^verbatim>\<open>cache_ttl\<close> seconds after the clock of the first, returns success with
  the same text (up to its terminator) and the matching size, makes no transfer and changes nothing - whatever the server would answer
  by then.\<close>

theorem stns_request_cached:
  assumes c: "cache c" "\<not> cached_enable c"
    and "cache_usable (cache_path c (sys st)) (cache_file sv c path (sys st)) (sys st)"
    and "STNS_LOCK_FILE \<noteq> cache_path c (sys st)"
    and "cache_lookup sv c path (res0\<lparr>res_size := 0, res_status_code := 200\<rparr>) (sys st) = Inr w"
      "fst (stns_request_available STNS_LOCK_FILE c w)"
    and "stns_request sv c (Some path) res0 st = Ret (CURLE_OK, res1, st1)" "cstr (res_data res1) \<noteq> []"
    and "t - time_now (sys st1) < ulong (cache_ttl c)"
  shows "\<exists>res2. stns_request (sv\<lparr>curl_perform := other\<rparr>) c (Some path) res (st1\<lparr>sys := (sys st1)\<lparr>time_now := t\<rparr>\<rparr>)
      = Ret (CURLE_OK, res2, st1\<lparr>sys := (sys st1)\<lparr>time_now := t\<rparr>\<rparr>) \<and> res_data res2 = cstr (res_data res1) \<and>
        res_size res2 = strnlen (res_data res1) STNS_MAX_BUFFER_SIZE"
  using stns_request_then_hit [OF assms(1-7) _ assms(8,9), of "sv\<lparr>curl_perform := other\<rparr>"]
  by (simp add: curle_defs)

theorem stns_request_cached_witness:
  "\<exists>res1 st1 res2. stns_request (sample_services 200 0 ''[1]'') sample_conf (Some ''users'') sample_response sample_client
      = Ret (CURLE_OK, res1, st1) \<and>
    stns_request (sample_services 500 0 ''down'') sample_conf (Some ''users'') sample_response (st1\<lparr>sys := (sys st1)\<lparr>time_now := 500\<rparr>\<rparr>)
      = Ret (CURLE_OK, res2, st1\<lparr>sys := (sys st1)\<lparr>time_now := 500\<rparr>\<rparr>) \<and> res_data res2 = ''[1]''"
proof -
  let ?sv = "sample_services 200 0 ''[1]''"
  have "(case stns_request ?sv sample_conf (Some ''users'') sample_response sample_client of
    Segv \<Rightarrow> False | Ret (r, res', st') \<Rightarrow> r = CURLE_OK \<and> res_data res' = ''[1]'' \<and> time_now (sys st') = 100)"
    by code_simp
  then obtain res1 st1 where r: "stns_request ?sv sample_conf (Some ''users'') sample_response sample_client
      = Ret (CURLE_OK, res1, st1)" "res_data res1 = ''[1]''" "time_now (sys st1) = 100"
    by (auto split: outcome.splits)
  have p: "cache_path sample_conf (sys sample_client) = ''/c/0''"
    "cache_file ?sv sample_conf ''users'' (sys sample_client) = ''/c/0/users''"
    by code_simp+
  have l: "cache_lookup ?sv sample_conf ''users'' (sample_response\<lparr>res_size := 0, res_status_code := 200\<rparr>) (sys sample_client)
    = Inr sample_os"
  proof -
    have "stat (sys sample_client) ''/c/0/users'' = None"
      by code_simp
    then have "cache_lookup ?sv sample_conf ''users'' (sample_response\<lparr>res_size := 0, res_status_code := 200\<rparr>) (sys sample_client)
        = Inr (sys sample_client)"
      using p by (simp add: cache_lookup_def Let_def)
    then show ?thesis by (simp add: sample_client_def)
  qed
  have "stns_request (?sv\<lparr>curl_perform := curl_perform (sample_services 500 0 ''down'')\<rparr>) sample_conf (Some ''users'')
     sample_response (st1\<lparr>sys := (sys st1)\<lparr>time_now := 500\<rparr>\<rparr>)
     = Ret (CURLE_OK, res2, st1\<lparr>sys := (sys st1)\<lparr>time_now := 500\<rparr>\<rparr>) \<and> res_data res2 = ''[1]'' \<Longrightarrow> ?thesis" for res2
    using r(1) by (auto simp: sample_services_def)
  moreover have "fst (stns_request_available STNS_LOCK_FILE sample_conf sample_os)"
    by code_simp
  ultimately show ?thesis
    using stns_request_cached [OF _ _ _ _ l _ r(1), where t = 500 and res = sample_response
        and other = "curl_perform (sample_services 500 0 ''down'')"] p sample_os_usable r(2,3)
    by (auto simp: sample_conf_def default_conf_def ulong_def STNS_LOCK_FILE_def sample_client_def)
qed

section \<open>Credentials and the unix socket\<close>

definition with_credentials :: "string option \<Rightarrow> string option \<Rightarrow> string option \<Rightarrow> stns_user_httpheader list option \<Rightarrow>
    (string \<times> string) option \<Rightarrow> stns_conf \<Rightarrow> stns_conf" where
  "with_credentials tok usr pw hs cert c =
     c\<lparr>auth_token := tok, user := usr, password := pw, http_headers := hs,
       tls_cert := map_option fst cert, tls_key := map_option snd cert\<rparr>"

lemma with_credentials_sel [simp]:
  "cached_enable (with_credentials tok usr pw hs cert c) = cached_enable c" "cache (with_credentials tok usr pw hs cert c) = cache c"
  "cache_dir (with_credentials tok usr pw hs cert c) = cache_dir c" "query_wrapper (with_credentials tok usr pw hs cert c) = query_wrapper c"
  "request_retry (with_credentials tok usr pw hs cert c) = request_retry c" "uid_shift (with_credentials tok usr pw hs cert c) = uid_shift c"
  "gid_shift (with_credentials tok usr pw hs cert c) = gid_shift c" "request_locktime (with_credentials tok usr pw hs cert c) = request_locktime c"
  "cached_unix_socket (with_credentials tok usr pw hs cert c) = cached_unix_socket c"
  "request_timeout (with_credentials tok usr pw hs cert c) = request_timeout c"
  by (simp_all add: with_credentials_def)

lemma header_callback_credentials [simp]:
  "header_callback busy (with_credentials tok usr pw hs cert c) = header_callback busy c"
  by (intro ext) (auto simp: header_callback_def split: option.splits)

lemma run_headers_credentials [simp]: "run_headers busy (with_credentials tok usr pw hs cert c) ls st = run_headers busy c ls st"
  by (induction ls arbitrary: st) (auto split: outcome.splits)

lemma inner_request_credentials:
  "cached_enable c \<Longrightarrow> inner_http_request sv (with_credentials tok usr pw hs cert c) path res st = inner_http_request sv c path res st"
  by (simp add: inner_http_request_def curl_options_def)

lemma retry_loop_credentials:
  "cached_enable c \<Longrightarrow> retry_loop sv (with_credentials tok usr pw hs cert c) path n r res st = retry_loop sv c path n r res st"
  by (induction n arbitrary: r res st) (auto simp: inner_request_credentials split: outcome.splits)

lemma available_credentials:
  "stns_request_available f (with_credentials tok usr pw hs cert c) w = stns_request_available f c w"
  by (simp add: stns_request_available_def split: option.split)

text \<open>C12. Requests to the caching daemon carry no secret: when \<^verbatim>\<open>cached_enable\<close> is set, the whole behaviour of a request -
  result, response, files, the transfers the network sees - is the same whatever the token, the user, the password, the
  extra headers and the client certificate of the configuration are.\<close>

theorem stns_request_socket_hides_credentials:
  assumes "cached_enable c"
  shows "stns_request sv (with_credentials tok usr pw hs cert c) p res st = stns_request sv c p res st"
  using assms
  by (auto simp: stns_request_def cache_lookup_def cache_path_def cache_file_def available_credentials Let_def
      inner_request_credentials retry_loop_credentials split: option.splits outcome.splits prod.splits)

theorem stns_request_socket_hides_credentials_witness:
  "stns_request (sample_services 200 0 ''[1]'') (with_credentials (Some ''secret'') None None None None (sample_conf\<lparr>cached_enable := True\<rparr>)) (Some ''users'') sample_response sample_client
     = stns_request (sample_services 200 0 ''[1]'') (sample_conf\<lparr>cached_enable := True\<rparr>) (Some ''users'') sample_response sample_client"
  by (rule stns_request_socket_hides_credentials) simp
section \<open>Failed requests\<close>

text \<open>
  A request stores whatever the response buffer holds, also after a failure. The body of an error page
  with status 404 is served as a success by the next request: the lookup of a user that does not exist gives
  \<^verbatim>\<open>CURLE_OK\<close> with that page.
\<close>

lemma error_page_is_cached:
  "(case stns_request (sample_services 404 0 ''no such user'') sample_conf (Some ''users'') sample_response sample_client of
      Ret (r1, res1, st1) \<Rightarrow>
        (case stns_request (sample_services 404 0 ''no such user'') sample_conf (Some ''users'') sample_response st1 of
           Ret (r2, res2, st2) \<Rightarrow> r1 = CURLE_HTTP_RETURNED_ERROR \<and> res_status_code res1 = 404 \<and>
             r2 = CURLE_OK \<and> res_status_code res2 = 200 \<and> res_data res2 = ''no such user''
         | Segv \<Rightarrow> False)
    | Segv \<Rightarrow> False)"
  by code_simp

text \<open>A transfer that breaks off after part of the body is retried with that part still in the buffer (status 200, so the
  size is not reset): the second, complete body is appended to it.\<close>

lemma retry_appends_body:
  "(case stns_request
      \<lparr>curl_perform = (\<lambda>n rq. \<lparr>co_headers = [], co_segments = [if n = 0 then ''[{'' else ''[]''], co_code = 200,
                                co_result = if n = 0 then 18 else 0\<rparr>),
       curl_escape = (\<lambda>s. s), popen_output = (\<lambda>s. None), id_mutex_busy = (\<lambda>_. False)\<rparr>
      sample_conf (Some ''users'') sample_response sample_client of
      Ret (r, res, st) \<Rightarrow> r = CURLE_OK \<and> res_data res = ''[{[]''
    | Segv \<Rightarrow> False)"
  by code_simp

end
