(* ===== verification/Stns_Nss.thy ===== *)
theory Stns_Nss
  imports Stns_Request Parson_Parse
begin

text \<open>
  From a response to the structures of the C library: \<^verbatim>\<open>SET_ATTRBUTE\<close>, \<^verbatim>\<open>STNS_SET_DEFAULT_VALUE\<close> and
  \<^verbatim>\<open>STNS_ENSURE_BY\<close> of \<^verbatim>\<open>stns.h\<close> with the three entry writers \<^verbatim>\<open>PASSWD_ENSURE\<close>, \<^verbatim>\<open>GROUP_ENSURE\<close> and \<^verbatim>\<open>SHADOW_ENSURE\<close>.

  The caller lends a buffer: \<open>mem\<close> are its bytes, \<open>base\<close> its address, \<open>cur\<close> and \<open>left\<close> the moving \<^verbatim>\<open>buf\<close> and
  \<^verbatim>\<open>buflen\<close>. A pointer is an address; the pointer array of a group is stored in the bytes of the
  buffer, eight bytes per pointer, least significant byte first. Writing past the end would
  lengthen \<open>mem\<close>: that it never happens is proved.

  The enumeration state of a database (\<^verbatim>\<open>entries\<close>, \<^verbatim>\<open>entry_idx\<close> and its mutex) is the record \<open>ents\<close>, because the group writer
  releases the mutex on its error paths. \<open>bad_unlocks\<close> counts the calls of \<^verbatim>\<open>pthread_mutex_unlock\<close> on a mutex
  that the thread does not hold, which POSIX leaves undefined.
\<close>

section \<open>The caller's buffer\<close>

definition ERANGE :: int where "ERANGE = 34"
definition ENOENT :: int where "ENOENT = 2"

record 'r caller =
  mem :: string
  base :: nat
  cur :: nat
  left :: nat
  errnop :: int
  rbuf :: 'r

text \<open>The state of an enumeration. The position is a natural number; as an \<^verbatim>\<open>int\<close> it could not leave its range before 2 ^ 31 entries.\<close>

record ents =
  entries :: "json_value option"
  entry_idx :: nat
  held :: bool
  bad_unlocks :: nat

definition pthread_mutex_unlock :: "ents \<Rightarrow> ents" where
  "pthread_mutex_unlock en = (if held en then en\<lparr>held := False\<rparr> else en\<lparr>bad_unlocks := Suc (bad_unlocks en)\<rparr>)"

definition poke :: "nat \<Rightarrow> string \<Rightarrow> 'r caller \<Rightarrow> 'r caller" where
  "poke addr bytes st =
     (let off = addr - base st in
      st\<lparr>mem := take off (mem st) @ bytes @ drop (off + length bytes) (mem st)\<rparr>)"

text \<open>\<^verbatim>\<open>strncpy (dst, s, n)\<close>: the \<open>n\<close> bytes it writes\<close>

definition strncpy_bytes :: "string \<Rightarrow> nat \<Rightarrow> string" where
  "strncpy_bytes s n = take n (cstr s @ replicate n NUL)"

text \<open>The buffer is consistent: the free part is its tail.\<close>

definition wf_caller :: "'r caller \<Rightarrow> bool" where
  "wf_caller st \<longleftrightarrow> base st \<le> cur st \<and> cur st + left st \<le> base st + length (mem st)"

definition string_at :: "'r caller \<Rightarrow> nat \<Rightarrow> string" where
  "string_at st p = cstr (drop (p - base st) (mem st))"

section \<open>Attributes\<close>

text \<open>\<^verbatim>\<open>SET_ATTRBUTE\<close>: the flag tells whether the macro falls through; otherwise the function returns \<^verbatim>\<open>NSS_STATUS_TRYAGAIN\<close>.\<close>

definition SET_ATTRBUTE :: "(nat \<Rightarrow> 'r \<Rightarrow> 'r) \<Rightarrow> string option \<Rightarrow> 'r caller \<Rightarrow> bool \<times> 'r caller" where
  "SET_ATTRBUTE set_attr name st =
     (let name_value = (case name of Some s \<Rightarrow> s | None \<Rightarrow> []);
          name_length = strnlen name_value STNS_MAX_BUFFER_SIZE + 1
      in if left st < name_length then (False, st\<lparr>errnop := ERANGE\<rparr>)
         else
           let st1 = poke (cur st) (strncpy_bytes name_value name_length) st
           in (True, st1\<lparr>rbuf := set_attr (cur st) (rbuf st1), cur := cur st + name_length, left := left st - name_length\<rparr>))"

fun set_attributes :: "((nat \<Rightarrow> 'r \<Rightarrow> 'r) \<times> string option) list \<Rightarrow> 'r caller \<Rightarrow> bool \<times> 'r caller" where
  "set_attributes [] st = (True, st)"
| "set_attributes ((set_attr, v) # as) st =
     (case SET_ATTRBUTE set_attr v st of (True, st') \<Rightarrow> set_attributes as st' | (False, st') \<Rightarrow> (False, st'))"

definition STNS_SET_DEFAULT_VALUE :: "string option \<Rightarrow> string \<Rightarrow> string" where
  "STNS_SET_DEFAULT_VALUE name dflt =
     (case name of
        Some s \<Rightarrow> if strnlen s STNS_MAX_BUFFER_SIZE > 0 then snprintf_str MAXBUF s else snprintf_str MAXBUF dflt
      | None \<Rightarrow> snprintf_str MAXBUF dflt)"

section \<open>passwd\<close>

record passwd =
  pw_name :: nat
  pw_passwd :: nat
  pw_uid :: u32
  pw_gid :: u32
  pw_gecos :: nat
  pw_dir :: nat
  pw_shell :: nat

text \<open>A null pointer printed with \<^verbatim>\<open>%s\<close> is \<^verbatim>\<open>(null)\<close> in glibc.\<close>

definition printf_str :: "string option \<Rightarrow> string" where
  "printf_str s = (case s of Some t \<Rightarrow> cstr t | None \<Rightarrow> ''(null)'')"

definition PASSWD_ENSURE ::
  "stns_conf \<Rightarrow> json_value json_object option \<Rightarrow> ents \<Rightarrow> passwd caller \<Rightarrow> nss_status \<times> ents \<times> passwd caller" where
  "PASSWD_ENSURE c entry en st =
     (let uid = double_to_int (json_value_get_number (json_object_get_value entry ''id''));
          group_id = double_to_int (json_value_get_number (json_object_get_value entry ''group_id''));
          name = json_value_get_string (json_object_get_value entry ''name'');
          gecos = json_value_get_string (json_object_get_value entry ''gecos'');
          dir = json_value_get_string (json_object_get_value entry ''directory'');
          shell = json_value_get_string (json_object_get_value entry ''shell'');
          st0 = st\<lparr>rbuf := (rbuf st)\<lparr>pw_uid := uid_shift c + uid, pw_gid := gid_shift c + group_id\<rparr>\<rparr>;
          sh = STNS_SET_DEFAULT_VALUE shell ''/bin/bash'';
          b = snprintf_str MAXBUF (''/home/'' @ printf_str name);
          d = STNS_SET_DEFAULT_VALUE dir b;
          (stored, st1) = set_attributes
            [(\<lambda>p. pw_name_update (\<lambda>_. p), name), (\<lambda>p. pw_passwd_update (\<lambda>_. p), Some ''x''),
             (\<lambda>p. pw_gecos_update (\<lambda>_. p), gecos), (\<lambda>p. pw_dir_update (\<lambda>_. p), Some d),
             (\<lambda>p. pw_shell_update (\<lambda>_. p), Some sh)] st0
      in (if stored then NSS_STATUS_SUCCESS else NSS_STATUS_TRYAGAIN, en, st1))"

section \<open>shadow\<close>

record spwd =
  sp_namp :: nat
  sp_pwdp :: nat
  sp_lstchg :: int
  sp_min :: int
  sp_max :: int
  sp_warn :: int
  sp_inact :: int
  sp_expire :: int
  sp_flag :: u64

definition SHADOW_ENSURE ::
  "stns_conf \<Rightarrow> json_value json_object option \<Rightarrow> ents \<Rightarrow> spwd caller \<Rightarrow> nss_status \<times> ents \<times> spwd caller" where
  "SHADOW_ENSURE c entry en st =
     (let name = json_value_get_string (json_object_get_value entry ''name'');
          password = json_value_get_string (json_object_get_value entry ''password'');
          pw = STNS_SET_DEFAULT_VALUE password ''!!'';
          (stored, st1) = set_attributes
            [(\<lambda>p. sp_namp_update (\<lambda>_. p), name), (\<lambda>p. sp_pwdp_update (\<lambda>_. p), Some pw)] st
      in if stored
         then (NSS_STATUS_SUCCESS, en,
               st1\<lparr>rbuf := (rbuf st1)\<lparr>sp_lstchg := - 1, sp_min := - 1, sp_max := - 1, sp_warn := - 1, sp_inact := - 1,
                                      sp_expire := - 1, sp_flag := - 1\<rparr>\<rparr>)
         else (NSS_STATUS_TRYAGAIN, en, st1))"

section \<open>group\<close>

record group =
  gr_name :: nat
  gr_passwd :: nat
  gr_gid :: u32
  gr_mem :: nat

fun le_bytes :: "nat \<Rightarrow> nat \<Rightarrow> string" where
  "le_bytes 0 n = []"
| "le_bytes (Suc k) n = char_of n # le_bytes k (n div 256)"

fun le_value :: "string \<Rightarrow> nat" where
  "le_value [] = 0"
| "le_value (c # s) = code c + 256 * le_value s"

text \<open>\<^verbatim>\<open>gr_mem[i] = p\<close> and reading it\<close>

definition poke_ptr :: "nat \<Rightarrow> nat \<Rightarrow> nat \<Rightarrow> 'r caller \<Rightarrow> 'r caller" where
  "poke_ptr arr i p st = poke (arr + 8 * i) (le_bytes 8 p) st"

definition ptr_at :: "'r caller \<Rightarrow> nat \<Rightarrow> nat \<Rightarrow> nat" where
  "ptr_at st arr i = le_value (take 8 (drop (arr + 8 * i - base st) (mem st)))"

text \<open>\<^verbatim>\<open>int ptr_area_size\<close>, converted to \<^verbatim>\<open>size_t\<close> where it is used\<close>

definition ptr_area_size :: "nat \<Rightarrow> nat" where
  "ptr_area_size n = unat (ulong (word_of_nat ((n + 1) * 8)))"

text \<open>The loop over the members; \<open>i\<close> is the index of the first of them, \<open>next_member\<close> is \<open>cur\<close>. The flag tells whether all were stored.\<close>

fun set_members :: "json_value list \<Rightarrow> nat \<Rightarrow> group caller \<Rightarrow> bool \<times> group caller" where
  "set_members [] i st = (True, st)"
| "set_members (v # vs) i st =
     (case json_value_get_string (Some v) of
        None \<Rightarrow> set_members vs (i + 1) st
      | Some member \<Rightarrow>
          let user_length = strnlen member STNS_MAX_BUFFER_SIZE + 1 in
          if left st < user_length then (False, st\<lparr>errnop := ERANGE\<rparr>)
          else
            let st1 = poke (cur st) (strncpy_bytes member user_length) st;
                st2 = poke_ptr (gr_mem (rbuf st)) i (cur st) st1
            in set_members vs (i + 1) (st2\<lparr>cur := cur st + user_length, left := left st - user_length\<rparr>))"

definition members_of :: "json_value json_object option \<Rightarrow> json_value list" where
  "members_of entry = (case json_object_get_array entry ''users'' of Some a \<Rightarrow> arr_items a | None \<Rightarrow> [])"

definition GROUP_ENSURE ::
  "stns_conf \<Rightarrow> json_value json_object option \<Rightarrow> ents \<Rightarrow> group caller \<Rightarrow> nss_status \<times> ents \<times> group caller" where
  "GROUP_ENSURE c entry en st =
     (let gid = double_to_int (json_value_get_number (json_object_get_value entry ''id''));
          name = json_value_get_string (json_object_get_value entry ''name'')
      in if name = None then (NSS_STATUS_NOTFOUND, pthread_mutex_unlock en, st)
         else
           let st0 = st\<lparr>rbuf := (rbuf st)\<lparr>gr_gid := gid_shift c + gid\<rparr>\<rparr>;
               (stored, st1) = set_attributes
                 [(\<lambda>p. gr_name_update (\<lambda>_. p), name), (\<lambda>p. gr_passwd_update (\<lambda>_. p), Some ''x'')] st0
           in if \<not> stored then (NSS_STATUS_TRYAGAIN, en, st1)
              else
                let arr = cur st1; st2 = st1\<lparr>rbuf := (rbuf st1)\<lparr>gr_mem := arr\<rparr>\<rparr>;
                    members = members_of entry; area = ptr_area_size (length members)
                in if left st2 < area then (NSS_STATUS_TRYAGAIN, pthread_mutex_unlock en, st2\<lparr>errnop := ERANGE\<rparr>)
                   else
                     let (all, st3) = set_members members 0 (st2\<lparr>cur := arr + area, left := left st2 - area\<rparr>)
                     in if \<not> all then (NSS_STATUS_TRYAGAIN, pthread_mutex_unlock en, st3)
                        else (NSS_STATUS_SUCCESS, en, poke_ptr arr (length members) 0 st3))"

section \<open>Looking an entry up\<close>

text \<open>\<^verbatim>\<open>STNS_ENSURE_BY\<close>: the loop over the elements of the response, for a match condition and an entry writer.\<close>

fun ensure_loop ::
  "(json_value json_object \<Rightarrow> bool outcome) \<Rightarrow> (json_value json_object option \<Rightarrow> 's \<Rightarrow> nss_status \<times> 's) \<Rightarrow>
    json_value list \<Rightarrow> 's \<Rightarrow> (nss_status \<times> 's) outcome" where
  "ensure_loop matches write_entry [] s = Ret (NSS_STATUS_NOTFOUND, s)"
| "ensure_loop matches write_entry (v # vs) s =
     (case json_value_get_object (Some v) of
        None \<Rightarrow> ensure_loop matches write_entry vs s
      | Some leaf \<Rightarrow>
          (case matches leaf of
             Segv \<Rightarrow> Segv
           | Ret m \<Rightarrow> if m then Ret (write_entry (Some leaf) s) else ensure_loop matches write_entry vs s))"

definition STNS_ENSURE_BY ::
  "(json_value json_object \<Rightarrow> bool outcome) \<Rightarrow> (json_value json_object option \<Rightarrow> 's \<Rightarrow> nss_status \<times> 's) \<Rightarrow>
    string \<Rightarrow> 's \<Rightarrow> (nss_status \<times> 's) outcome" where
  "STNS_ENSURE_BY matches write_entry data s =
     (case json_parse_string (Some data) of
        None \<Rightarrow> Ret (NSS_STATUS_UNAVAIL, s)
      | Some doc \<Rightarrow>
          ensure_loop matches write_entry
            (case json_value_get_array (Some doc) of Some a \<Rightarrow> arr_items a | None \<Rightarrow> []) s)"

text \<open>\<^verbatim>\<open>strcmp (current, name) == 0\<close> and \<^verbatim>\<open>current + shift == id\<close>\<close>

definition match_name :: "string \<Rightarrow> json_value json_object \<Rightarrow> bool outcome" where
  "match_name name leaf =
     (case json_object_get_string (Some leaf) ''name'' of None \<Rightarrow> Segv | Some current \<Rightarrow> Ret (strcmp_eq current name))"

definition match_id :: "i32 \<Rightarrow> u32 \<Rightarrow> json_value json_object \<Rightarrow> bool outcome" where
  "match_id shift key leaf = Ret (double_to_uint (json_object_get_number (Some leaf) ''id'') + shift = key)"

definition ensure_passwd_by_name ::
  "string \<Rightarrow> stns_conf \<Rightarrow> string \<Rightarrow> ents \<times> passwd caller \<Rightarrow> (nss_status \<times> ents \<times> passwd caller) outcome" where
  "ensure_passwd_by_name data c user_name = STNS_ENSURE_BY (match_name user_name) (\<lambda>e (en, st). PASSWD_ENSURE c e en st) data"

definition ensure_passwd_by_uid ::
  "string \<Rightarrow> stns_conf \<Rightarrow> u32 \<Rightarrow> ents \<times> passwd caller \<Rightarrow> (nss_status \<times> ents \<times> passwd caller) outcome" where
  "ensure_passwd_by_uid data c uid = STNS_ENSURE_BY (match_id (uid_shift c) uid) (\<lambda>e (en, st). PASSWD_ENSURE c e en st) data"

definition ensure_group_by_name ::
  "string \<Rightarrow> stns_conf \<Rightarrow> string \<Rightarrow> ents \<times> group caller \<Rightarrow> (nss_status \<times> ents \<times> group caller) outcome" where
  "ensure_group_by_name data c group_name = STNS_ENSURE_BY (match_name group_name) (\<lambda>e (en, st). GROUP_ENSURE c e en st) data"

definition ensure_group_by_gid ::
  "string \<Rightarrow> stns_conf \<Rightarrow> u32 \<Rightarrow> ents \<times> group caller \<Rightarrow> (nss_status \<times> ents \<times> group caller) outcome" where
  "ensure_group_by_gid data c gid = STNS_ENSURE_BY (match_id (gid_shift c) gid) (\<lambda>e (en, st). GROUP_ENSURE c e en st) data"

definition ensure_spwd_by_name ::
  "string \<Rightarrow> stns_conf \<Rightarrow> string \<Rightarrow> ents \<times> spwd caller \<Rightarrow> (nss_status \<times> ents \<times> spwd caller) outcome" where
  "ensure_spwd_by_name data c user_name = STNS_ENSURE_BY (match_name user_name) (\<lambda>e (en, st). SHADOW_ENSURE c e en st) data"

definition ensure_spwd_by_uid ::
  "string \<Rightarrow> stns_conf \<Rightarrow> u32 \<Rightarrow> ents \<times> spwd caller \<Rightarrow> (nss_status \<times> ents \<times> spwd caller) outcome" where
  "ensure_spwd_by_uid data c uid = STNS_ENSURE_BY (match_id (uid_shift c) uid) (\<lambda>e (en, st). SHADOW_ENSURE c e en st) data"

end
