(* ===== verification/Stns_Writers.thy ===== *)
theory Stns_Writers
  imports Stns_Nss
begin

text \<open>
  What the three entry writers do to the caller's buffer. \<open>holds\<close> says that a string lies in the buffer, \<open>grown\<close> that only the free part
  has changed; \<open>read_passwd\<close>, \<open>read_group\<close> and \<open>read_shadow\<close> read the structure back through its pointers, and the specifications
  \<open>passwd_spec\<close>, \<open>group_spec\<close> and \<open>shadow_spec\<close> say what a JSON object describes. The main lemmas (\<open>PASSWD_ENSURE_spec\<close>,
  \<open>GROUP_ENSURE_spec\<close>, \<open>SHADOW_ENSURE_spec\<close>) give the status as a function of the buffer size and the stored entry.
\<close>

section \<open>Memory lemmas\<close>

text \<open>\<open>holds st p s\<close>: the string \<open>s\<close> with its terminator lies at address \<open>p\<close>, inside the buffer.\<close>

definition holds :: "'r caller \<Rightarrow> nat \<Rightarrow> string \<Rightarrow> bool" where
  "holds st p s \<longleftrightarrow> base st \<le> p \<and> no_nul s \<and> take (length s + 1) (drop (p - base st) (mem st)) = s @ [NUL]"

text \<open>\<open>grown st st'\<close>: only the bytes of the free part may have changed, and some of it was used up.\<close>

definition grown :: "'r caller \<Rightarrow> 'r caller \<Rightarrow> bool" where
  "grown st st' \<longleftrightarrow> base st' = base st \<and> length (mem st') = length (mem st) \<and> cur st \<le> cur st' \<and>
     cur st' + left st' = cur st + left st \<and>
     (\<forall>i < length (mem st). i < cur st - base st \<or> cur st + left st - base st \<le> i \<longrightarrow> mem st' ! i = mem st ! i)"

lemma length_strncpy [simp]: "length (strncpy_bytes s n) = n"
  by (simp add: strncpy_bytes_def)

lemma strncpy_short: "length (cstr s) \<le> m \<Longrightarrow> strncpy_bytes s (strnlen s m + 1) = cstr s @ [NUL]"
  by (simp add: strncpy_bytes_def strnlen_def min_def)

lemma holds_string: "holds st p s \<Longrightarrow> string_at st p = s"
proof -
  assume h: "holds st p s"
  let ?d = "drop (p - base st) (mem st)"
  have "?d = (s @ [NUL]) @ drop (length s + 1) ?d"
    using h append_take_drop_id [of "length s + 1" ?d] by (simp add: holds_def)
  then have "cstr ?d = cstr (s @ NUL # drop (length s + 1) ?d)"
    by (metis append.assoc append_Cons append_Nil)
  then show ?thesis
    using h by (simp add: holds_def string_at_def cstr_append_nul)
qed

lemma poke_sel [simp]: "base (poke p s st) = base st" "cur (poke p s st) = cur st" "left (poke p s st) = left st"
  "errnop (poke p s st) = errnop st" "rbuf (poke p s st) = rbuf st"
  by (simp_all add: poke_def Let_def)

lemma poke_mem:
  assumes "base st \<le> p" "p + length s \<le> base st + length (mem st)"
  shows "length (mem (poke p s st)) = length (mem st)"
    and "i < length (mem st) \<Longrightarrow>
      mem (poke p s st) ! i = (if p - base st \<le> i \<and> i < p - base st + length s then s ! (i - (p - base st)) else mem st ! i)"
  using assms by (auto simp: poke_def Let_def nth_append min_def)

lemma poke_holds:
  assumes "base st \<le> p" "p + length s + 1 \<le> base st + length (mem st)" "no_nul s"
  shows "holds (poke p (s @ [NUL]) st) p s"
  using assms by (auto simp: holds_def poke_def Let_def)

lemma holds_nth:
  "holds st p s \<longleftrightarrow> base st \<le> p \<and> no_nul s \<and> p + length s < base st + length (mem st) \<and>
     (\<forall>i \<le> length s. mem st ! (p - base st + i) = (s @ [NUL]) ! i)"
proof -
  have "take (length s + 1) (drop (p - base st) (mem st)) = s @ [NUL] \<longleftrightarrow>
      p - base st + length s < length (mem st) \<and> (\<forall>i \<le> length s. mem st ! (p - base st + i) = (s @ [NUL]) ! i)"
    if "base st \<le> p"
    unfolding list_eq_iff_nth_eq by (auto simp: less_Suc_eq_le min_def split: if_splits)
  then show ?thesis by (auto simp: holds_def)
qed

lemma grown_refl [simp]: "grown st st"
  by (simp add: grown_def)

lemma grown_trans: "grown a b \<Longrightarrow> grown b c \<Longrightarrow> base a \<le> cur a \<Longrightarrow> grown a c"
  unfolding grown_def by (auto simp: le_diff_conv less_diff_conv)

lemma grown_holds: "grown st st' \<Longrightarrow> holds st p s \<Longrightarrow> p + length s < cur st \<Longrightarrow> holds st' p s"
  unfolding holds_nth grown_def by (auto simp: less_diff_conv)

lemma grown_wf: "grown st st' \<Longrightarrow> wf_caller st \<Longrightarrow> wf_caller st'"
  by (auto simp: grown_def wf_caller_def)

lemma grown_update: "wf_caller st \<Longrightarrow> length s \<le> left st \<Longrightarrow> n = length s \<Longrightarrow>
    grown st ((poke (cur st) s st)\<lparr>rbuf := r, cur := cur st + n, left := left st - n\<rparr>)"
  using poke_mem [of st "cur st" s] by (auto simp: grown_def wf_caller_def)

section \<open>Attributes\<close>

definition attr_value :: "string option \<Rightarrow> string" where
  "attr_value v = (case v of Some s \<Rightarrow> s | None \<Rightarrow> [])"

definition attr_len :: "string option \<Rightarrow> nat" where
  "attr_len v = strnlen (attr_value v) STNS_MAX_BUFFER_SIZE + 1"

definition attrs_len :: "('f \<times> string option) list \<Rightarrow> nat" where
  "attrs_len as = sum_list (map (\<lambda>a. attr_len (snd a)) as)"

definition short :: "string option \<Rightarrow> bool" where
  "short v \<longleftrightarrow> length (cstr (attr_value v)) \<le> STNS_MAX_BUFFER_SIZE"

fun set_all :: "((nat \<Rightarrow> 'r \<Rightarrow> 'r) \<times> string option) list \<Rightarrow> nat \<Rightarrow> 'r \<Rightarrow> 'r" where
  "set_all [] p r = r"
| "set_all ((f, v) # as) p r = set_all as (p + attr_len v) (f p r)"

fun all_hold :: "((nat \<Rightarrow> 'r \<Rightarrow> 'r) \<times> string option) list \<Rightarrow> nat \<Rightarrow> 'r caller \<Rightarrow> bool" where
  "all_hold [] p st = True"
| "all_hold ((f, v) # as) p st = ((short v \<longrightarrow> holds st p (cstr (attr_value v))) \<and> all_hold as (p + attr_len v) st)"

lemma SET_ATTRBUTE_alt: "SET_ATTRBUTE f v st =
    (if left st < attr_len v then (False, st\<lparr>errnop := ERANGE\<rparr>)
     else (True, (poke (cur st) (strncpy_bytes (attr_value v) (attr_len v)) st)
        \<lparr>rbuf := f (cur st) (rbuf st), cur := cur st + attr_len v, left := left st - attr_len v\<rparr>))"
  by (simp add: SET_ATTRBUTE_def attr_len_def attr_value_def Let_def)

lemma short_len: "short v \<Longrightarrow> attr_len v = length (cstr (attr_value v)) + 1"
  by (simp add: short_def attr_len_def strnlen_def min_def)

lemma set_attribute_ok:
  assumes "wf_caller st" "attr_len v \<le> left st" "SET_ATTRBUTE f v st = (b, st')"
  shows "b \<and> grown st st' \<and> rbuf st' = f (cur st) (rbuf st) \<and> cur st' = cur st + attr_len v \<and> left st' = left st - attr_len v \<and>
    errnop st' = errnop st \<and> (short v \<longrightarrow> holds st' (cur st) (cstr (attr_value v)))"
proof -
  let ?s = "strncpy_bytes (attr_value v) (attr_len v)"
  have st': "b" "st' = (poke (cur st) ?s st)\<lparr>rbuf := f (cur st) (rbuf st), cur := cur st + attr_len v, left := left st - attr_len v\<rparr>"
    using assms(2,3) by (auto simp: SET_ATTRBUTE_alt)
  have "holds st' (cur st) (cstr (attr_value v))" if s: "short v"
  proof -
    have "?s = cstr (attr_value v) @ [NUL]"
      using s strncpy_short [of "attr_value v" STNS_MAX_BUFFER_SIZE] by (simp add: attr_len_def short_def)
    moreover have "holds (poke (cur st) (cstr (attr_value v) @ [NUL]) st) (cur st) (cstr (attr_value v))"
      using assms(1,2) short_len [OF s] by (intro poke_holds) (auto simp: wf_caller_def)
    ultimately show ?thesis
      using st' by (simp add: holds_def)
  qed
  then show ?thesis
    using st' grown_update [OF assms(1), of ?s] assms(2) by simp
qed

lemma attrs_len_Cons [simp]: "attrs_len ((f, v) # as) = attr_len v + attrs_len as" "attrs_len [] = 0"
  by (simp_all add: attrs_len_def)

lemma all_hold_grown:
  "grown st st' \<Longrightarrow> all_hold as p st \<Longrightarrow> p + attrs_len as \<le> cur st \<Longrightarrow> all_hold as p st'"
proof (induction as p st rule: all_hold.induct)
  case (2 f v as p st)
  then show ?case
    using grown_holds [OF 2(2), of p "cstr (attr_value v)"] short_len [of v] by auto
qed simp

lemma set_attributes_ok:
  assumes "wf_caller st" "attrs_len as \<le> left st"
  shows "\<exists>st'. set_attributes as st = (True, st') \<and> grown st st' \<and> rbuf st' = set_all as (cur st) (rbuf st) \<and>
    cur st' = cur st + attrs_len as \<and> left st' = left st - attrs_len as \<and> errnop st' = errnop st \<and> all_hold as (cur st) st'"
  using assms
proof (induction as arbitrary: st)
  case (Cons a as)
  obtain f v where a: "a = (f, v)" by force
  obtain b st1 where s1: "SET_ATTRBUTE f v st = (b, st1)" by force
  note o = set_attribute_ok [OF Cons.prems(1) _ s1]
  have len: "attr_len v \<le> left st" using Cons.prems(2) a by simp
  note o = o [OF len]
  have rest: "attrs_len as \<le> left st1" using o Cons.prems(2) a by simp
  obtain st2 where s2: "set_attributes as st1 = (True, st2)" "grown st1 st2" "rbuf st2 = set_all as (cur st1) (rbuf st1)"
    "cur st2 = cur st1 + attrs_len as" "left st2 = left st1 - attrs_len as" "errnop st2 = errnop st1" "all_hold as (cur st1) st2"
    using Cons.IH [OF grown_wf [OF _ Cons.prems(1)], of st1] o rest by blast
  moreover have "grown st st2"
    using grown_trans [of st st1 st2] o s2(2) Cons.prems(1) by (simp add: wf_caller_def)
  moreover have "short v \<longrightarrow> holds st2 (cur st) (cstr (attr_value v))"
    using o grown_holds [OF s2(2), of "cur st"] short_len [of v] by auto
  ultimately show ?case
    using o s1 a by auto
qed simp

lemma set_attributes_fail:
  assumes "wf_caller st" "left st < attrs_len as"
  shows "\<exists>st'. set_attributes as st = (False, st') \<and> grown st st' \<and> errnop st' = ERANGE"
  using assms
proof (induction as arbitrary: st)
  case (Cons a as)
  obtain f v where a: "a = (f, v)" by force
  show ?case
  proof (cases "left st < attr_len v")
    case True
    then show ?thesis
      by (auto simp: a SET_ATTRBUTE_alt grown_def)
  next
    case False
    obtain b st1 where s1: "SET_ATTRBUTE f v st = (b, st1)" by force
    have o: "b" "grown st st1" "left st1 = left st - attr_len v"
      using set_attribute_ok [OF Cons.prems(1) _ s1] False by auto
    have "left st1 < attrs_len as"
      using Cons.prems(2) a o False by simp
    with o show ?thesis
      using Cons.IH [OF grown_wf [OF o(2) Cons.prems(1)]] Cons.prems(1) s1 grown_trans [OF o(2)] a
      by (auto simp: wf_caller_def)
  qed
qed simp

lemma set_attributes_cases:
  assumes "wf_caller st" "set_attributes as st = (b, st')"
  shows "(b \<longleftrightarrow> attrs_len as \<le> left st) \<and> grown st st' \<and> (\<not> b \<longrightarrow> errnop st' = ERANGE) \<and>
    (b \<longrightarrow> rbuf st' = set_all as (cur st) (rbuf st) \<and> cur st' = cur st + attrs_len as \<and> left st' = left st - attrs_len as \<and>
       errnop st' = errnop st \<and> all_hold as (cur st) st')"
  using set_attributes_ok [OF assms(1), of as] set_attributes_fail [OF assms(1), of as] assms(2)
  by (cases "attrs_len as \<le> left st") auto

section \<open>What the writers store\<close>

record passwd_entry =
  e_name :: string
  e_passwd :: string
  e_uid :: u32
  e_gid :: u32
  e_gecos :: string
  e_dir :: string
  e_shell :: string

definition or_default :: "string \<Rightarrow> string \<Rightarrow> string" where
  "or_default s d = take 1023 (if s = [] then d else s)"

definition text_of :: "json_value json_object option \<Rightarrow> string \<Rightarrow> string" where
  "text_of entry key = cstr (attr_value (json_object_get_string entry key))"

text \<open>The account a JSON object describes, and the one a caller reads from the structure.\<close>

definition passwd_spec :: "stns_conf \<Rightarrow> json_value json_object option \<Rightarrow> passwd_entry" where
  "passwd_spec c entry =
     \<lparr>e_name = text_of entry ''name'', e_passwd = ''x'',
      e_uid = uid_shift c + double_to_int (json_object_get_number entry ''id''),
      e_gid = gid_shift c + double_to_int (json_object_get_number entry ''group_id''),
      e_gecos = text_of entry ''gecos'',
      e_dir = or_default (text_of entry ''directory'')
                (take 1023 (''/home/'' @ printf_str (json_object_get_string entry ''name''))),
      e_shell = or_default (text_of entry ''shell'') ''/bin/bash''\<rparr>"

definition read_passwd :: "passwd caller \<Rightarrow> passwd_entry" where
  "read_passwd st =
     \<lparr>e_name = string_at st (pw_name (rbuf st)), e_passwd = string_at st (pw_passwd (rbuf st)),
      e_uid = pw_uid (rbuf st), e_gid = pw_gid (rbuf st),
      e_gecos = string_at st (pw_gecos (rbuf st)), e_dir = string_at st (pw_dir (rbuf st)),
      e_shell = string_at st (pw_shell (rbuf st))\<rparr>"

definition passwd_need :: "passwd_entry \<Rightarrow> nat" where
  "passwd_need e = length (e_name e) + length (e_passwd e) + length (e_gecos e) + length (e_dir e) + length (e_shell e) + 5"

lemma default_value: "STNS_SET_DEFAULT_VALUE v d = or_default (cstr (attr_value v)) (cstr d)"
  by (cases v) (auto simp: STNS_SET_DEFAULT_VALUE_def or_default_def snprintf_str_def attr_value_def strnlen_def MAXBUF_def
      STNS_MAX_BUFFER_SIZE_def)

lemma no_nul_or_default [simp]: "no_nul s \<Longrightarrow> no_nul d \<Longrightarrow> no_nul (or_default s d)"
  by (simp add: or_default_def)

lemma length_or_default: "length (or_default s d) \<le> 1023"
  by (simp add: or_default_def)

lemma short_Some: "length s \<le> 1023 \<Longrightarrow> short (Some s)"
  using length_cstr_le [of s] by (simp add: short_def attr_value_def STNS_MAX_BUFFER_SIZE_def del: length_cstr_le)

lemma no_nul_printf [simp]: "no_nul (printf_str v)"
  by (simp add: printf_str_def split: option.split)

lemma attr_value_Some [simp]: "attr_value (Some s) = s"
  by (simp add: attr_value_def)

lemma PASSWD_ENSURE_spec:
  assumes "wf_caller st" "PASSWD_ENSURE c entry en st = (s, en', st')"
    and "short (json_object_get_string entry ''name'')" "short (json_object_get_string entry ''gecos'')"
  shows "s = (if passwd_need (passwd_spec c entry) \<le> left st then NSS_STATUS_SUCCESS else NSS_STATUS_TRYAGAIN) \<and>
    (s = NSS_STATUS_SUCCESS \<longrightarrow> read_passwd st' = passwd_spec c entry \<and> errnop st' = errnop st)"
proof -
  let ?nm = "json_object_get_string entry ''name''" and ?ge = "json_object_get_string entry ''gecos''"
  let ?d = "e_dir (passwd_spec c entry)" and ?sh = "e_shell (passwd_spec c entry)"
  let ?as = "[(\<lambda>p. pw_name_update (\<lambda>_. p), ?nm), (\<lambda>p. pw_passwd_update (\<lambda>_. p), Some ''x''),
     (\<lambda>p. pw_gecos_update (\<lambda>_. p), ?ge), (\<lambda>p. pw_dir_update (\<lambda>_. p), Some ?d), (\<lambda>p. pw_shell_update (\<lambda>_. p), Some ?sh)]"
  let ?st0 = "st\<lparr>rbuf := (rbuf st)\<lparr>pw_uid := e_uid (passwd_spec c entry), pw_gid := e_gid (passwd_spec c entry)\<rparr>\<rparr>"
  obtain b st1 where s1: "set_attributes ?as ?st0 = (b, st1)" by force
  have d: "STNS_SET_DEFAULT_VALUE (json_object_get_string entry ''directory'')
      (snprintf_str MAXBUF (''/home/'' @ printf_str ?nm)) = ?d"
    by (simp add: default_value passwd_spec_def text_of_def snprintf_str_def MAXBUF_def)
  have sh: "STNS_SET_DEFAULT_VALUE (json_object_get_string entry ''shell'') ''/bin/bash'' = ?sh"
    by (simp add: default_value passwd_spec_def text_of_def)
  have uid: "e_uid (passwd_spec c entry) = uid_shift c + double_to_int (json_value_get_number (json_object_get_value entry ''id''))"
    "e_gid (passwd_spec c entry) = gid_shift c + double_to_int (json_value_get_number (json_object_get_value entry ''group_id''))"
    by (simp_all add: passwd_spec_def json_object_get_number_def)
  have out: "s = (if b then NSS_STATUS_SUCCESS else NSS_STATUS_TRYAGAIN)" "st' = st1"
    using assms(2) s1
    unfolding PASSWD_ENSURE_def Let_def d [unfolded json_object_get_string_def] sh [unfolded json_object_get_string_def]
    by (auto simp: uid json_object_get_string_def simp del: set_attributes.simps)
  have nn: "no_nul ?d" "no_nul ?sh" "length ?d \<le> 1023" "length ?sh \<le> 1023"
    by (simp_all add: passwd_spec_def text_of_def length_or_default)
  have sx: "short (Some ''x'')" "short (Some ?d)" "short (Some ?sh)"
    using nn by (auto intro: short_Some)
  note shorts = assms(3,4) sx
  have need: "attrs_len ?as = passwd_need (passwd_spec c entry)"
    using shorts [THEN short_len] nn(1,2) by (simp add: passwd_need_def) (simp add: passwd_spec_def text_of_def)
  note r = set_attributes_cases [OF _ s1]
  have "wf_caller ?st0" using assms(1) by (simp add: wf_caller_def)
  note r = r [OF this, unfolded need]
  have "read_passwd st1 = passwd_spec c entry" if b
    using r that shorts nn by (auto simp: read_passwd_def holds_string) (simp add: passwd_spec_def text_of_def)
  with r out show ?thesis by auto
qed

section \<open>The pointer array of a group\<close>

lemma le_value_bytes: "le_value (le_bytes k n) = n mod 256 ^ k"
  by (induction k arbitrary: n) (simp_all add: mod_mult2_eq)

lemma length_le_bytes [simp]: "length (le_bytes k n) = k"
  by (induction k arbitrary: n) simp_all

lemma poke_ptr_sel [simp]: "base (poke_ptr a i p st) = base st" "cur (poke_ptr a i p st) = cur st" "left (poke_ptr a i p st) = left st"
  "errnop (poke_ptr a i p st) = errnop st" "rbuf (poke_ptr a i p st) = rbuf st"
  by (simp_all add: poke_ptr_def)

lemma ptr_at_poke:
  assumes "base st \<le> a" "a + 8 * i + 8 \<le> base st + length (mem st)" "p < 2 ^ 64"
  shows "ptr_at (poke_ptr a i p st) a i = p"
proof -
  have "take 8 (drop (a + 8 * i - base st) (mem (poke_ptr a i p st))) = le_bytes 8 p"
    using assms by (simp add: poke_ptr_def poke_def Let_def)
  then show ?thesis
    using assms(3) by (simp add: ptr_at_def le_value_bytes)
qed

lemma ptr_at_cong:
  assumes "base st' = base st" "length (mem st') = length (mem st)" "base st \<le> a" "a + 8 * i + 8 \<le> base st + length (mem st)"
    and "\<And>k. a + 8 * i - base st \<le> k \<Longrightarrow> k < a + 8 * i + 8 - base st \<Longrightarrow> mem st' ! k = mem st ! k"
  shows "ptr_at st' a i = ptr_at st a i"
proof -
  have "take 8 (drop (a + 8 * i - base st) (mem st')) = take 8 (drop (a + 8 * i - base st) (mem st))"
    using assms by (intro nth_equalityI) auto
  then show ?thesis using assms(1) by (simp add: ptr_at_def)
qed

lemma holds_cong:
  assumes "base st' = base st" "length (mem st') = length (mem st)" "holds st p s"
    and "\<And>k. p - base st \<le> k \<Longrightarrow> k \<le> p + length s - base st \<Longrightarrow> mem st' ! k = mem st ! k"
  shows "holds st' p s"
  using assms by (auto simp: holds_nth)

lemma ulong_small:
  assumes "m < 2 ^ 31"
  shows "unat (ulong (word_of_nat m)) = m"
proof -
  have "sint (word_of_int (int m) :: i32) = int m"
    using assms by (simp add: int_word_sint del: of_int_of_nat_eq)
  then have "ulong (word_of_nat m) = word_of_int (int m)"
    unfolding ulong_def scast_eq by simp
  then show ?thesis
    using assms by (simp add: unat_of_nat)
qed

lemma ptr_area: "n < 2 ^ 28 - 1 \<Longrightarrow> ptr_area_size n = 8 * n + 8"
  unfolding ptr_area_size_def by (subst ulong_small) simp_all


text \<open>\<open>kept lo st st'\<close>: the bytes below \<open>lo\<close> and those behind the free part are unchanged.\<close>

definition kept :: "nat \<Rightarrow> 'r caller \<Rightarrow> 'r caller \<Rightarrow> bool" where
  "kept lo st st' \<longleftrightarrow> base st' = base st \<and> length (mem st') = length (mem st) \<and> cur st \<le> cur st' \<and>
     cur st' + left st' = cur st + left st \<and>
     (\<forall>i < length (mem st). i < lo - base st \<or> cur st + left st - base st \<le> i \<longrightarrow> mem st' ! i = mem st ! i)"

lemma kept_trans: "kept lo a b \<Longrightarrow> kept lo b c \<Longrightarrow> kept lo a c"
  by (auto simp: kept_def)

text \<open>The array \<open>arr\<close> has room for \<open>n\<close> pointers in front of the free part.\<close>

definition array_ok :: "nat \<Rightarrow> nat \<Rightarrow> group caller \<Rightarrow> bool" where
  "array_ok arr n st \<longleftrightarrow> wf_caller st \<and> gr_mem (rbuf st) = arr \<and> base st \<le> arr \<and> arr + 8 * n \<le> cur st"

definition store_member :: "string \<Rightarrow> nat \<Rightarrow> group caller \<Rightarrow> group caller" where
  "store_member s i st =
     (let n = strnlen s STNS_MAX_BUFFER_SIZE + 1 in
      (poke_ptr (gr_mem (rbuf st)) i (cur st) (poke (cur st) (strncpy_bytes s n) st))
        \<lparr>cur := cur st + n, left := left st - n\<rparr>)"

lemma set_members_Cons: "set_members (v # vs) i st =
    (case json_value_get_string (Some v) of
       None \<Rightarrow> set_members vs (i + 1) st
     | Some s \<Rightarrow> if left st < attr_len (Some s) then (False, st\<lparr>errnop := ERANGE\<rparr>)
                else set_members vs (i + 1) (store_member s i st))"
  by (simp add: store_member_def attr_len_def Let_def split: option.split)

lemma store_member_sel [simp]:
  "base (store_member s i st) = base st" "rbuf (store_member s i st) = rbuf st" "errnop (store_member s i st) = errnop st"
  "cur (store_member s i st) = cur st + attr_len (Some s)" "left (store_member s i st) = left st - attr_len (Some s)"
  by (simp_all add: store_member_def Let_def attr_len_def)

lemma store_member_mem:
  assumes "array_ok arr n st" "i < n" "attr_len (Some s) \<le> left st"
  shows "length (mem (store_member s i st)) = length (mem st)"
    and "k < length (mem st) \<Longrightarrow> \<not> (arr + 8 * i \<le> base st + k \<and> base st + k < arr + 8 * i + 8) \<Longrightarrow>
      base st + k < cur st \<or> cur st + attr_len (Some s) \<le> base st + k \<Longrightarrow> mem (store_member s i st) ! k = mem st ! k"
    and "base st + length (mem st) < 2 ^ 64 \<Longrightarrow> ptr_at (store_member s i st) arr i = cur st"
    and "short (Some s) \<Longrightarrow> holds (store_member s i st) (cur st) (cstr s)"
proof -
  let ?n = "attr_len (Some s)"
  let ?b = "strncpy_bytes s ?n"
  let ?st1 = "poke (cur st) ?b st"
  have ok: "base st \<le> cur st" "cur st + ?n \<le> base st + length (mem st)" "base st \<le> arr" "arr + 8 * i + 8 \<le> cur st" "gr_mem (rbuf st) = arr"
    using assms by (auto simp: array_ok_def wf_caller_def)
  have st': "store_member s i st = (poke_ptr arr i (cur st) ?st1)\<lparr>cur := cur st + ?n, left := left st - ?n\<rparr>"
    using ok(5) by (simp add: store_member_def attr_len_def Let_def)
  note m1 = poke_mem [of st "cur st" ?b, unfolded length_strncpy, OF ok(1,2)]
  have "arr + 8 * i + 8 \<le> base ?st1 + length (mem ?st1)"
    using ok m1(1) by simp
  note m2 = poke_mem [of ?st1 "arr + 8 * i" "le_bytes 8 (cur st)", unfolded length_le_bytes, OF _ this]
  show "length (mem (store_member s i st)) = length (mem st)"
    using m1(1) m2(1) ok by (simp add: st' poke_ptr_def)
  show nth: "mem (store_member s i st) ! k = mem st ! k"
    if "k < length (mem st)" "\<not> (arr + 8 * i \<le> base st + k \<and> base st + k < arr + 8 * i + 8)"
      "base st + k < cur st \<or> cur st + ?n \<le> base st + k" for k
    using that m1 m2(2) [of k] ok by (auto simp: st' poke_ptr_def)
  show "ptr_at (store_member s i st) arr i = cur st" if "base st + length (mem st) < 2 ^ 64"
    using ptr_at_poke [of ?st1 arr i "cur st"] ok m1(1) that by (simp add: st' ptr_at_def)
  show "holds (store_member s i st) (cur st) (cstr s)" if sh: "short (Some s)"
  proof -
    have b: "?b = cstr s @ [NUL]"
      using sh strncpy_short [of s STNS_MAX_BUFFER_SIZE] by (simp add: attr_len_def short_def)
    have n: "?n = length (cstr s) + 1" using short_len [OF sh] by simp
    have h: "holds ?st1 (cur st) (cstr s)"
      unfolding b using ok n by (intro poke_holds) auto
    have "holds (poke_ptr arr i (cur st) ?st1) (cur st) (cstr s)"
      using m2 m1(1) ok h n by (intro holds_cong [OF _ _ h]) (auto simp: poke_ptr_def holds_nth)
    then show ?thesis by (simp add: st' holds_def)
  qed
qed

lemma array_ok_store:
  assumes "array_ok arr n st" "i < n" "attr_len (Some s) \<le> left st"
  shows "array_ok arr n (store_member s i st)" "kept arr st (store_member s i st)"
proof -
  have "mem (store_member s i st) ! k = mem st ! k"
    if "k < length (mem st)" "k < arr - base st \<or> cur st + left st - base st \<le> k" for k
    using that assms by (intro store_member_mem(2) [OF assms]) (auto simp: array_ok_def wf_caller_def)
  then show "array_ok arr n (store_member s i st)" "kept arr st (store_member s i st)"
    using assms store_member_mem(1) [OF assms] by (auto simp: array_ok_def wf_caller_def kept_def)
qed

lemma set_members_kept:
  assumes "array_ok arr n st" "i + length vs \<le> n" "set_members vs i st = (b, st')"
  shows "array_ok arr n st' \<and> kept arr st st' \<and> rbuf st' = rbuf st \<and> (\<not> b \<longrightarrow> errnop st' = ERANGE)"
  using assms
proof (induction vs arbitrary: i st)
  case Nil
  then show ?case by (simp add: kept_def)
next
  case (Cons v vs)
  show ?case
  proof (cases "json_value_get_string (Some v)")
    case None
    with Cons.prems Cons.IH [of st "i + 1"] show ?thesis by simp
  next
    case (Some s)
    show ?thesis
    proof (cases "left st < attr_len (Some s)")
      case True
      with Some Cons.prems show ?thesis
        by (auto simp: set_members_Cons array_ok_def wf_caller_def kept_def simp del: set_members.simps)
    next
      case False
      then have "set_members vs (i + 1) (store_member s i st) = (b, st')"
        using Some Cons.prems(3) by (simp add: set_members_Cons del: set_members.simps)
      with Cons.IH [of "store_member s i st" "i + 1"] array_ok_store [OF Cons.prems(1), of i s] False Cons.prems(2)
      show ?thesis by (auto dest: kept_trans)
    qed
  qed
qed

text \<open>All members are strings: every slot points to its name.\<close>

definition members_len :: "string list \<Rightarrow> nat" where
  "members_len ss = sum_list (map (\<lambda>s. attr_len (Some s)) ss)"

lemma set_members_strings:
  assumes "array_ok arr n st" "i + length ss \<le> n" "base st + length (mem st) < 2 ^ 64"
    and "set_members (map VString ss) i st = (b, st')"
  shows "(b \<longleftrightarrow> members_len ss \<le> left st) \<and>
    (b \<longrightarrow> errnop st' = errnop st \<and>
      (\<forall>k < length (mem st). base st + k < arr + 8 * i \<or> arr + 8 * n \<le> base st + k \<and> base st + k < cur st \<longrightarrow>
         mem st' ! k = mem st ! k) \<and>
      (\<forall>j < length ss. cur st \<le> ptr_at st' arr (i + j)) \<and>
      (\<forall>j < length ss. short (Some (ss ! j)) \<longrightarrow> holds st' (ptr_at st' arr (i + j)) (cstr (ss ! j))))"
  using assms
proof (induction ss arbitrary: i st)
  case Nil
  then show ?case by (simp add: members_len_def)
next
  case (Cons s ss)
  have str: "json_value_get_string (Some (VString s)) = Some s"
    by (simp add: json_value_get_string_def json_value_get_string_desc_def)
  show ?case
  proof (cases "left st < attr_len (Some s)")
    case True
    with Cons.prems(4) str show ?thesis
      by (auto simp: set_members_Cons members_len_def simp del: set_members.simps)
  next
    case False
    let ?st = "store_member s i st"
    have in1: "i < n" and fit: "attr_len (Some s) \<le> left st"
      using Cons.prems(2) False by auto
    note m = store_member_mem [OF Cons.prems(1) in1 fit]
    note ok = array_ok_store [OF Cons.prems(1) in1 fit]
    have rec: "set_members (map VString ss) (i + 1) ?st = (b, st')"
      using str Cons.prems(4) False by (simp add: set_members_Cons del: set_members.simps)
    have ih: "(b \<longleftrightarrow> members_len ss \<le> left ?st) \<and>
      (b \<longrightarrow> errnop st' = errnop ?st \<and>
        (\<forall>k < length (mem ?st). base ?st + k < arr + 8 * (i + 1) \<or> arr + 8 * n \<le> base ?st + k \<and> base ?st + k < cur ?st \<longrightarrow>
           mem st' ! k = mem ?st ! k) \<and>
        (\<forall>j < length ss. cur ?st \<le> ptr_at st' arr (i + 1 + j)) \<and>
        (\<forall>j < length ss. short (Some (ss ! j)) \<longrightarrow> holds st' (ptr_at st' arr (i + 1 + j)) (cstr (ss ! j))))"
      using Cons.prems m(1) by (intro Cons.IH [OF ok(1) _ _ rec]) simp_all
    have kept: "kept arr ?st st'"
      using set_members_kept [OF ok(1) _ rec] Cons.prems(2) by simp
    have ix: "arr + 8 * i + 8 \<le> cur st" "base st \<le> arr" "cur st + attr_len (Some s) \<le> base st + length (mem st)" "base st \<le> cur st"
       "arr + 8 * n \<le> cur st"
      using Cons.prems(1) in1 fit by (auto simp: array_ok_def wf_caller_def)
    have p: "ptr_at st' arr i = cur st" if b
    proof -
      have "ptr_at st' arr i = ptr_at ?st arr i"
        using ih that kept ix m(1) by (intro ptr_at_cong) (auto simp: kept_def)
      then show ?thesis using m(3) Cons.prems(3) by simp
    qed
    have h: "holds st' (cur st) (cstr s)" if b "short (Some s)"
    proof (rule holds_cong [OF _ _ m(4)])
      fix k assume k: "cur st - base ?st \<le> k" "k \<le> cur st + length (cstr s) - base ?st"
      have "k < length (mem ?st)" "arr + 8 * n \<le> base ?st + k" "base ?st + k < cur ?st"
        using k ix m(1) short_len [OF that(2)] by auto
      with ih that(1) show "mem st' ! k = mem ?st ! k" by blast
    qed (use kept that(2) in \<open>auto simp: kept_def\<close>)
    have fr: "mem st' ! k = mem st ! k" if b "k < length (mem st)"
      "base st + k < arr + 8 * i \<or> arr + 8 * n \<le> base st + k \<and> base st + k < cur st" for k
      using ih that m(1) m(2) [of k] ix in1 by auto
    have p0: "cur st \<le> ptr_at st' arr i" if b
      using p [OF that] by simp
    have "cur st \<le> ptr_at st' arr (i + j)" if b "j < length (s # ss)" for j
      using ih p0 that by (cases j) (auto dest!: spec dest: add_leD1)
    moreover have "holds st' (ptr_at st' arr (i + j)) (cstr ((s # ss) ! j))" if b "j < length (s # ss)" "short (Some ((s # ss) ! j))" for j
      using ih p h that by (cases j) auto
    ultimately show ?thesis
      using ih fr False by (auto simp: members_len_def)
  qed
qed

lemma grown_upd [simp]:
  "grown (st\<lparr>rbuf := r\<rparr>) st' = grown st st'" "grown st (st'\<lparr>rbuf := r\<rparr>) = grown st st'"
  "grown st (st'\<lparr>errnop := e\<rparr>) = grown st st'"
  by (simp_all add: grown_def)

lemma kept_grown:
  "kept (cur a) b c \<Longrightarrow> mem b = mem a \<Longrightarrow> base b = base a \<Longrightarrow> cur a \<le> cur b \<Longrightarrow> cur b + left b = cur a + left a \<Longrightarrow> grown a c"
  by (auto simp: kept_def grown_def)

lemma poke_ptr_mem:
  assumes "array_ok arr n st" "i < n"
  shows "length (mem (poke_ptr arr i p st)) = length (mem st)"
    and "k < length (mem st) \<Longrightarrow> \<not> (arr + 8 * i \<le> base st + k \<and> base st + k < arr + 8 * i + 8) \<Longrightarrow>
      mem (poke_ptr arr i p st) ! k = mem st ! k"
    and "p < 2 ^ 64 \<Longrightarrow> ptr_at (poke_ptr arr i p st) arr i = p"
    and "kept arr st (poke_ptr arr i p st)"
proof -
  have r: "base st \<le> arr" "arr + 8 * i + 8 \<le> cur st" "cur st \<le> base st + length (mem st)"
    using assms by (auto simp: array_ok_def wf_caller_def)
  then have r': "base st \<le> arr + 8 * i" "arr + 8 * i + 8 \<le> base st + length (mem st)" by auto
  note m = poke_mem [of st "arr + 8 * i" "le_bytes 8 p", unfolded length_le_bytes, OF r']
  show "length (mem (poke_ptr arr i p st)) = length (mem st)"
    using m(1) by (simp add: poke_ptr_def)
  show nth: "mem (poke_ptr arr i p st) ! k = mem st ! k"
    if "k < length (mem st)" "\<not> (arr + 8 * i \<le> base st + k \<and> base st + k < arr + 8 * i + 8)" for k
    using m(2) [of k] that r by (auto simp: poke_ptr_def)
  show "ptr_at (poke_ptr arr i p st) arr i = p" if "p < 2 ^ 64"
    using ptr_at_poke [OF r(1) r'(2) that] .
  show "kept arr st (poke_ptr arr i p st)"
  proof -
    have "mem (poke_ptr arr i p st) ! k = mem st ! k"
      if "k < length (mem st)" "k < arr - base st \<or> cur st + left st - base st \<le> k" for k
      using that r by (intro nth) auto
    then show ?thesis
      using m(1) by (auto simp: kept_def poke_ptr_def)
  qed
qed

text \<open>The part of \<^verbatim>\<open>GROUP_ENSURE\<close> behind the two attributes.\<close>

definition group_members :: "ents \<Rightarrow> json_value list \<Rightarrow> group caller \<Rightarrow> nss_status \<times> ents \<times> group caller" where
  "group_members en members st1 =
     (let arr = cur st1; st2 = st1\<lparr>rbuf := (rbuf st1)\<lparr>gr_mem := arr\<rparr>\<rparr>; area = ptr_area_size (length members)
      in if left st2 < area then (NSS_STATUS_TRYAGAIN, pthread_mutex_unlock en, st2\<lparr>errnop := ERANGE\<rparr>)
         else
           let (all, st3) = set_members members 0 (st2\<lparr>cur := arr + area, left := left st2 - area\<rparr>)
           in if \<not> all then (NSS_STATUS_TRYAGAIN, pthread_mutex_unlock en, st3)
              else (NSS_STATUS_SUCCESS, en, poke_ptr arr (length members) 0 st3))"

lemma group_members_area:
  assumes "wf_caller st1" "length vs < 2 ^ 28 - 1" "8 * length vs + 8 \<le> left st1"
  shows "array_ok (cur st1) (length vs + 1)
    (st1\<lparr>rbuf := (rbuf st1)\<lparr>gr_mem := cur st1\<rparr>, cur := cur st1 + (8 * length vs + 8), left := left st1 - (8 * length vs + 8)\<rparr>)"
  using assms by (auto simp: array_ok_def wf_caller_def)

lemma group_members_grown:
  assumes "wf_caller st1" "length vs < 2 ^ 28 - 1" "group_members en vs st1 = (s, en', st')"
  shows "grown st1 st' \<and> (s = NSS_STATUS_TRYAGAIN \<longrightarrow> errnop st' = ERANGE) \<and>
    (s = NSS_STATUS_SUCCESS \<and> en' = en \<or> s = NSS_STATUS_TRYAGAIN \<and> en' = pthread_mutex_unlock en) \<and>
    gr_name (rbuf st') = gr_name (rbuf st1) \<and> gr_passwd (rbuf st') = gr_passwd (rbuf st1) \<and> gr_gid (rbuf st') = gr_gid (rbuf st1)"
proof (cases "left st1 < 8 * length vs + 8")
  case True
  with assms show ?thesis by (auto simp: group_members_def ptr_area Let_def)
next
  case False
  let ?st = "st1\<lparr>rbuf := (rbuf st1)\<lparr>gr_mem := cur st1\<rparr>, cur := cur st1 + (8 * length vs + 8), left := left st1 - (8 * length vs + 8)\<rparr>"
  obtain b st3 where s3: "set_members vs 0 ?st = (b, st3)" by force
  have ok: "array_ok (cur st1) (length vs + 1) ?st"
    using group_members_area [OF assms(1,2)] False by simp
  note k = set_members_kept [OF ok _ s3]
  have ok3: "array_ok (cur st1) (length vs + 1) st3" and k3: "kept (cur st1) ?st st3" "rbuf st3 = rbuf ?st"
    and e: "\<not> b \<longrightarrow> errnop st3 = ERANGE" using k by auto
  have out: "s = (if b then NSS_STATUS_SUCCESS else NSS_STATUS_TRYAGAIN)" "en' = (if b then en else pthread_mutex_unlock en)"
    "st' = (if b then poke_ptr (cur st1) (length vs) 0 st3 else st3)"
    using assms(3) s3 False assms(2) by (auto simp: group_members_def ptr_area Let_def split: if_splits)
  have "kept (cur st1) ?st st'"
    using out(3) k3 kept_trans poke_ptr_mem(4) [OF ok3, of "length vs" 0] by auto
  then have "grown st1 st'"
    using False by (intro kept_grown [of st1 ?st]) auto
  then show ?thesis
    using out e k3(2) by auto
qed

lemma GROUP_ENSURE_alt:
  "GROUP_ENSURE c entry en st =
     (case json_object_get_string entry ''name'' of
        None \<Rightarrow> (NSS_STATUS_NOTFOUND, pthread_mutex_unlock en, st)
      | Some name \<Rightarrow>
          (case set_attributes [(\<lambda>p. gr_name_update (\<lambda>_. p), Some name), (\<lambda>p. gr_passwd_update (\<lambda>_. p), Some ''x'')]
                  (st\<lparr>rbuf := (rbuf st)\<lparr>gr_gid := gid_shift c + double_to_int (json_object_get_number entry ''id'')\<rparr>\<rparr>) of
             (False, st1) \<Rightarrow> (NSS_STATUS_TRYAGAIN, en, st1)
           | (True, st1) \<Rightarrow> group_members en (members_of entry) st1))"
  unfolding GROUP_ENSURE_def group_members_def Let_def json_object_get_string_def json_object_get_number_def
  by (auto simp del: set_attributes.simps set_members.simps split: option.split prod.split bool.split)

lemma GROUP_ENSURE_grown:
  assumes "wf_caller st" "length (members_of entry) < 2 ^ 28 - 1" "GROUP_ENSURE c entry en st = (s, en', st')"
  shows "grown st st' \<and> s \<noteq> NSS_STATUS_UNAVAIL \<and> (s = NSS_STATUS_TRYAGAIN \<longrightarrow> errnop st' = ERANGE) \<and>
    (en' = en \<or> en' = pthread_mutex_unlock en)"
proof (cases "json_object_get_string entry ''name''")
  case None
  with assms(3) show ?thesis by (auto simp: GROUP_ENSURE_alt)
next
  case (Some name)
  let ?as = "[(\<lambda>p. gr_name_update (\<lambda>_. p), Some name), (\<lambda>p. gr_passwd_update (\<lambda>_. p), Some ''x'')]"
  let ?st0 = "st\<lparr>rbuf := (rbuf st)\<lparr>gr_gid := gid_shift c + double_to_int (json_object_get_number entry ''id'')\<rparr>\<rparr>"
  obtain b st1 where s1: "set_attributes ?as ?st0 = (b, st1)" by force
  have wf0: "wf_caller ?st0" using assms(1) by (simp add: wf_caller_def)
  have r: "grown st st1" "\<not> b \<longrightarrow> errnop st1 = ERANGE"
    using set_attributes_cases [OF wf0 s1] by (auto simp del: set_attributes.simps)
  show ?thesis
  proof (cases b)
    case False
    with assms(3) Some s1 r show ?thesis by (auto simp: GROUP_ENSURE_alt simp del: set_attributes.simps)
  next
    case True
    with assms(3) Some s1 have g: "group_members en (members_of entry) st1 = (s, en', st')"
      by (simp add: GROUP_ENSURE_alt del: set_attributes.simps)
    have gm: "grown st1 st' \<and> (s = NSS_STATUS_TRYAGAIN \<longrightarrow> errnop st' = ERANGE) \<and>
      (s = NSS_STATUS_SUCCESS \<and> en' = en \<or> s = NSS_STATUS_TRYAGAIN \<and> en' = pthread_mutex_unlock en)"
      using group_members_grown [OF grown_wf [OF r(1) assms(1)] assms(2) g] by blast
    moreover have "grown st st'"
      using gm grown_trans [OF r(1)] assms(1) by (simp add: wf_caller_def)
    ultimately show ?thesis by auto
  qed
qed

section \<open>Groups read back\<close>

record group_entry =
  g_name :: string
  g_passwd :: string
  g_gid :: u32
  g_members :: "string list"

definition group_spec :: "stns_conf \<Rightarrow> json_value json_object option \<Rightarrow> string list \<Rightarrow> group_entry" where
  "group_spec c entry ss =
     \<lparr>g_name = text_of entry ''name'', g_passwd = ''x'',
      g_gid = gid_shift c + double_to_int (json_object_get_number entry ''id''), g_members = map cstr ss\<rparr>"

text \<open>Reading the first \<open>k\<close> members through the pointer array.\<close>

definition read_group :: "nat \<Rightarrow> group caller \<Rightarrow> group_entry" where
  "read_group k st =
     \<lparr>g_name = string_at st (gr_name (rbuf st)), g_passwd = string_at st (gr_passwd (rbuf st)), g_gid = gr_gid (rbuf st),
      g_members = map (\<lambda>i. string_at st (ptr_at st (gr_mem (rbuf st)) i)) [0..<k]\<rparr>"

text \<open>The array ends with a null pointer at index \<open>k\<close> and holds none before it.\<close>

definition null_terminated :: "nat \<Rightarrow> group caller \<Rightarrow> bool" where
  "null_terminated k st \<longleftrightarrow> ptr_at st (gr_mem (rbuf st)) k = 0 \<and> (\<forall>i < k. ptr_at st (gr_mem (rbuf st)) i \<noteq> 0)"

definition group_need :: "group_entry \<Rightarrow> nat" where
  "group_need g = length (g_name g) + length (g_passwd g) + 2 + 8 * (length (g_members g) + 1) +
     sum_list (map (\<lambda>m. length m + 1) (g_members g))"

lemma members_len_short: "(\<forall>s \<in> set ss. short (Some s)) \<Longrightarrow> members_len ss = sum_list (map (\<lambda>m. length m + 1) (map cstr ss))"
  by (induction ss) (auto simp: members_len_def short_len)

lemma group_members_strings:
  assumes "wf_caller st1" "length ss < 2 ^ 28 - 1" "0 < base st1" "base st1 + length (mem st1) < 2 ^ 64"
    and "group_members en (map VString ss) st1 = (s, en', st')" "\<forall>s \<in> set ss. short (Some s)"
  shows "s = (if 8 * length ss + 8 + members_len ss \<le> left st1 then NSS_STATUS_SUCCESS else NSS_STATUS_TRYAGAIN) \<and>
    (s = NSS_STATUS_SUCCESS \<longrightarrow> errnop st' = errnop st1 \<and> null_terminated (length ss) st' \<and>
      map (\<lambda>i. string_at st' (ptr_at st' (gr_mem (rbuf st')) i)) [0..<length ss] = map cstr ss)"
proof (cases "left st1 < 8 * length ss + 8")
  case True
  with assms show ?thesis by (auto simp: group_members_def ptr_area Let_def)
next
  case False
  let ?n = "length ss"
  let ?st = "st1\<lparr>rbuf := (rbuf st1)\<lparr>gr_mem := cur st1\<rparr>, cur := cur st1 + (8 * ?n + 8), left := left st1 - (8 * ?n + 8)\<rparr>"
  let ?a = "cur st1"
  obtain b st3 where s3: "set_members (map VString ss) 0 ?st = (b, st3)" by force
  have ok: "array_ok ?a (?n + 1) ?st"
    using group_members_area [OF assms(1), of "map VString ss"] assms(2) False by simp
  have k: "array_ok ?a (?n + 1) st3" "kept ?a ?st st3" "rbuf st3 = rbuf ?st"
    using set_members_kept [OF ok _ s3] by auto
  note r = set_members_strings [OF ok _ _ s3]
  have rb: "b \<longleftrightarrow> members_len ss \<le> left st1 - (8 * ?n + 8)" and
    rr: "b \<Longrightarrow> errnop st3 = errnop st1 \<and> (\<forall>j < ?n. ?a + 8 * ?n + 8 \<le> ptr_at st3 ?a j \<and> holds st3 (ptr_at st3 ?a j) (cstr (ss ! j)))"
    using r assms(4,6) by auto
  have out: "s = (if b then NSS_STATUS_SUCCESS else NSS_STATUS_TRYAGAIN)" "b \<Longrightarrow> st' = poke_ptr ?a ?n 0 st3"
    using assms(5) s3 False assms(2) by (auto simp: group_members_def ptr_area Let_def split: if_splits)
  have "errnop st' = errnop st1 \<and> null_terminated ?n st' \<and>
      map (\<lambda>i. string_at st' (ptr_at st' (gr_mem (rbuf st')) i)) [0..<?n] = map cstr ss" if b
  proof -
    have lt: "?n < ?n + 1" by simp
    note m = poke_ptr_mem [OF k(1) lt, where p = 0]
    have ptr: "ptr_at st' ?a j = ptr_at st3 ?a j" if j: "j < ?n" for j
      unfolding out(2) [OF \<open>b\<close>]
    proof (rule ptr_at_cong)
      show "mem (poke_ptr ?a ?n 0 st3) ! i = mem st3 ! i"
        if "?a + 8 * j - base st3 \<le> i" "i < ?a + 8 * j + 8 - base st3" for i
        using that j k(1) by (intro m(2)) (auto simp: array_ok_def wf_caller_def)
    qed (use m(1) k(1) j in \<open>auto simp: array_ok_def wf_caller_def\<close>)
    have str: "string_at st' (ptr_at st' ?a j) = cstr (ss ! j)" if j: "j < ?n" for j
    proof -
      have h: "holds st3 (ptr_at st3 ?a j) (cstr (ss ! j))" and "?a + 8 * ?n + 8 \<le> ptr_at st3 ?a j"
        using rr [OF \<open>b\<close>] j by auto
      then have "holds st' (ptr_at st3 ?a j) (cstr (ss ! j))"
        unfolding out(2) [OF \<open>b\<close>]
        using m(1) k(1) by (intro holds_cong [OF _ _ h] m(2)) (auto simp: array_ok_def wf_caller_def holds_nth)
      then show ?thesis using ptr [OF j] by (simp add: holds_string)
    qed
    have g: "gr_mem (rbuf st') = ?a" using out(2) [OF that] k(3) by simp
    show ?thesis
      unfolding null_terminated_def g
      using rr [OF that] out(2) [OF that] m(3) ptr str k(3) by (auto intro: nth_equalityI)
  qed
  then show ?thesis using out(1) rb False by auto
qed

lemma GROUP_ENSURE_spec:
  assumes "wf_caller st" "0 < base st" "base st + length (mem st) < 2 ^ 64"
    and "GROUP_ENSURE c entry en st = (s, en', st')"
    and nm: "json_object_get_string entry ''name'' = Some name" "short (Some name)"
    and ms: "members_of entry = map VString ss" "\<forall>s \<in> set ss. short (Some s)" "length ss < 2 ^ 28 - 1"
  shows "s = (if group_need (group_spec c entry ss) \<le> left st then NSS_STATUS_SUCCESS else NSS_STATUS_TRYAGAIN) \<and>
    (s = NSS_STATUS_SUCCESS \<longrightarrow> read_group (length ss) st' = group_spec c entry ss \<and> null_terminated (length ss) st' \<and>
       en' = en \<and> errnop st' = errnop st)"
proof -
  let ?as = "[(\<lambda>p. gr_name_update (\<lambda>_. p), Some name), (\<lambda>p. gr_passwd_update (\<lambda>_. p), Some ''x'')]"
  let ?st0 = "st\<lparr>rbuf := (rbuf st)\<lparr>gr_gid := g_gid (group_spec c entry ss)\<rparr>\<rparr>"
  obtain b st1 where s1: "set_attributes ?as ?st0 = (b, st1)" by force
  have gid: "g_gid (group_spec c entry ss) = gid_shift c + double_to_int (json_object_get_number entry ''id'')"
    by (simp add: group_spec_def)
  have wf0: "wf_caller ?st0" using assms(1) by (simp add: wf_caller_def)
  have sx: "short (Some ''x'')" by (rule short_Some) simp
  have nmt: "text_of entry ''name'' = cstr name" using nm by (simp add: text_of_def)
  have al: "attrs_len ?as = length (cstr name) + 3"
    using short_len [OF nm(2)] short_len [OF sx] by simp
  note r = set_attributes_cases [OF wf0 s1, unfolded al]
  have need: "group_need (group_spec c entry ss) = length (cstr name) + 3 + (8 * length ss + 8 + members_len ss)"
    using members_len_short [OF ms(2)] nmt by (simp add: group_need_def group_spec_def)
  show ?thesis
  proof (cases b)
    case False
    with r assms(4) s1 nm need show ?thesis
      by (auto simp: GROUP_ENSURE_alt gid simp del: set_attributes.simps)
  next
    case True
    have g: "group_members en (map VString ss) st1 = (s, en', st')"
      using True assms(4) s1 nm ms(1) by (simp add: GROUP_ENSURE_alt gid del: set_attributes.simps)
    have st1: "grown st st1" "rbuf st1 = set_all ?as (cur st) (rbuf ?st0)" "cur st1 = cur st + (length (cstr name) + 3)"
      "left st1 = left st - (length (cstr name) + 3)" "errnop st1 = errnop st" "all_hold ?as (cur st) st1" "length (cstr name) + 3 \<le> left st"
      using r True by (auto simp del: all_hold.simps set_all.simps)
    have wf1: "wf_caller st1" using grown_wf [OF st1(1) assms(1)] .
    have b1: "0 < base st1" "base st1 + length (mem st1) < 2 ^ 64"
      using st1(1) assms(2,3) by (auto simp: grown_def)
    have gl: "length (map VString ss) < 2 ^ 28 - 1" using ms(3) by simp
    have gg: "grown st1 st'" "s = NSS_STATUS_SUCCESS \<and> en' = en \<or> s = NSS_STATUS_TRYAGAIN \<and> en' = pthread_mutex_unlock en"
      "gr_name (rbuf st') = gr_name (rbuf st1) \<and> gr_passwd (rbuf st') = gr_passwd (rbuf st1) \<and> gr_gid (rbuf st') = gr_gid (rbuf st1)"
      using group_members_grown [OF wf1 gl g] by simp_all
    note gs = group_members_strings [OF wf1 ms(3) b1 g ms(2)]
    have h: "holds st1 (gr_name (rbuf st1)) (cstr name)" "holds st1 (gr_passwd (rbuf st1)) ''x''"
      using st1(2,6) nm(2) sx by auto
    have "holds st' (gr_name (rbuf st1)) (cstr name)" "holds st' (gr_passwd (rbuf st1)) ''x''"
    proof -
      have "gr_name (rbuf st1) + length (cstr name) < cur st1" "gr_passwd (rbuf st1) + length ''x'' < cur st1"
        using short_len [OF nm(2)] short_len [OF sx] st1(2,3) by auto
      then show "holds st' (gr_name (rbuf st1)) (cstr name)" "holds st' (gr_passwd (rbuf st1)) ''x''"
        using grown_holds [OF gg(1) h(1)] grown_holds [OF gg(1) h(2)] by auto
    qed
    then have "g_name (read_group k st') = cstr name \<and> g_passwd (read_group k st') = ''x'' \<and>
        g_gid (read_group k st') = g_gid (group_spec c entry ss)" for k
      using gg(3) st1(2) by (simp add: read_group_def holds_string)
    then have "read_group (length ss) st' = group_spec c entry ss"
      if "map (\<lambda>i. string_at st' (ptr_at st' (gr_mem (rbuf st')) i)) [0..<length ss] = map cstr ss"
      using that nmt by (simp add: read_group_def group_spec_def)
    then show ?thesis
      using gs gg(2) st1 need by auto
  qed
qed

section \<open>Shadow entries read back\<close>

definition read_shadow :: "spwd caller \<Rightarrow> string \<times> string" where
  "read_shadow st = (string_at st (sp_namp (rbuf st)), string_at st (sp_pwdp (rbuf st)))"

definition shadow_spec :: "json_value json_object option \<Rightarrow> string \<times> string" where
  "shadow_spec entry = (text_of entry ''name'', or_default (text_of entry ''password'') ''!!'')"

lemma SHADOW_ENSURE_alt:
  "SHADOW_ENSURE c entry en st =
     (case set_attributes [(\<lambda>p. sp_namp_update (\<lambda>_. p), json_object_get_string entry ''name''),
                           (\<lambda>p. sp_pwdp_update (\<lambda>_. p), Some (snd (shadow_spec entry)))] st of
        (stored, st1) \<Rightarrow>
          if stored
          then (NSS_STATUS_SUCCESS, en,
                st1\<lparr>rbuf := (rbuf st1)\<lparr>sp_lstchg := - 1, sp_min := - 1, sp_max := - 1, sp_warn := - 1, sp_inact := - 1,
                                      sp_expire := - 1, sp_flag := - 1\<rparr>\<rparr>)
          else (NSS_STATUS_TRYAGAIN, en, st1))"
proof -
  have "STNS_SET_DEFAULT_VALUE (json_object_get_string entry ''password'') ''!!'' = snd (shadow_spec entry)"
    by (simp add: default_value shadow_spec_def text_of_def)
  then show ?thesis
    unfolding SHADOW_ENSURE_def Let_def json_object_get_string_def by simp
qed

lemma SHADOW_ENSURE_spec:
  assumes "wf_caller st" "SHADOW_ENSURE c entry en st = (s, en', st')" "short (json_object_get_string entry ''name'')"
  shows "s = (if length (fst (shadow_spec entry)) + length (snd (shadow_spec entry)) + 2 \<le> left st
              then NSS_STATUS_SUCCESS else NSS_STATUS_TRYAGAIN) \<and>
    (s = NSS_STATUS_SUCCESS \<longrightarrow> read_shadow st' = shadow_spec entry \<and> errnop st' = errnop st)"
proof -
  let ?as = "[(\<lambda>p. sp_namp_update (\<lambda>_. p), json_object_get_string entry ''name''),
    (\<lambda>p. sp_pwdp_update (\<lambda>_. p), Some (snd (shadow_spec entry)))]"
  obtain b st1 where s1: "set_attributes ?as st = (b, st1)" by force
  have pw: "no_nul (snd (shadow_spec entry))" "short (Some (snd (shadow_spec entry)))"
    by (auto simp: shadow_spec_def text_of_def length_or_default intro: short_Some)
  have al: "attrs_len ?as = length (fst (shadow_spec entry)) + length (snd (shadow_spec entry)) + 2"
    using assms(3) short_len [OF pw(2)] pw(1) by (simp add: short_len) (simp add: shadow_spec_def text_of_def)
  note r = set_attributes_cases [OF assms(1) s1, unfolded al]
  have "read_shadow st1 = shadow_spec entry" if b
    using r that assms(3) pw by (auto simp: read_shadow_def holds_string) (simp add: shadow_spec_def text_of_def)
  then show ?thesis
    using assms(2) s1 r unfolding SHADOW_ENSURE_alt
    by (auto simp: read_shadow_def string_at_def simp del: set_attributes.simps)
qed

end
