(* ===== verification/Stns_Lookup.thy ===== *)
theory Stns_Lookup
  imports Stns_Writers
begin

text \<open>
  The lookups \<^verbatim>\<open>ensure_*_by_*\<close>: the contract of an entry writer as a locale with its three instances, the loop as the
  search for the first matching element, and the correctness of the lookups by name and by identifier.
\<close>

section \<open>The contract of an entry writer\<close>

text \<open>What the lookups and the enumeration rely on, whatever the database: an entry is written into the free part of
  the buffer only, a buffer that is too small is reported with \<^verbatim>\<open>ERANGE\<close>, and the enumeration state keeps its entries and its position.
  \<open>fits\<close> is what the writer demands of the entry.\<close>

locale entry_writer =
  fixes write_entry :: "json_value json_object option \<Rightarrow> ents \<times> 'r caller \<Rightarrow> nss_status \<times> ents \<times> 'r caller"
    and fits :: "json_value json_object option \<Rightarrow> bool"
  assumes writes_free_part: "wf_caller st \<Longrightarrow> fits e \<Longrightarrow> write_entry e (en, st) = (s, en', st') \<Longrightarrow> grown st st'"
    and reports_small_buffer: "wf_caller st \<Longrightarrow> fits e \<Longrightarrow> write_entry e (en, st) = (s, en', st') \<Longrightarrow>
      s = NSS_STATUS_TRYAGAIN \<Longrightarrow> errnop st' = ERANGE"
    and never_unavail: "wf_caller st \<Longrightarrow> fits e \<Longrightarrow> write_entry e (en, st) = (s, en', st') \<Longrightarrow> s \<noteq> NSS_STATUS_UNAVAIL"
    and keeps_position: "write_entry e (en, st) = (s, en', st') \<Longrightarrow> entries en' = entries en \<and> entry_idx en' = entry_idx en"
begin

lemma loop_writes_free_part:
  assumes "wf_caller st" "\<forall>v \<in> set vs. fits (json_value_get_object (Some v))"
    and "ensure_loop m write_entry vs (en, st) = Ret (s, en', st')"
  shows "grown st st' \<and> s \<noteq> NSS_STATUS_UNAVAIL \<and> (s = NSS_STATUS_TRYAGAIN \<longrightarrow> errnop st' = ERANGE) \<and>
    entries en' = entries en \<and> entry_idx en' = entry_idx en"
  using assms(2,3)
proof (induction vs)
  case (Cons v vs)
  then show ?case
    using writes_free_part [OF assms(1)] reports_small_buffer [OF assms(1)] never_unavail [OF assms(1)] keeps_position
    by (auto split: option.splits outcome.splits if_splits)
qed simp

lemma lookup_writes_free_part:
  assumes "wf_caller st" "STNS_ENSURE_BY m write_entry data (en, st) = Ret (s, en', st')"
    and "\<And>a v. json_parse_string (Some data) = Some (VArray a) \<Longrightarrow> v \<in> set (arr_items a) \<Longrightarrow> fits (json_value_get_object (Some v))"
  shows "grown st st' \<and> (s = NSS_STATUS_TRYAGAIN \<longrightarrow> errnop st' = ERANGE) \<and>
    (s = NSS_STATUS_UNAVAIL \<longleftrightarrow> json_parse_string (Some data) = None) \<and>
    entries en' = entries en \<and> entry_idx en' = entry_idx en"
proof (cases "json_parse_string (Some data)")
  case None
  with assms(2) show ?thesis by (simp add: STNS_ENSURE_BY_def)
next
  case (Some doc)
  let ?vs = "case json_value_get_array (Some doc) of Some a \<Rightarrow> arr_items a | None \<Rightarrow> []"
  have f: "\<forall>v \<in> set ?vs. fits (json_value_get_object (Some v))"
    using Some assms(3) by (auto simp: json_value_get_array_def split: option.splits json_value.splits)
  have "ensure_loop m write_entry ?vs (en, st) = Ret (s, en', st')"
    using Some assms(2) by (simp add: STNS_ENSURE_BY_def)
  from loop_writes_free_part [OF assms(1) f this] Some show ?thesis by simp
qed

end

lemma PASSWD_ENSURE_shape:
  "\<exists>as r. PASSWD_ENSURE c e en st =
     (case set_attributes as (st\<lparr>rbuf := r\<rparr>) of (b, st1) \<Rightarrow> (if b then NSS_STATUS_SUCCESS else NSS_STATUS_TRYAGAIN, en, st1))"
  unfolding PASSWD_ENSURE_def Let_def by (intro exI) (rule refl)

lemma PASSWD_ENSURE_grown:
  assumes "wf_caller st" "PASSWD_ENSURE c e en st = (s, en', st')"
  shows "grown st st' \<and> (s = NSS_STATUS_TRYAGAIN \<longrightarrow> errnop st' = ERANGE) \<and> s \<noteq> NSS_STATUS_UNAVAIL \<and> en' = en"
proof -
  obtain as r where sh: "PASSWD_ENSURE c e en st =
      (case set_attributes as (st\<lparr>rbuf := r\<rparr>) of (b, st1) \<Rightarrow> (if b then NSS_STATUS_SUCCESS else NSS_STATUS_TRYAGAIN, en, st1))"
    using PASSWD_ENSURE_shape by blast
  obtain b st1 where s1: "set_attributes as (st\<lparr>rbuf := r\<rparr>) = (b, st1)" by force
  have wf: "wf_caller (st\<lparr>rbuf := r\<rparr>)" using assms(1) by (simp add: wf_caller_def)
  from set_attributes_cases [OF wf s1] assms(2) sh s1 show ?thesis by auto
qed

lemma SHADOW_ENSURE_grown:
  assumes "wf_caller st" "SHADOW_ENSURE c e en st = (s, en', st')"
  shows "grown st st' \<and> (s = NSS_STATUS_TRYAGAIN \<longrightarrow> errnop st' = ERANGE) \<and> s \<noteq> NSS_STATUS_UNAVAIL \<and> en' = en"
proof -
  obtain b st1 where s1: "set_attributes [(\<lambda>p. sp_namp_update (\<lambda>_. p), json_object_get_string e ''name''),
      (\<lambda>p. sp_pwdp_update (\<lambda>_. p), Some (snd (shadow_spec e)))] st = (b, st1)" by force
  then show ?thesis
    using set_attributes_cases [OF assms(1) s1] assms(2)
    by (auto simp: SHADOW_ENSURE_alt simp del: set_attributes.simps split: if_splits)
qed

lemma unlock_sel [simp]: "entries (pthread_mutex_unlock en) = entries en" "entry_idx (pthread_mutex_unlock en) = entry_idx en"
  by (simp_all add: pthread_mutex_unlock_def)

lemma group_keeps_position:
  "GROUP_ENSURE c e en st = (s, en', st') \<Longrightarrow> entries en' = entries en \<and> entry_idx en' = entry_idx en"
  by (auto simp: GROUP_ENSURE_alt group_members_def Let_def simp del: set_attributes.simps set_members.simps
      split: option.splits prod.splits bool.splits if_splits)

interpretation pw: entry_writer "\<lambda>e (en, st). PASSWD_ENSURE c e en st" "\<lambda>e. True" for c
  using PASSWD_ENSURE_grown PASSWD_ENSURE_shape [of c]
  by unfold_locales (auto simp: PASSWD_ENSURE_def Let_def simp del: set_attributes.simps split: prod.splits)

interpretation sp: entry_writer "\<lambda>e (en, st). SHADOW_ENSURE c e en st" "\<lambda>e. True" for c
  using SHADOW_ENSURE_grown
  by unfold_locales (auto simp: SHADOW_ENSURE_def Let_def simp del: set_attributes.simps split: prod.splits if_splits)

interpretation gr: entry_writer "\<lambda>e (en, st). GROUP_ENSURE c e en st" "\<lambda>e. length (members_of e) < 2 ^ 28 - 1" for c
  using GROUP_ENSURE_grown group_keeps_position by unfold_locales auto

section \<open>Finding the entry\<close>

text \<open>Where every match condition can be evaluated, the loop writes the first element that matches.\<close>

definition element_matches :: "(json_value json_object \<Rightarrow> bool) \<Rightarrow> json_value \<Rightarrow> bool" where
  "element_matches p v = (case json_value_get_object (Some v) of Some leaf \<Rightarrow> p leaf | None \<Rightarrow> False)"

lemma ensure_loop_find:
  assumes "\<And>v leaf. v \<in> set vs \<Longrightarrow> json_value_get_object (Some v) = Some leaf \<Longrightarrow> m leaf = Ret (p leaf)"
  shows "ensure_loop m w vs s =
    Ret (case find (element_matches p) vs of None \<Rightarrow> (NSS_STATUS_NOTFOUND, s) | Some v \<Rightarrow> w (json_value_get_object (Some v)) s)"
  using assms
proof (induction vs)
  case (Cons v vs)
  have ih: "ensure_loop m w vs s = Ret (case find (element_matches p) vs of
      None \<Rightarrow> (NSS_STATUS_NOTFOUND, s) | Some v \<Rightarrow> w (json_value_get_object (Some v)) s)"
    using Cons.prems by (intro Cons.IH) auto
  show ?case
    using Cons.prems [of v] ih by (cases "json_value_get_object (Some v)") (simp_all add: element_matches_def [of p v])
qed simp

lemma ensure_by_find:
  assumes "json_parse_string (Some data) = Some (VArray a)"
    and "\<And>v leaf. v \<in> set (arr_items a) \<Longrightarrow> json_value_get_object (Some v) = Some leaf \<Longrightarrow> m leaf = Ret (p leaf)"
  shows "STNS_ENSURE_BY m w data s =
    Ret (case find (element_matches p) (arr_items a) of
           None \<Rightarrow> (NSS_STATUS_NOTFOUND, s) | Some v \<Rightarrow> w (json_value_get_object (Some v)) s)"
  using assms ensure_loop_find [of "arr_items a" m p w s] by (simp add: STNS_ENSURE_BY_def json_value_get_array_def)

definition named :: "json_value \<Rightarrow> bool" where
  "named v = (case json_value_get_object (Some v) of Some leaf \<Rightarrow> json_object_get_string (Some leaf) ''name'' \<noteq> None | None \<Rightarrow> True)"

definition has_name :: "string \<Rightarrow> json_value json_object \<Rightarrow> bool" where
  "has_name name leaf \<longleftrightarrow>
     (case json_object_get_string (Some leaf) ''name'' of Some s \<Rightarrow> cstr s = cstr name | None \<Rightarrow> False)"

lemma match_name_named:
  "named v \<Longrightarrow> json_value_get_object (Some v) = Some leaf \<Longrightarrow> match_name name leaf = Ret (has_name name leaf)"
  by (auto simp: named_def match_name_def has_name_def strcmp_eq_def)

section \<open>Lookups\<close>

lemma lookup_passwd:
  assumes "json_parse_string (Some data) = Some (VArray a)"
    and "\<And>v leaf. v \<in> set (arr_items a) \<Longrightarrow> json_value_get_object (Some v) = Some leaf \<Longrightarrow> m leaf = Ret (p leaf)"
    and "find (element_matches p) (arr_items a) = Some v" "json_value_get_object (Some v) = Some leaf"
    and "short (json_object_get_string (Some leaf) ''name'')" "short (json_object_get_string (Some leaf) ''gecos'')" "wf_caller st"
  shows "\<exists>st'. STNS_ENSURE_BY m (\<lambda>e (en, st). PASSWD_ENSURE c e en st) data (en, st) =
      Ret (if passwd_need (passwd_spec c (Some leaf)) \<le> left st then NSS_STATUS_SUCCESS else NSS_STATUS_TRYAGAIN, en, st') \<and>
    grown st st' \<and>
    (if passwd_need (passwd_spec c (Some leaf)) \<le> left st then read_passwd st' = passwd_spec c (Some leaf) else errnop st' = ERANGE)"
proof -
  obtain s en' st' where w: "PASSWD_ENSURE c (Some leaf) en st = (s, en', st')"
    using prod_cases3 by blast
  note sp = PASSWD_ENSURE_spec [OF assms(7) w assms(5,6)] and g = PASSWD_ENSURE_grown [OF assms(7) w]
  have "STNS_ENSURE_BY m (\<lambda>e (en, st). PASSWD_ENSURE c e en st) data (en, st) = Ret (s, en, st')"
    using ensure_by_find [OF assms(1), of m p "\<lambda>e (en, st). PASSWD_ENSURE c e en st" "(en, st)"] assms(2-4) w g by simp
  with sp g show ?thesis by auto
qed

text \<open>C1. \<^verbatim>\<open>getpwnam\<close> on a response: when the body is a JSON array whose objects all carry a string name, the lookup
  finds the first one with the requested name. If the buffer has room for the five strings with their terminators the
  status is success and the structure, read through its pointers, is exactly the account the object describes
  (defaults for shell and home directory included); otherwise the status is \<^verbatim>\<open>TRYAGAIN\<close> with
  \<^verbatim>\<open>ERANGE\<close>. Only the free part of the buffer is written.\<close>

theorem ensure_passwd_by_name_correct:
  assumes "json_parse_string (Some data) = Some (VArray a)" and "\<forall>v \<in> set (arr_items a). named v"
    and "find (element_matches (has_name user_name)) (arr_items a) = Some v" and "json_value_get_object (Some v) = Some leaf"
    and "short (json_object_get_string (Some leaf) ''name'')" and "short (json_object_get_string (Some leaf) ''gecos'')"
    and "wf_caller st"
  shows "e_name (passwd_spec c (Some leaf)) = cstr user_name \<and>
    (\<exists>st'. ensure_passwd_by_name data c user_name (en, st) =
        Ret (if passwd_need (passwd_spec c (Some leaf)) \<le> left st then NSS_STATUS_SUCCESS else NSS_STATUS_TRYAGAIN, en, st') \<and>
      grown st st' \<and>
      (if passwd_need (passwd_spec c (Some leaf)) \<le> left st then read_passwd st' = passwd_spec c (Some leaf) else errnop st' = ERANGE))"
proof -
  have "element_matches (has_name user_name) v"
    using assms(3) by (auto simp: find_Some_iff)
  then have "e_name (passwd_spec c (Some leaf)) = cstr user_name"
    using assms(4) by (auto simp: element_matches_def has_name_def passwd_spec_def text_of_def split: option.splits)
  moreover have "match_name user_name l = Ret (has_name user_name l)"
    if "v' \<in> set (arr_items a)" "json_value_get_object (Some v') = Some l" for v' l
    using that assms(2) match_name_named by blast
  ultimately show ?thesis
    unfolding ensure_passwd_by_name_def using lookup_passwd [OF assms(1) _ assms(3-7)] by blast
qed

lemma double_to_int_uint: "0 \<le> r \<Longrightarrow> r < 2 ^ 31 \<Longrightarrow> double_to_int r = double_to_uint r"
proof -
  assume r: "0 \<le> r" "r < 2 ^ 31"
  then have "0 \<le> \<lfloor>r\<rfloor>" "\<lfloor>r\<rfloor> < 2 ^ 31"
    by (auto simp: floor_less_iff)
  with r show ?thesis
    by (simp add: double_to_int_def double_to_uint_def trunc_rat_def Let_def)
qed

text \<open>C9. \<^verbatim>\<open>getpwuid\<close> on a response: the first object whose identifier, read as a \<^verbatim>\<open>uid_t\<close> and shifted, is the requested
  one is written as above, for any identifier the object carries. When that identifier is below 2147483648 (the writer reads it as an
  \<^verbatim>\<open>int\<close>), the account has the requested user id; from there on it has not, see \<open>large_uid_answered_as_another\<close>.\<close>

theorem ensure_passwd_by_uid_correct:
  assumes "json_parse_string (Some data) = Some (VArray a)"
    and "find (element_matches (\<lambda>l. double_to_uint (json_object_get_number (Some l) ''id'') + uid_shift c = uid)) (arr_items a) = Some v"
    and "json_value_get_object (Some v) = Some leaf"
    and "short (json_object_get_string (Some leaf) ''name'')" and "short (json_object_get_string (Some leaf) ''gecos'')"
    and "wf_caller st"
  shows "(0 \<le> json_object_get_number (Some leaf) ''id'' \<and> json_object_get_number (Some leaf) ''id'' < 2 ^ 31 \<longrightarrow>
      e_uid (passwd_spec c (Some leaf)) = uid) \<and>
    (\<exists>st'. ensure_passwd_by_uid data c uid (en, st) =
        Ret (if passwd_need (passwd_spec c (Some leaf)) \<le> left st then NSS_STATUS_SUCCESS else NSS_STATUS_TRYAGAIN, en, st') \<and>
      grown st st' \<and>
      (if passwd_need (passwd_spec c (Some leaf)) \<le> left st then read_passwd st' = passwd_spec c (Some leaf) else errnop st' = ERANGE))"
proof -
  let ?p = "\<lambda>l. double_to_uint (json_object_get_number (Some l) ''id'') + uid_shift c = uid"
  have "element_matches ?p v"
    using assms(2) by (auto simp: find_Some_iff)
  then have "e_uid (passwd_spec c (Some leaf)) = uid"
    if "0 \<le> json_object_get_number (Some leaf) ''id''" "json_object_get_number (Some leaf) ''id'' < 2 ^ 31"
    using assms(3) double_to_int_uint [OF that] by (simp add: element_matches_def passwd_spec_def add.commute)
  then show ?thesis
    unfolding ensure_passwd_by_uid_def using lookup_passwd [OF assms(1) _ assms(2-6)] by (auto simp: match_id_def)
qed

text \<open>C2. \<^verbatim>\<open>getgrnam\<close> on a response whose members are strings: with enough room the group is stored with its name, its
  shifted identifier and the members in order, the pointer array ends with a null pointer behind the last member, and the
  enumeration state (with its mutex) is untouched; otherwise \<^verbatim>\<open>TRYAGAIN\<close> and \<^verbatim>\<open>ERANGE\<close>.\<close>

theorem ensure_group_by_name_correct:
  assumes "json_parse_string (Some data) = Some (VArray a)" and "\<forall>v \<in> set (arr_items a). named v"
    and "find (element_matches (has_name group_name)) (arr_items a) = Some v" and "json_value_get_object (Some v) = Some leaf"
    and "short (json_object_get_string (Some leaf) ''name'')"
    and "members_of (Some leaf) = map VString ss" and "\<forall>s \<in> set ss. short (Some s)" and "length ss < 2 ^ 28 - 1"
    and "wf_caller st" and "0 < base st" and "base st + length (mem st) < 2 ^ 64"
  shows "\<exists>en' st'. ensure_group_by_name data c group_name (en, st) =
        Ret (if group_need (group_spec c (Some leaf) ss) \<le> left st then NSS_STATUS_SUCCESS else NSS_STATUS_TRYAGAIN, en', st') \<and>
      grown st st' \<and>
      (if group_need (group_spec c (Some leaf) ss) \<le> left st
       then en' = en \<and> read_group (length ss) st' = group_spec c (Some leaf) ss \<and> null_terminated (length ss) st' \<and>
         g_name (group_spec c (Some leaf) ss) = cstr group_name
       else errnop st' = ERANGE)"
proof -
  have em: "element_matches (has_name group_name) v"
    using assms(3) by (auto simp: find_Some_iff)
  then obtain name where nm: "json_object_get_string (Some leaf) ''name'' = Some name" "cstr name = cstr group_name"
    using assms(4) by (auto simp: element_matches_def has_name_def split: option.splits)
  have mn: "match_name group_name l = Ret (has_name group_name l)"
    if "v' \<in> set (arr_items a)" "json_value_get_object (Some v') = Some l" for v' l
    using that assms(2) match_name_named by blast
  obtain s en' st' where w: "GROUP_ENSURE c (Some leaf) en st = (s, en', st')"
    using prod_cases3 by blast
  have ml: "length (members_of (Some leaf)) < 2 ^ 28 - 1" using assms(6,8) by simp
  note g = GROUP_ENSURE_grown [OF assms(9) ml w]
  have sp: "s = (if group_need (group_spec c (Some leaf) ss) \<le> left st then NSS_STATUS_SUCCESS else NSS_STATUS_TRYAGAIN) \<and>
    (s = NSS_STATUS_SUCCESS \<longrightarrow> read_group (length ss) st' = group_spec c (Some leaf) ss \<and> null_terminated (length ss) st' \<and>
       en' = en \<and> errnop st' = errnop st)"
    using assms(5) nm by (intro GROUP_ENSURE_spec [OF assms(9-11) w nm(1) _ assms(6-8)]) simp
  have "ensure_group_by_name data c group_name (en, st) = Ret (s, en', st')"
    unfolding ensure_group_by_name_def
    using ensure_by_find [OF assms(1), of "match_name group_name" "has_name group_name"
        "\<lambda>e (en, st). GROUP_ENSURE c e en st" "(en, st)"] mn assms(3,4) w by simp
  moreover have "g_name (group_spec c (Some leaf) ss) = cstr group_name"
    using nm by (simp add: group_spec_def text_of_def)
  ultimately show ?thesis
    using sp g by (intro exI [of _ en'] exI [of _ st']) auto
qed

text \<open>C8. An account lookup never writes outside the buffer it was lent, whatever the server sent: for every body and every
  name or user id, a lookup that returns has changed only bytes of the free part, reports a buffer that is too small with
  \<^verbatim>\<open>ERANGE\<close>, and is \<^verbatim>\<open>UNAVAIL\<close> exactly for a body that is not JSON.\<close>

theorem passwd_lookup_stays_in_buffer:
  assumes "wf_caller st"
    and "ensure_passwd_by_name data c nm (en, st) = Ret (s, en', st') \<or> ensure_passwd_by_uid data c uid (en, st) = Ret (s, en', st')"
  shows "grown st st' \<and> length (mem st') = length (mem st) \<and> (s = NSS_STATUS_TRYAGAIN \<longrightarrow> errnop st' = ERANGE) \<and>
    (s = NSS_STATUS_UNAVAIL \<longleftrightarrow> json_parse_string (Some data) = None)"
proof -
  obtain m where "STNS_ENSURE_BY m (\<lambda>e (en, st). PASSWD_ENSURE c e en st) data (en, st) = Ret (s, en', st')"
    using assms(2) unfolding ensure_passwd_by_name_def ensure_passwd_by_uid_def by blast
  from pw.lookup_writes_free_part [OF assms(1) this] show ?thesis by (simp add: grown_def)
qed

text \<open>C7. The same for groups, whose member names and pointer array share the buffer, for responses whose groups have fewer than
  2 ^ 28 - 1 members: within that bound the size of the array fits its \<^verbatim>\<open>int\<close>, beyond it it does not (see
  \<open>pointer_array_size_wraps\<close>). Members that are not strings, missing members and short buffers are included.\<close>

theorem group_lookup_stays_in_buffer:
  assumes "wf_caller st"
    and "ensure_group_by_name data c nm (en, st) = Ret (s, en', st') \<or> ensure_group_by_gid data c gid (en, st) = Ret (s, en', st')"
    and "\<forall>a v. json_parse_string (Some data) = Some (VArray a) \<and> v \<in> set (arr_items a) \<longrightarrow>
      length (members_of (json_value_get_object (Some v))) < 2 ^ 28 - 1"
  shows "grown st st' \<and> length (mem st') = length (mem st) \<and> (s = NSS_STATUS_TRYAGAIN \<longrightarrow> errnop st' = ERANGE) \<and>
    (s = NSS_STATUS_UNAVAIL \<longleftrightarrow> json_parse_string (Some data) = None)"
proof -
  obtain m where "STNS_ENSURE_BY m (\<lambda>e (en, st). GROUP_ENSURE c e en st) data (en, st) = Ret (s, en', st')"
    using assms(2) unfolding ensure_group_by_name_def ensure_group_by_gid_def by blast
  from gr.lookup_writes_free_part [OF assms(1) this] assms(3) show ?thesis by (simp add: grown_def)
qed

section \<open>Samples\<close>

definition no_ents :: ents where
  "no_ents = \<lparr>entries = None, entry_idx = 0, held = False, bad_unlocks = 0\<rparr>"

definition sample_caller :: "nat \<Rightarrow> 'r \<Rightarrow> 'r caller" where
  "sample_caller n r = \<lparr>mem = replicate n (CHR ''?''), base = 4096, cur = 4096, left = n, errnop = 0, rbuf = r\<rparr>"

definition no_passwd :: passwd where
  "no_passwd = \<lparr>pw_name = 0, pw_passwd = 0, pw_uid = 0, pw_gid = 0, pw_gecos = 0, pw_dir = 0, pw_shell = 0\<rparr>"

definition no_group :: group where
  "no_group = \<lparr>gr_name = 0, gr_passwd = 0, gr_gid = 0, gr_mem = 0\<rparr>"

definition users_json :: string where
  "users_json = ''[{''@[QUOT]@''name''@[QUOT]@'':''@[QUOT]@''bob''@[QUOT]@'',''@[QUOT]@''id''@[QUOT]@'':7}]''"

definition groups_json :: string where
  "groups_json = ''[{''@[QUOT]@''name''@[QUOT]@'':''@[QUOT]@''dev''@[QUOT]@'',''@[QUOT]@''users''@[QUOT]@'':[''@[QUOT]@''al''@[QUOT]@'',''@[QUOT]@''bo''@[QUOT]@'']}]''"

lemma sample_wf: "wf_caller (sample_caller n r)"
  by (simp add: wf_caller_def sample_caller_def)

lemma users_parse:
  obtains a v leaf where "json_parse_string (Some users_json) = Some (VArray a)" "\<forall>v \<in> set (arr_items a). named v"
    "find (element_matches (has_name ''bob'')) (arr_items a) = Some v" "json_value_get_object (Some v) = Some leaf"
    "find (element_matches (\<lambda>l. double_to_uint (json_object_get_number (Some l) ''id'') + uid_shift default_conf = 7)) (arr_items a) = Some v"
    "short (json_object_get_string (Some leaf) ''name'')" "short (json_object_get_string (Some leaf) ''gecos'')"
    "passwd_need (passwd_spec default_conf (Some leaf)) \<le> 64" "json_object_get_number (Some leaf) ''id'' = 7"
    "e_dir (passwd_spec default_conf (Some leaf)) = ''/home/bob''"
proof -
  have "(case json_parse_string (Some users_json) of
      Some (VArray a) \<Rightarrow> list_all named (arr_items a) \<and>
        (case find (element_matches (has_name ''bob'')) (arr_items a) of
           Some v \<Rightarrow> (case json_value_get_object (Some v) of
              Some leaf \<Rightarrow> short (json_object_get_string (Some leaf) ''name'') \<and> short (json_object_get_string (Some leaf) ''gecos'') \<and>
                passwd_need (passwd_spec default_conf (Some leaf)) \<le> 64 \<and> json_object_get_number (Some leaf) ''id'' = 7 \<and>
                e_dir (passwd_spec default_conf (Some leaf)) = ''/home/bob'' \<and>
                hd (arr_items a) = v \<and> length (arr_items a) = 1
            | None \<Rightarrow> False) | None \<Rightarrow> False) | _ \<Rightarrow> False)"
    by code_simp
  then obtain a v leaf where r: "json_parse_string (Some users_json) = Some (VArray a)" "list_all named (arr_items a)"
    "find (element_matches (has_name ''bob'')) (arr_items a) = Some v" "json_value_get_object (Some v) = Some leaf"
    "short (json_object_get_string (Some leaf) ''name'')" "short (json_object_get_string (Some leaf) ''gecos'')"
    "passwd_need (passwd_spec default_conf (Some leaf)) \<le> 64" "json_object_get_number (Some leaf) ''id'' = 7"
    "e_dir (passwd_spec default_conf (Some leaf)) = ''/home/bob''" "arr_items a = [v]"
    by (auto split: option.splits json_value.splits simp: length_Suc_conv)
  moreover have "double_to_uint 7 + uid_shift default_conf = 7" by code_simp
  ultimately show ?thesis
    by (intro that [of a v leaf]) (auto simp: list_all_iff element_matches_def)
qed

theorem ensure_passwd_by_name_correct_witness:
  "\<exists>st'. ensure_passwd_by_name users_json default_conf ''bob'' (no_ents, sample_caller 64 no_passwd) = Ret (NSS_STATUS_SUCCESS, no_ents, st') \<and>
     e_name (read_passwd st') = ''bob'' \<and> e_dir (read_passwd st') = ''/home/bob''"
proof (rule users_parse)
  fix a v leaf
  assume a: "json_parse_string (Some users_json) = Some (VArray a)" "\<forall>v \<in> set (arr_items a). named v"
    "find (element_matches (has_name ''bob'')) (arr_items a) = Some v" "json_value_get_object (Some v) = Some leaf"
    "short (json_object_get_string (Some leaf) ''name'')" "short (json_object_get_string (Some leaf) ''gecos'')"
    "passwd_need (passwd_spec default_conf (Some leaf)) \<le> 64" "e_dir (passwd_spec default_conf (Some leaf)) = ''/home/bob''"
  show ?thesis
    using ensure_passwd_by_name_correct [OF a(1-6) sample_wf [of 64 no_passwd], of default_conf no_ents] a(7,8)
    by (auto simp: sample_caller_def)
qed

theorem ensure_passwd_by_uid_correct_witness:
  "\<exists>st'. ensure_passwd_by_uid users_json default_conf 7 (no_ents, sample_caller 64 no_passwd) = Ret (NSS_STATUS_SUCCESS, no_ents, st') \<and>
     e_uid (read_passwd st') = 7"
proof (rule users_parse)
  fix a v leaf
  assume a: "json_parse_string (Some users_json) = Some (VArray a)"
    "find (element_matches (\<lambda>l. double_to_uint (json_object_get_number (Some l) ''id'') + uid_shift default_conf = 7)) (arr_items a) = Some v"
    "json_value_get_object (Some v) = Some leaf"
    "short (json_object_get_string (Some leaf) ''name'')" "short (json_object_get_string (Some leaf) ''gecos'')"
    "passwd_need (passwd_spec default_conf (Some leaf)) \<le> 64" "json_object_get_number (Some leaf) ''id'' = 7"
  show ?thesis
    using ensure_passwd_by_uid_correct [OF a(1-5) sample_wf [of 64 no_passwd], of no_ents] a(6,7)
    by (auto simp: sample_caller_def)
qed

lemma get_string_Some: "json_value_get_string (Some v) = Some s \<longleftrightarrow> v = VString s"
  by (cases v) (auto simp: json_value_get_string_def json_value_get_string_desc_def)

lemma groups_parse:
  obtains a v leaf where "json_parse_string (Some groups_json) = Some (VArray a)" "\<forall>v \<in> set (arr_items a). named v"
    "find (element_matches (has_name ''dev'')) (arr_items a) = Some v" "json_value_get_object (Some v) = Some leaf"
    "short (json_object_get_string (Some leaf) ''name'')" "members_of (Some leaf) = map VString [''al'', ''bo'']" "arr_items a = [v]"
    "group_need (group_spec default_conf (Some leaf) [''al'', ''bo'']) \<le> 64"
proof -
  have "(case json_parse_string (Some groups_json) of
      Some (VArray a) \<Rightarrow> list_all named (arr_items a) \<and>
        (case find (element_matches (has_name ''dev'')) (arr_items a) of
           Some v \<Rightarrow> (case json_value_get_object (Some v) of
              Some leaf \<Rightarrow> short (json_object_get_string (Some leaf) ''name'') \<and>
                map (\<lambda>v. json_value_get_string (Some v)) (members_of (Some leaf)) = [Some ''al'', Some ''bo''] \<and>
                group_need (group_spec default_conf (Some leaf) [''al'', ''bo'']) \<le> 64 \<and>
                hd (arr_items a) = v \<and> length (arr_items a) = 1
            | None \<Rightarrow> False) | None \<Rightarrow> False) | _ \<Rightarrow> False)"
    by code_simp
  then obtain a v leaf where r: "json_parse_string (Some groups_json) = Some (VArray a)" "list_all named (arr_items a)"
    "find (element_matches (has_name ''dev'')) (arr_items a) = Some v" "json_value_get_object (Some v) = Some leaf"
    "short (json_object_get_string (Some leaf) ''name'')" "arr_items a = [v]"
    "map (\<lambda>v. json_value_get_string (Some v)) (members_of (Some leaf)) = [Some ''al'', Some ''bo'']"
    "group_need (group_spec default_conf (Some leaf) [''al'', ''bo'']) \<le> 64"
    by (auto split: option.splits json_value.splits simp: length_Suc_conv)
  moreover have "members_of (Some leaf) = map VString [''al'', ''bo'']"
    using r(7) by (auto simp: map_eq_Cons_conv get_string_Some)
  ultimately show ?thesis
    by (intro that [of a v leaf]) (auto simp: list_all_iff)
qed

theorem ensure_group_by_name_correct_witness:
  "\<exists>st'. ensure_group_by_name groups_json default_conf ''dev'' (no_ents, sample_caller 64 no_group) = Ret (NSS_STATUS_SUCCESS, no_ents, st') \<and>
     g_members (read_group 2 st') = [''al'', ''bo''] \<and> null_terminated 2 st'"
proof (rule groups_parse)
  fix a v leaf
  assume a: "json_parse_string (Some groups_json) = Some (VArray a)" "\<forall>v \<in> set (arr_items a). named v"
    "find (element_matches (has_name ''dev'')) (arr_items a) = Some v" "json_value_get_object (Some v) = Some leaf"
    "short (json_object_get_string (Some leaf) ''name'')" "members_of (Some leaf) = map VString [''al'', ''bo'']"
    "group_need (group_spec default_conf (Some leaf) [''al'', ''bo'']) \<le> 64"
  have "\<exists>st'. ensure_group_by_name groups_json default_conf ''dev'' (no_ents, sample_caller 64 no_group) =
      Ret (NSS_STATUS_SUCCESS, no_ents, st') \<and>
     g_members (read_group (Suc (Suc 0)) st') = [''al'', ''bo''] \<and> null_terminated (Suc (Suc 0)) st'"
    using ensure_group_by_name_correct [OF a(1-6) _ _ sample_wf [of 64 no_group], of default_conf no_ents] a(7)
    by (auto simp: sample_caller_def short_Some group_spec_def)
  then show ?thesis by (simp add: numeral_2_eq_2)
qed

theorem passwd_lookup_stays_in_buffer_witness:
  "\<exists>s en' st'. ensure_passwd_by_name users_json default_conf ''bob'' (no_ents, sample_caller 9 no_passwd) = Ret (s, en', st') \<and>
     s = NSS_STATUS_TRYAGAIN \<and> length (mem st') = 9 \<and> errnop st' = ERANGE"
proof -
  have "(case ensure_passwd_by_name users_json default_conf ''bob'' (no_ents, sample_caller 9 no_passwd) of
     Ret (s, en', st') \<Rightarrow> s = NSS_STATUS_TRYAGAIN | Segv \<Rightarrow> False)" by code_simp
  then obtain en' st' where r: "ensure_passwd_by_name users_json default_conf ''bob'' (no_ents, sample_caller 9 no_passwd)
      = Ret (NSS_STATUS_TRYAGAIN, en', st')"
    by (auto split: outcome.splits)
  show ?thesis
    using passwd_lookup_stays_in_buffer [OF sample_wf disjI1 [OF r]] r by (simp add: sample_caller_def)
qed

theorem group_lookup_stays_in_buffer_witness:
  "\<exists>s en' st'. ensure_group_by_name groups_json default_conf ''dev'' (no_ents, sample_caller 20 no_group) = Ret (s, en', st') \<and>
     s = NSS_STATUS_TRYAGAIN \<and> length (mem st') = 20 \<and> errnop st' = ERANGE"
proof (rule groups_parse)
  fix a v leaf
  assume a: "json_parse_string (Some groups_json) = Some (VArray a)" "arr_items a = [v]" "json_value_get_object (Some v) = Some leaf"
    "members_of (Some leaf) = map VString [''al'', ''bo'']"
  have "(case ensure_group_by_name groups_json default_conf ''dev'' (no_ents, sample_caller 20 no_group) of
     Ret (s, en', st') \<Rightarrow> s = NSS_STATUS_TRYAGAIN | Segv \<Rightarrow> False)" by code_simp
  then obtain en' st' where r: "ensure_group_by_name groups_json default_conf ''dev'' (no_ents, sample_caller 20 no_group)
      = Ret (NSS_STATUS_TRYAGAIN, en', st')"
    by (auto split: outcome.splits)
  show ?thesis
    using group_lookup_stays_in_buffer [OF sample_wf disjI1 [OF r]] r a by (simp add: sample_caller_def)
qed

section \<open>Behaviours worth knowing\<close>

text \<open>An object without a name in front of the requested one makes a lookup by name pass a null pointer to \<^verbatim>\<open>strcmp\<close>.\<close>

lemma nameless_object_crashes:
  "ensure_passwd_by_name (''[{},'' @ tl users_json) default_conf ''bob'' (no_ents, sample_caller 64 no_passwd) = Segv"
  by code_simp

text \<open>A group lookup that fails for want of room unlocks a mutex it never locked.\<close>

lemma group_lookup_unlocks_unheld_mutex:
  "(case ensure_group_by_name groups_json default_conf ''dev'' (no_ents, sample_caller 20 no_group) of
      Ret (s, en, st) \<Rightarrow> bad_unlocks en = 1 | Segv \<Rightarrow> False)"
  by code_simp

text \<open>The size of the pointer array is an \<^verbatim>\<open>int\<close>: for 2 ^ 29 - 1 members it wraps to 0. The check of the room then passes in every
  buffer, and the names are laid over the array.\<close>

lemma pointer_array_size_wraps: "ptr_area_size (2 ^ 29 - 1) = 0"
proof -
  have "(4294967296 :: i32) = 0" by code_simp
  then show ?thesis by (simp add: ptr_area_size_def ulong_def)
qed

text \<open>The same at the level of the writer: a group of that many members that are all numbers is stored without any room left behind
  its name, and the null pointer that ends the array is written 8 * (2 ^ 29 - 1) bytes behind the free part.\<close>

lemma skipped_members: "\<forall>v \<in> set vs. json_value_get_string (Some v) = None \<Longrightarrow> set_members vs i st = (True, st)"
  by (induction vs arbitrary: i) auto

lemma huge_group_written_without_room:
  assumes "length vs = 2 ^ 29 - 1" "\<forall>v \<in> set vs. json_value_get_string (Some v) = None" "left st = 0"
  shows "group_members en vs st =
    (NSS_STATUS_SUCCESS, en, poke_ptr (cur st) (2 ^ 29 - 1) 0 (st\<lparr>rbuf := (rbuf st)\<lparr>gr_mem := cur st\<rparr>\<rparr>))"
  using assms pointer_array_size_wraps by (simp add: group_members_def skipped_members Let_def del: set_members.simps)

text \<open>An identifier from 2 ^ 31 on matches as a \<^verbatim>\<open>uid_t\<close> and is stored as an \<^verbatim>\<open>int\<close>: the lookup of 3000000000 delivers
  the user id 2147483648.\<close>

lemma large_uid_answered_as_another:
  "(case ensure_passwd_by_uid (''[{'' @ [QUOT] @ ''name'' @ [QUOT] @ '':'' @ [QUOT] @ ''bob'' @ [QUOT] @ '','' @ [QUOT] @ ''id'' @ [QUOT] @ '':3000000000}]'')
      default_conf 3000000000 (no_ents, sample_caller 64 no_passwd) of
      Ret (s, en, st) \<Rightarrow> s = NSS_STATUS_SUCCESS \<and> e_uid (read_passwd st) = 2147483648 | Segv \<Rightarrow> False)"
  by code_simp

text \<open>A member that is not a string leaves its slot of the pointer array as the caller's buffer was: the list a reader
  follows holds a wild pointer (here the bytes of the question marks).\<close>

lemma non_string_member_leaves_slot:
  "(case GROUP_ENSURE default_conf
      (json_value_get_object (case json_parse_string (Some (''{'' @ [QUOT] @ ''name'' @ [QUOT] @ '':'' @ [QUOT] @ ''dev'' @ [QUOT] @ '','' @
         [QUOT] @ ''users'' @ [QUOT] @ '':[1]}'')) of v \<Rightarrow> v)) no_ents (sample_caller 64 no_group) of
      (s, en, st) \<Rightarrow> s = NSS_STATUS_SUCCESS \<and> ptr_at st (gr_mem (rbuf st)) 0 = 0x3F3F3F3F3F3F3F3F)"
  by code_simp

end
