(* ===== verification/Toml_Text.thy ===== *)
theory Toml_Text
  imports Parson_Utf8
begin

text \<open>
  The lexical functions of \<^verbatim>\<open>toml.c\<close>: UTF-8 (\<^verbatim>\<open>toml_utf8_to_ucs\<close>, \<^verbatim>\<open>toml_ucs_to_utf8\<close>), escape sequences (\<^verbatim>\<open>normalize_string\<close>)
  and the conversions of raw values (\<^verbatim>\<open>toml_rtob\<close>, \<^verbatim>\<open>toml_rtoi\<close>, \<^verbatim>\<open>toml_rtod\<close>, \<^verbatim>\<open>toml_rtots\<close>, \<^verbatim>\<open>toml_rtos\<close>).

  A conversion that returns \<^verbatim>\<open>-1\<close> is \<open>None\<close>. \<^verbatim>\<open>toml_rtoi\<close>, \<^verbatim>\<open>toml_rtod\<close> and \<^verbatim>\<open>toml_rtos\<close> may have written their result before they
  fail; what a caller finds in its variable then is part of the model (\<open>rt_result\<close>).
\<close>

section \<open>UTF-8\<close>

text \<open>\<open>j\<close> continuation bytes are read; \<open>None\<close> when one is malformed.\<close>

fun toml_utf8_conts :: "nat \<Rightarrow> string \<Rightarrow> int \<Rightarrow> int option" where
  "toml_utf8_conts 0 buf v = Some v"
| "toml_utf8_conts (Suc j) buf v =
     (let i = int (code (char_at buf 0)) in
      if drop_bit 6 i \<noteq> 2 then None
      else toml_utf8_conts j (drop 1 buf) (push_bit 6 v OR (i AND 0x3f)))"

text \<open>The character and the number of bytes it takes\<close>

definition toml_utf8_to_ucs :: "string \<Rightarrow> nat \<Rightarrow> (int \<times> nat) option" where
  "toml_utf8_to_ucs orig len =
     (let i = int (code (char_at orig 0)); buf = drop 1 orig;
          more = (\<lambda>n m. if len < n then None
                         else map_option (\<lambda>v. (v, n)) (toml_utf8_conts (n - 1) buf (i AND m)))
      in if drop_bit 7 i = 0 then (if len < 1 then None else Some (i, 1))
         else if drop_bit 5 i = 0x6 then more 2 0x1f
         else if drop_bit 4 i = 0xE then more 3 0x0f
         else if drop_bit 3 i = 0x1E then more 4 0x07
         else if drop_bit 2 i = 0x3E then more 5 0x03
         else if drop_bit 1 i = 0x7e then more 6 0x01
         else None)"

definition uchar :: "int \<Rightarrow> char" where
  "uchar x = char_of (nat (x mod 256))"

text \<open>The bytes stored in \<^verbatim>\<open>buf\<close>\<close>

definition toml_ucs_to_utf8 :: "int \<Rightarrow> string option" where
  "toml_ucs_to_utf8 ucs =
     (let c = (\<lambda>n. uchar (0x80 OR (drop_bit n ucs AND 0x3f))) in
      if 0xd800 \<le> ucs \<and> ucs \<le> 0xdfff then None
      else if 0xfffe \<le> ucs \<and> ucs \<le> 0xffff then None
      else if ucs < 0 then None
      else if ucs \<le> 0x7F then Some [uchar ucs]
      else if ucs \<le> 0x7FF then Some [uchar (0xc0 OR drop_bit 6 ucs), c 0]
      else if ucs \<le> 0xFFFF then Some [uchar (0xe0 OR drop_bit 12 ucs), c 6, c 0]
      else if ucs \<le> 0x1FFFFF then Some [uchar (0xf0 OR drop_bit 18 ucs), c 12, c 6, c 0]
      else if ucs \<le> 0x3FFFFFF then Some [uchar (0xf8 OR drop_bit 24 ucs), c 18, c 12, c 6, c 0]
      else if ucs \<le> 0x7FFFFFFF then Some [uchar (0xfc OR drop_bit 30 ucs), c 24, c 18, c 12, c 6, c 0]
      else None)"

section \<open>Escape sequences\<close>

definition hex_digit :: "char \<Rightarrow> int option" where
  "hex_digit ch =
     (if 48 \<le> code ch \<and> code ch \<le> 57 then Some (int (code ch) - 48)
      else if 65 \<le> code ch \<and> code ch \<le> 70 then Some (int (code ch) - 65 + 10) else None)"

text \<open>Error messages of \<^verbatim>\<open>normalize_string\<close>\<close>

datatype string_error = Last_backslash | Expects_hex nat | Invalid_hex | Illegal_ucs | Illegal_escape char

text \<open>\<open>n\<close> is \<^verbatim>\<open>sq - sp\<close>, \<open>s\<close> what \<^verbatim>\<open>sp\<close> points to (past \<^verbatim>\<open>sq\<close>, too).\<close>

fun read_hex :: "nat \<Rightarrow> nat \<Rightarrow> nat \<Rightarrow> string \<Rightarrow> int \<Rightarrow> string_error + (int \<times> nat \<times> string)" where
  "read_hex nhex 0 n s ucs = Inr (ucs, n, s)"
| "read_hex nhex (Suc k) n s ucs =
     (if n = 0 then Inl (Expects_hex nhex)
      else case hex_digit (char_at s 0) of
             None \<Rightarrow> Inl Invalid_hex
           | Some v \<Rightarrow> read_hex nhex k (n - 1) (drop 1 s) (ucs * 16 + v))"

definition toml_escape :: "char \<Rightarrow> char option" where
  "toml_escape ch =
     (if ch = CHR ''b'' then Some BS else if ch = CHR ''t'' then Some TAB else if ch = CHR ''n'' then Some LF
      else if ch = CHR ''f'' then Some FF else if ch = CHR ''r'' then Some CR
      else if ch = QUOT then Some QUOT else if ch = BSLASH then Some BSLASH else None)"

definition is_blank :: "char \<Rightarrow> bool" where
  "is_blank c \<longleftrightarrow> c = CHR '' '' \<or> c = TAB \<or> c = CR \<or> c = LF"

definition strspn_blank :: "string \<Rightarrow> nat" where
  "strspn_blank s = length (takeWhile is_blank s)"

lemma read_hex_length: "read_hex nhex k n s ucs = Inr (v, n', s') \<Longrightarrow> n' + k = n \<and> s' = drop k s"
proof (induction k arbitrary: n s ucs)
  case (Suc k)
  then show ?case
    by (auto split: if_splits option.splits dest!: Suc.IH simp: add.commute)
qed simp

function normalize_loop :: "bool \<Rightarrow> nat \<Rightarrow> string \<Rightarrow> string \<Rightarrow> string_error + string" where
  "normalize_loop kill n s dst =
     (if n = 0 then Inr dst
      else
        let ch = char_at s 0; s1 = drop 1 s; n1 = n - 1 in
        if ch \<noteq> BSLASH then normalize_loop kill n1 s1 (dst @ [ch])
        else if n1 = 0 then Inl Last_backslash
        else if kill \<and> (char_at s1 0 = LF \<or> char_at s1 0 = CR \<and> char_at s1 1 = LF) then
          normalize_loop kill (n1 - strspn_blank s1) (drop (strspn_blank s1) s1) dst
        else
          let e = char_at s1 0; s2 = drop 1 s1; n2 = n1 - 1 in
          if e = CHR ''u'' \<or> e = CHR ''U'' then
            let nhex = (if e = CHR ''u'' then 4 else 8) in
            (case read_hex nhex nhex n2 s2 0 of
               Inl err \<Rightarrow> Inl err
             | Inr (ucs, n3, s3) \<Rightarrow>
                 (case toml_ucs_to_utf8 ucs of
                    None \<Rightarrow> Inl Illegal_ucs
                  | Some bytes \<Rightarrow> normalize_loop kill n3 s3 (dst @ bytes)))
          else
            (case toml_escape e of
               None \<Rightarrow> Inl (Illegal_escape e)
             | Some c \<Rightarrow> normalize_loop kill n2 s2 (dst @ [c])))"
  by pat_completeness auto
termination
  by (relation "measure (\<lambda>(kill, n, s, dst). n)") (auto dest!: read_hex_length)

declare normalize_loop.simps [simp del]

definition normalize_string :: "string \<Rightarrow> nat \<Rightarrow> bool \<Rightarrow> string_error + string" where
  "normalize_string src srclen kill = normalize_loop kill srclen src []"

section \<open>Booleans and numbers\<close>

text \<open>Whether the conversion succeeds, and what it has written to the result (\<open>None\<close>: nothing)\<close>

type_synonym 'a rt_result = "bool \<times> 'a option"

definition toml_rtob :: "string option \<Rightarrow> bool rt_result" where
  "toml_rtob src =
     (case src of
        None \<Rightarrow> (False, None)
      | Some s \<Rightarrow>
          if s = ''true'' then (True, Some True) else if s = ''false'' then (True, Some False) else (False, None))"

definition octval :: "char \<Rightarrow> int option" where
  "octval c = (if 48 \<le> code c \<and> code c \<le> 55 then Some (int (code c) - 48) else None)"

text \<open>\<^verbatim>\<open>strtoll (s, &endp, 0)\<close>: value, rest and whether \<^verbatim>\<open>errno\<close> is set\<close>

definition strtoll0 :: "string \<Rightarrow> int \<times> string \<times> bool" where
  "strtoll0 s =
     (let t = dropWhile isspace s;
          (neg, u) = (case t of
             [] \<Rightarrow> (False, t)
           | c # r \<Rightarrow> if c = CHR ''-'' then (True, r) else if c = CHR ''+'' then (False, r) else (False, t));
          (v, n, rest) =
            (if ci_prefix ''0x'' u \<and> hexval (char_at u 2) \<noteq> None then read_base hexval 16 0 0 (drop 2 u)
             else if take 1 u = ''0'' then read_base octval 8 0 0 u
             else read_base decval 10 0 0 u);
          w = (if neg then - v else v)
      in if n = 0 then (0, s, False)
         else (max (- (2 ^ 63)) (min (2 ^ 63 - 1) w), rest, w < - (2 ^ 63) \<or> 2 ^ 63 - 1 < w))"

text \<open>Copying without underscores into a buffer with \<open>room\<close> bytes left: the bytes, what was not read, and the room left\<close>

fun strip_underscores :: "nat \<Rightarrow> string \<Rightarrow> string \<times> string \<times> nat" where
  "strip_underscores room [] = ([], [], room)"
| "strip_underscores room (c # s) =
     (if room = 0 then ([], c # s, 0)
      else if c = CHR ''_'' then strip_underscores room s
      else case strip_underscores (room - 1) s of (b, r, k) \<Rightarrow> (c # b, r, k))"

definition toml_rtoi :: "string option \<Rightarrow> i32 rt_result" where
  "toml_rtoi src =
     (case src of
        None \<Rightarrow> (False, None)
      | Some s0 \<Rightarrow>
          let sign = (if char_at s0 0 = CHR ''+'' \<or> char_at s0 0 = CHR ''-'' then take 1 s0 else []);
              s = drop (length sign) s0
          in if char_at s 0 = CHR ''0'' then (if char_at s 1 \<noteq> NUL then (False, None) else (True, Some 0))
             else
               (case strip_underscores (100 - length sign) s of
                  (b, rest, room) \<Rightarrow>
                    if rest \<noteq> [] \<or> room = 0 then (False, None)
                    else (case strtoll0 (sign @ b) of
                            (v, endp, erange) \<Rightarrow> (\<not> erange \<and> endp = [], Some (word_of_int v)))))"

definition toml_rtod :: "string option \<Rightarrow> double rt_result" where
  "toml_rtod src =
     (case src of
        None \<Rightarrow> (False, None)
      | Some s0 \<Rightarrow>
          let sign = (if char_at s0 0 = CHR ''+'' \<or> char_at s0 0 = CHR ''-'' then take 1 s0 else []);
              s = drop (length sign) s0
          in if char_at s 0 = CHR ''.'' then (False, None)
             else if char_at s 0 = CHR ''0'' \<and> char_at s 1 \<noteq> NUL \<and> char_at s 1 \<noteq> CHR ''.'' then (False, None)
             else
               (case strip_underscores (100 - length sign) s of
                  (b, rest, room) \<Rightarrow>
                    let buf = sign @ b in
                    if rest \<noteq> [] \<or> room = 0 then (False, None)
                    else if buf \<noteq> [] \<and> last buf = CHR ''.'' then (False, None)
                    else let r = strtod buf in (\<not> sd_erange r \<and> sd_rest r = [], Some (sd_value r))))"

section \<open>Timestamps\<close>

record toml_timestamp =
  year :: "int option"
  month :: "int option"
  day :: "int option"
  hour :: "int option"
  minute :: "int option"
  second :: "int option"
  zone :: "string option"

definition no_timestamp :: toml_timestamp where
  "no_timestamp = \<lparr>year = None, month = None, day = None, hour = None, minute = None, second = None, zone = None\<rparr>"

text \<open>\<open>k\<close> characters from index \<open>i\<close> on: digits, and the separator at the given indices\<close>

fun read_fields :: "nat \<Rightarrow> nat \<Rightarrow> char \<Rightarrow> nat list \<Rightarrow> string \<Rightarrow> int \<Rightarrow> (int \<times> string) option" where
  "read_fields 0 i sep ixs p val = Some (val, p)"
| "read_fields (Suc k) i sep ixs p val =
     (let xx = char_at p 0 in
      if xx = sep then (if i \<in> set ixs then read_fields k (i + 1) sep ixs (drop 1 p) val else None)
      else if \<not> isdigit xx then None
      else read_fields k (i + 1) sep ixs (drop 1 p) (val * 10 + (int (code xx) - 48)))"

definition rtots_date :: "string \<Rightarrow> (toml_timestamp \<times> string) option" where
  "rtots_date p =
     (if length p > 4 \<and> char_at p 4 = CHR ''-'' then
        (case read_fields 10 0 (CHR ''-'') [4, 7] p 0 of
           None \<Rightarrow> None
         | Some (val, p1) \<Rightarrow>
             let ts = no_timestamp\<lparr>day := Some (val mod 100), month := Some (val div 100 mod 100), year := Some (val div 100 div 100)\<rparr>
             in if p1 = [] then Some (ts, p1)
                else if char_at p1 0 \<noteq> CHR ''T'' then None else Some (ts, drop 1 p1))
      else Some (no_timestamp, p))"

definition rtots_zone :: "string \<Rightarrow> string option" where
  "rtots_zone p =
     (if char_at p 0 = CHR ''Z'' then (if length p = 1 then Some ''Z'' else None)
      else if char_at p 0 = CHR ''+'' \<or> char_at p 0 = CHR ''-'' then
        if \<not> (isdigit (char_at p 1) \<and> isdigit (char_at p 2)) then None
        else if char_at p 3 = CHR '':'' then
          if \<not> (isdigit (char_at p 4) \<and> isdigit (char_at p 5)) then None
          else if length p = 6 then Some (take 6 p) else None
        else if length p = 3 then Some (take 3 p) else None
      else None)"

definition toml_rtots :: "string option \<Rightarrow> toml_timestamp option" where
  "toml_rtots src =
     (case src of
        None \<Rightarrow> None
      | Some s \<Rightarrow>
          (case rtots_date s of
             None \<Rightarrow> None
           | Some (ts, p) \<Rightarrow>
               if p = [] then Some ts
               else if length p < 8 then None
               else
                 (case read_fields 8 0 (CHR '':'') [2, 5] p 0 of
                    None \<Rightarrow> None
                  | Some (val, p1) \<Rightarrow>
                      let ts1 = ts\<lparr>second := Some (val mod 100), minute := Some (val div 100 mod 100), hour := Some (val div 100 div 100)\<rparr>;
                          p2 = (if char_at p1 0 = CHR ''.'' then dropWhile isdigit (drop 1 p1) else p1)
                      in if p2 = [] then Some ts1
                         else map_option (\<lambda>z. ts1\<lparr>zone := Some z\<rparr>) (rtots_zone p2))))"

section \<open>Strings\<close>

function kill_backslash :: "string \<Rightarrow> string \<Rightarrow> string" where
  "kill_backslash pat s =
     (if pat = [] then s
      else case strstr s pat of
             None \<Rightarrow> s
           | Some k \<Rightarrow>
               let q = drop (k + 1) s in take k s @ kill_backslash pat (drop (strspn_blank q) q))"
  by pat_completeness auto
termination
proof (relation "measure (\<lambda>(pat, s). length s)", goal_cases)
  case (2 pat s k x)
  then have "k + length pat \<le> length s" "0 < length pat"
    using strstr_le by auto
  then have "0 < length s" by linarith
  then show ?case using 2 by simp
qed simp

declare kill_backslash.simps [simp del]

definition kill_line_ending_backslash :: "string \<Rightarrow> string" where
  "kill_line_ending_backslash s = kill_backslash [BSLASH, CR, LF] (kill_backslash [BSLASH, LF] s)"

text \<open>The first newline behind the opening quotes is dropped.\<close>

definition skip_first_newline :: "string \<Rightarrow> string" where
  "skip_first_newline sp =
     (if char_at sp 0 = LF then drop 1 sp
      else if char_at sp 0 = CR \<and> char_at sp 1 = LF then drop 2 sp else sp)"

text \<open>A written result of \<open>None\<close> is a null pointer. \<open>sp\<close> keeps what lies behind the closing quotes' position, whose length is \<^verbatim>\<open>q\<close>.\<close>

definition toml_rtos :: "string option \<Rightarrow> string option rt_result" where
  "toml_rtos src =
     (case src of
        None \<Rightarrow> (False, None)
      | Some s \<Rightarrow>
          if char_at s 0 \<noteq> SQUOT \<and> char_at s 0 \<noteq> QUOT then (False, None)
          else if char_at s 0 = SQUOT then
            if starts_with [SQUOT, SQUOT, SQUOT] s then
              (if \<not> (6 \<le> length s \<and> drop (length s - 3) s = [SQUOT, SQUOT, SQUOT]) then (False, Some None)
               else let sp = skip_first_newline (drop 3 s)
                    in (True, Some (Some (kill_line_ending_backslash (take (length sp - 3) sp)))))
            else
              (if \<not> (2 \<le> length s \<and> last s = SQUOT) then (False, Some None)
               else (True, Some (Some (take (length s - 2) (drop 1 s)))))
          else
            let triple = starts_with [QUOT, QUOT, QUOT] s; q = (if triple then 3 else 1) in
            if (if triple then \<not> (6 \<le> length s \<and> drop (length s - 3) s = [QUOT, QUOT, QUOT])
                else \<not> (2 \<le> length s \<and> last s = QUOT)) then (False, Some None)
            else
              let sp = (if triple then skip_first_newline (drop 3 s) else drop 1 s) in
              (case normalize_string sp (length sp - q) True of
                 Inl _ \<Rightarrow> (False, Some None)
               | Inr r \<Rightarrow> (True, Some (Some r))))"

section \<open>Encoding and decoding\<close>

lemma int_or_low:
  fixes m :: int
  assumes "0 \<le> m" "m < 2 ^ k"
  shows "(a * 2 ^ k) OR m = a * 2 ^ k + m"
proof -
  have m: "take_bit k m = m" using assms by (simp add: take_bit_int_eq_self)
  have "(a * 2 ^ k) OR m = concat_bit k m a"
    unfolding concat_bit_def m by (simp add: push_bit_eq_mult or.commute)
  also have "\<dots> = a * 2 ^ k + m"
    unfolding concat_bit_eq m by (simp add: push_bit_eq_mult)
  finally show ?thesis .
qed

lemma int_and_mask: "(x :: int) AND (2 ^ k - 1) = x mod 2 ^ k"
  by (simp only: mask_eq_exp_minus_1 [symmetric] take_bit_eq_mask [symmetric] take_bit_eq_mod)

lemmas int_and_low = int_and_mask [of _ 1, simplified] int_and_mask [of _ 2, simplified] int_and_mask [of _ 3, simplified]
  int_and_mask [of _ 4, simplified] int_and_mask [of _ 5, simplified] int_and_mask [of _ 6, simplified]

lemma code_uchar: "0 \<le> x \<Longrightarrow> x < 256 \<Longrightarrow> int (code (uchar x)) = x"
  by (simp add: uchar_def)

definition contin :: "int \<Rightarrow> nat \<Rightarrow> string" where
  "contin ucs j = map (\<lambda>i. uchar (0x80 OR (drop_bit (6 * i) ucs AND 0x3f))) (rev [0..<j])"

lemma contin_Suc: "contin ucs (Suc j) = uchar (0x80 + ucs div 64 ^ j mod 64) # contin ucs j"
proof -
  have "drop_bit (6 * j) ucs AND 0x3f = ucs div 64 ^ j mod 64"
    by (simp add: int_and_low drop_bit_eq_div power_mult)
  moreover have "0x80 OR (ucs div 64 ^ j mod 64) = 0x80 + ucs div 64 ^ j mod 64"
    using int_or_low [of "ucs div 64 ^ j mod 64" 6 2] by simp
  ultimately show ?thesis by (simp add: contin_def)
qed

lemma utf8_conts_contin: "0 \<le> ucs \<Longrightarrow> toml_utf8_conts j (contin ucs j @ rest) (ucs div 64 ^ j) = Some ucs"
proof (induction j)
  case (Suc j)
  let ?m = "ucs div 64 ^ j mod 64"
  have c: "int (code (uchar (0x80 + ?m))) = 0x80 + ?m"
    by (rule code_uchar) (simp_all add: pos_mod_bound [THEN less_imp_le] add.commute order_less_le_trans)
  have "drop_bit 6 (0x80 + ?m) = 2"
    by (simp add: drop_bit_eq_div)
  moreover have "push_bit 6 (ucs div 64 ^ Suc j) OR ((0x80 + ?m) AND 0x3f) = ucs div 64 ^ j"
  proof -
    have "(0x80 + y mod 64) mod 64 = y mod 64" for y :: int
      using mod_mult_self3 [of 2 64 y] by (simp add: mod_add_right_eq)
    then have "(0x80 + ?m) AND 0x3f = ?m" by (simp add: int_and_low)
    moreover have "ucs div 64 ^ Suc j = ucs div 64 ^ j div 64"
      by (simp only: power_Suc2) (simp add: zdiv_zmult2_eq)
    moreover have "(ucs div 64 ^ j div 64 * 2 ^ 6) OR ?m = ucs div 64 ^ j div 64 * 2 ^ 6 + ?m"
      by (rule int_or_low) simp_all
    ultimately show ?thesis
      by (simp add: push_bit_eq_mult)
  qed
  ultimately show ?case
    using Suc c by (simp add: contin_Suc char_at_def)
qed (simp add: contin_def)


lemma lead_byte:
  assumes "0 \<le> k" "k < 2 ^ b" "0 \<le> tag" "(tag + 1) * 2 ^ b \<le> 256"
  shows "int (code (uchar ((tag * 2 ^ b) OR k))) = tag * 2 ^ b + k"
proof -
  have "tag * 2 ^ b + k < 256" using assms(2,4) by (simp add: algebra_simps)
  moreover have "0 \<le> tag * 2 ^ b" using assms(3) by simp
  ultimately show ?thesis
    unfolding int_or_low [OF assms(1,2)] using assms(1) by (intro code_uchar) linarith+
qed

lemma contin_bytes:
  "contin ucs 1 = [uchar (0x80 OR (drop_bit 0 ucs AND 0x3f))]"
  "contin ucs 2 = [uchar (0x80 OR (drop_bit 6 ucs AND 0x3f)), uchar (0x80 OR (drop_bit 0 ucs AND 0x3f))]"
  "contin ucs 3 = uchar (0x80 OR (drop_bit 12 ucs AND 0x3f)) # contin ucs 2"
  "contin ucs 4 = uchar (0x80 OR (drop_bit 18 ucs AND 0x3f)) # contin ucs 3"
  "contin ucs 5 = uchar (0x80 OR (drop_bit 24 ucs AND 0x3f)) # contin ucs 4"
  by (simp_all add: contin_def eval_nat_numeral)

text \<open>Encoding is a lead byte followed by continuation bytes.\<close>

definition lead_of :: "int \<Rightarrow> nat \<times> int \<times> nat" where
  "lead_of ucs =
     (if ucs \<le> 0x7FF then (1, 6, 5) else if ucs \<le> 0xFFFF then (2, 14, 4) else if ucs \<le> 0x1FFFFF then (3, 30, 3)
      else if ucs \<le> 0x3FFFFFF then (4, 62, 2) else (5, 126, 1))"

lemma ucs_to_utf8_cases:
  assumes "toml_ucs_to_utf8 ucs = Some bs"
  shows "0 \<le> ucs \<and> ucs \<le> 0x7FFFFFFF \<and>
    (if ucs \<le> 0x7F then bs = [uchar ucs]
     else case lead_of ucs of (j, tag, b) \<Rightarrow> bs = uchar ((tag * 2 ^ b) OR drop_bit (6 * j) ucs) # contin ucs j)"
  using assms by (auto simp: toml_ucs_to_utf8_def Let_def lead_of_def contin_bytes contin_bytes [simplified] split: if_splits)

lemma lead_bound:
  assumes "0x7F < ucs" "ucs \<le> 0x7FFFFFFF" "lead_of ucs = (j, tag, b)"
  shows "0 \<le> ucs div 64 ^ j" "ucs div 64 ^ j < 2 ^ b" "0 \<le> tag" "(tag + 1) * 2 ^ b \<le> 256"
  using assms by (auto simp: lead_of_def div_less_iff_less_mult split: if_splits)

lemma drop_lead:
  fixes k :: int
  assumes "0 \<le> k" "k < 2 ^ b"
  shows "drop_bit (b + m) (tag * 2 ^ b + k) = tag div 2 ^ m"
proof -
  have "(tag * 2 ^ b + k) div 2 ^ b = tag" using assms by simp
  then show ?thesis
    by (simp add: drop_bit_eq_div power_add zdiv_zmult2_eq)
qed

lemma utf8_roundtrip:
  assumes "toml_ucs_to_utf8 ucs = Some bs"
  shows "toml_utf8_to_ucs (bs @ rest) (length bs + n) = Some (ucs, length bs)"
proof (cases "ucs \<le> 0x7F")
  case True
  then have "0 \<le> ucs" "bs = [uchar ucs]" using ucs_to_utf8_cases [OF assms] by auto
  moreover have "ucs div 128 = 0" using True \<open>0 \<le> ucs\<close> by simp
  ultimately show ?thesis
    using True by (simp add: toml_utf8_to_ucs_def char_at_def code_uchar drop_bit_eq_div)
next
  case False
  obtain j tag b where l: "lead_of ucs = (j, tag, b)" by (cases "lead_of ucs")
  let ?k = "ucs div 64 ^ j"
  have u: "0 \<le> ucs" "ucs \<le> 0x7FFFFFFF" and bs: "bs = uchar ((tag * 2 ^ b) OR drop_bit (6 * j) ucs) # contin ucs j"
    using ucs_to_utf8_cases [OF assms] False l by auto
  note lb = lead_bound [OF _ u(2) l]
  have k: "drop_bit (6 * j) ucs = ?k" by (simp add: drop_bit_eq_div power_mult)
  have c: "int (code (char_at (bs @ rest) 0)) = tag * 2 ^ b + ?k"
    unfolding bs k using lead_byte [OF lb] False by (simp add: char_at_def)
  have d: "drop 1 (bs @ rest) = contin ucs j @ rest" by (simp add: bs)
  have len: "length bs = j + 1" by (simp add: bs contin_def)
  have and1: "(tag * 2 ^ b + ?k) mod 2 ^ b = ?k"
    using lb False by simp
  note cont = utf8_conts_contin [OF u(1), of j rest]
  have dv: "0 \<le> ?k" "?k < 2 ^ b" using lb False by auto
  define k where "k = ?k"
  have dl: "drop_bit (b + m) (tag * 2 ^ b + k) = tag div 2 ^ m" for m
    using drop_lead [OF dv, of m tag] by (simp only: k_def)
  have more: "toml_utf8_conts (j + 1 - 1) (contin ucs j @ rest) ((tag * 2 ^ b + k) AND (2 ^ b - 1)) = Some ucs"
    unfolding int_and_mask and1 [folded k_def] using cont by (simp add: k_def)
  consider "j = 1" "tag = 6" "b = 5" | "j = 2" "tag = 14" "b = 4" | "j = 3" "tag = 30" "b = 3"
    | "j = 4" "tag = 62" "b = 2" | "j = 5" "tag = 126" "b = 1"
    using l by (auto simp: lead_of_def split: if_splits)
  then show ?thesis
  proof cases
    case 1
    show ?thesis
      unfolding toml_utf8_to_ucs_def Let_def c d len k_def [symmetric]
      using dl [of 0] dl [of 2] more unfolding 1 by simp
  next
    case 2
    show ?thesis
      unfolding toml_utf8_to_ucs_def Let_def c d len k_def [symmetric]
      using dl [of 0] dl [of 1] dl [of 3] more unfolding 2 by simp
  next
    case 3
    show ?thesis
      unfolding toml_utf8_to_ucs_def Let_def c d len k_def [symmetric]
      using dl [of 0] dl [of 1] dl [of 2] dl [of 4] more unfolding 3 by simp
  next
    case 4
    show ?thesis
      unfolding toml_utf8_to_ucs_def Let_def c d len k_def [symmetric]
      using dl [of 0] dl [of 1] dl [of 2] dl [of 3] dl [of 5] more unfolding 4 by simp
  next
    case 5
    have "drop_bit 2 (252 + k) = 63" "drop_bit 3 (252 + k) = 31"
      using dl [of 1] dl [of 2] unfolding 5 by (simp_all add: numeral_2_eq_2 numeral_3_eq_3)
    then show ?thesis
      unfolding toml_utf8_to_ucs_def Let_def c d len k_def [symmetric]
      using dl [of 0] dl [of 3] dl [of 4] dl [of 6] more unfolding 5 by simp
  qed
qed

text \<open>For the scalar values of Unicode the encoder agrees with the reference encoder, the two noncharacters apart.\<close>

lemma uchar_int: "uchar (int k) = char_of k"
  by (simp add: uchar_def nat_mod_distrib)

lemma ucs_to_utf8_code:
  assumes "scalar n" "n \<noteq> 0xFFFE" "n \<noteq> 0xFFFF"
  shows "toml_ucs_to_utf8 (int n) = Some (utf8_code n)"
proof -
  have n: "n < 0x110000" "\<not> (0xd800 \<le> int n \<and> int n \<le> 0xdfff)" "\<not> (0xfffe \<le> int n \<and> int n \<le> 0xffff)"
    using assms by (auto simp: scalar_def)
  have c: "uchar (0x80 OR (drop_bit (6 * i) (int n) AND 0x3f)) = char_of (128 + n div 64 ^ i mod 64)" for i
  proof -
    have "uchar (0x80 OR (drop_bit (6 * i) (int n) AND 0x3f)) = uchar (int (128 + n div 64 ^ i mod 64))"
      using int_or_low [of "int n div 64 ^ i mod 64" 6 2]
      by (simp add: int_and_low drop_bit_eq_div power_mult zdiv_int zmod_int)
    also have "\<dots> = char_of (128 + n div 64 ^ i mod 64)"
      by (rule uchar_int)
    finally show ?thesis .
  qed
  have l: "uchar (int (tag * 2 ^ b) OR drop_bit (6 * j) (int n)) = char_of (tag * 2 ^ b + n div 64 ^ j)"
    if "n div 64 ^ j < 2 ^ b" for tag b j :: nat
  proof -
    have "int (n div 64 ^ j) < 2 ^ b" using that by (metis of_nat_less_iff of_nat_power of_nat_numeral)
    then have "int (tag * 2 ^ b) OR drop_bit (6 * j) (int n) = int (tag * 2 ^ b + n div 64 ^ j)"
      using int_or_low [of "int n div 64 ^ j" b "int tag"] by (simp add: drop_bit_eq_div power_mult zdiv_int pos_imp_zdiv_nonneg_iff)
    then show ?thesis
      by (simp only: uchar_int)
  qed
  have c0: "uchar (0x80 OR (drop_bit 0 (int n) AND 0x3f)) = char_of (128 + n mod 64)"
    and c6: "uchar (0x80 OR (drop_bit 6 (int n) AND 0x3f)) = char_of (128 + n div 64 mod 64)"
    and c12: "uchar (0x80 OR (drop_bit 12 (int n) AND 0x3f)) = char_of (128 + n div 4096 mod 64)"
    using c [of 0] c [of 1] c [of 2] by (simp_all only: mult_0_right mult_1_right power_0 div_by_1 power_one_right) simp_all
  note defs = toml_ucs_to_utf8_def utf8_code_def utf8_enc_def
  consider "n < 0x80" | "0x80 \<le> n" "n < 0x800" | "0x800 \<le> n" "n < 0x10000" | "0x10000 \<le> n" by linarith
  then show ?thesis
  proof cases
    case 1
    then show ?thesis by (simp add: defs uchar_int)
  next
    case 2
    then have "n div 64 < 32" by simp
    with l [of 1 5 6] have "uchar (0xc0 OR drop_bit 6 (int n)) = char_of (192 + n div 64)" by simp
    with 2 c0 show ?thesis by (simp add: defs del: drop_bit_0)
  next
    case 3
    then have "n div 4096 < 16" by simp
    with l [of 2 4 14] have "uchar (0xe0 OR drop_bit 12 (int n)) = char_of (224 + n div 4096)" by simp
    with 3 n c0 c6 show ?thesis by (simp add: defs del: drop_bit_0)
  next
    case 4
    then have "n div 262144 < 8" using n(1) by simp
    with l [of 3 3 30] have "uchar (0xf0 OR drop_bit 18 (int n)) = char_of (240 + n div 262144)" by simp
    with 4 n c0 c6 c12 show ?thesis by (simp add: defs del: drop_bit_0)
  qed
qed

text \<open>Decoding inverts encoding: whatever code the encoder accepts, its bytes (with anything behind them) decode to that code and
  consume exactly those bytes; and for Unicode scalar values other than the noncharacters U+FFFE and U+FFFF the bytes are the
  standard UTF-8 encoding.\<close>

theorem toml_utf8_roundtrip:
  assumes "toml_ucs_to_utf8 ucs = Some bs"
  shows "toml_utf8_to_ucs (bs @ rest) (length bs + n) = Some (ucs, length bs) \<and>
    (scalar (nat ucs) \<longrightarrow> bs = utf8_code (nat ucs))"
proof -
  have "0 \<le> ucs" "nat ucs \<noteq> 0xFFFE" "nat ucs \<noteq> 0xFFFF"
    using assms by (auto simp: toml_ucs_to_utf8_def Let_def split: if_splits)
  then have "bs = utf8_code (nat ucs)" if "scalar (nat ucs)"
    using ucs_to_utf8_code [OF that] assms by simp
  with utf8_roundtrip [OF assms] show ?thesis by simp
qed

theorem toml_utf8_roundtrip_witness:
  "\<exists>bs. toml_ucs_to_utf8 0x20AC = Some bs \<and> toml_utf8_to_ucs (bs @ ''!'') (length bs + 1) = Some (0x20AC, length bs)"
proof -
  have "toml_ucs_to_utf8 0x20AC \<noteq> None" by code_simp
  then obtain bs where "toml_ucs_to_utf8 0x20AC = Some bs" by blast
  with toml_utf8_roundtrip [OF this, of "''!''" 1] show ?thesis by blast
qed

section \<open>Integers read back\<close>

lemma strip_digits:
  "list_all isdigit s \<Longrightarrow> length s < room \<Longrightarrow> strip_underscores room s = (s, [], room - length s)"
  by (induction s arbitrary: room) (auto simp: isdigit_def code_def)

lemma strtoll0_digits:
  assumes "list_all isdigit ds" "ds \<noteq> []" "hd ds \<noteq> CHR ''0''"
  shows "strtoll0 ds = (min (2 ^ 63 - 1) (int (read_digits 0 ds)), [], 2 ^ 63 - 1 < int (read_digits 0 ds))" (is ?A)
    and "strtoll0 (CHR ''-'' # ds) =
      (max (- (2 ^ 63)) (- int (read_digits 0 ds)), [], - int (read_digits 0 ds) < - (2 ^ 63))" (is ?B)
proof -
  obtain c r where ds: "ds = c # r" "isdigit c" using assms(1,2) by (cases ds) auto
  have c: "\<not> isspace c" "c \<noteq> CHR ''-''" "c \<noteq> CHR ''+''" "lower c = c" "c \<noteq> CHR ''0''"
    using ds assms(3) by (auto simp: lower_def ctype_simps)
  have x: "\<not> ci_prefix ''0x'' ds" "take 1 ds \<noteq> ''0''"
    using c by (auto simp: ci_prefix_def ds)
  have rb: "read_base decval 10 0 0 ds = (int (read_digits 0 ds), length ds, [])"
    using read_base_digits [OF assms(1), of "[]" 0 0] by simp
  have dw: "dropWhile isspace ds = ds" "dropWhile isspace (CHR ''-'' # ds) = CHR ''-'' # ds"
    using c by (simp_all add: ds isspace_def)
  have sg: "(case ds of [] \<Rightarrow> (False, ds) | c # r \<Rightarrow> if c = CHR ''-'' then (True, r) else if c = CHR ''+'' then (False, r) else (False, ds)) = (False, ds)"
    using c by (simp add: ds)
  show ?A
    unfolding strtoll0_def Let_def dw sg using x rb assms(2) by (auto simp: max_def)
  show ?B
    unfolding strtoll0_def Let_def dw using x rb assms(2) by (auto simp: min_def)
qed

lemma toml_rtoi_show_int:
  assumes "- (2 ^ 63) \<le> n" and "n < 2 ^ 63"
  shows "toml_rtoi (Some (show_int n)) = (True, Some (word_of_int n))"
proof (cases "n = 0")
  case True
  then show ?thesis
    by (simp add: toml_rtoi_def show_int_def show_nat.simps char_at_def char_of_48 Let_def)
next
  case False
  define ds where "ds = show_nat (nat \<bar>n\<bar>)"
  have ds: "list_all isdigit ds" "ds \<noteq> []" "hd ds \<noteq> CHR ''0''" "read_digits 0 ds = nat \<bar>n\<bar>"
    using show_nat_digits show_nat_hd [of "nat \<bar>n\<bar>"] read_digits_show_nat False by (auto simp: ds_def)
  have "nat \<bar>n\<bar> < 10 ^ 20" using assms by (simp add: nat_less_iff)
  then have len: "length ds \<le> 20" unfolding ds_def by (rule length_show_nat_pow) simp
  obtain c r where c: "ds = c # r" "isdigit c" using ds by (cases ds) auto
  have cn: "c \<noteq> CHR ''-''" "c \<noteq> CHR ''+''" "c \<noteq> CHR ''0''" using c ds(3) by (auto simp: isdigit_def code_def)
  have st: "strip_underscores 100 ds = (ds, [], 100 - length ds)" "strip_underscores 99 ds = (ds, [], 99 - length ds)"
    using strip_digits [OF ds(1)] len by simp_all
  show ?thesis
  proof (cases "n < 0")
    case True
    then have "show_int n = CHR ''-'' # ds" by (simp add: show_int_def ds_def)
    then show ?thesis
      using cn st strtoll0_digits(2) [OF ds(1-3)] ds(4) True assms len c(1)
      by (simp add: toml_rtoi_def char_at_def)
  next
    case False
    then have "show_int n = ds" by (simp add: show_int_def ds_def)
    then show ?thesis
      using cn st strtoll0_digits(1) [OF ds(1-3)] ds(4) False assms len c(1)
      by (simp add: toml_rtoi_def char_at_def)
  qed
qed

text \<open>Integers are read as written: for every 64-bit integer, the raw value made of its decimal digits converts successfully and
  gives the number modulo 2 ^ 32 (an \<^verbatim>\<open>int\<close>): exact for values of 32 bits, silently truncated beyond.\<close>

theorem toml_rtoi_roundtrip:
  assumes "- (2 ^ 63) \<le> n" and "n < 2 ^ 63"
  shows "toml_rtoi (Some (show_int n)) = (True, Some (word_of_int n))"
  using assms by (rule toml_rtoi_show_int)

theorem toml_rtoi_roundtrip_witness: "toml_rtoi (Some (show_int (- 600))) = (True, Some (word_of_int (- 600)))"
  by (rule toml_rtoi_roundtrip) simp_all

section \<open>Strings read back\<close>

text \<open>A basic string literal for a text\<close>

definition quote_char :: "char \<Rightarrow> string" where
  "quote_char c =
     (if c = QUOT then [BSLASH, QUOT] else if c = BSLASH then [BSLASH, BSLASH] else if c = LF then [BSLASH, CHR ''n''] else [c])"

definition toml_quote :: "string \<Rightarrow> string" where
  "toml_quote s = QUOT # concat (map quote_char s) @ [QUOT]"

lemma quote_char_cases:
  "normalize_loop kill (length (quote_char c) + n) (quote_char c @ t) dst = normalize_loop kill n t (dst @ [c])"
  by (auto simp: quote_char_def normalize_loop.simps [of kill "Suc n"] normalize_loop.simps [of kill "Suc (Suc n)"]
      char_at_def toml_escape_def)

lemma normalize_quoted:
  "normalize_loop kill (length (concat (map quote_char s))) (concat (map quote_char s) @ t) dst = Inr (dst @ s)"
proof (induction s arbitrary: dst)
  case Nil
  then show ?case by (simp add: normalize_loop.simps)
next
  case (Cons c s)
  then show ?case
    using quote_char_cases [of kill c "length (concat (map quote_char s))" "concat (map quote_char s) @ t" dst] by simp
qed

text \<open>The literal that escapes quotes, backslashes and newlines converts to exactly the text it was made from.\<close>

lemma toml_rtos_quote: "toml_rtos (Some (toml_quote s)) = (True, Some (Some s))"
proof -
  let ?q = "concat (map quote_char s)"
  have "\<not> starts_with [QUOT, QUOT, QUOT] (toml_quote s)"
    by (cases s) (auto simp: toml_quote_def starts_with_def quote_char_def)
  moreover have "char_at (toml_quote s) 0 = QUOT" "last (toml_quote s) = QUOT" "drop 1 (toml_quote s) = ?q @ [QUOT]"
    "2 \<le> length (toml_quote s)"
    by (simp_all add: toml_quote_def char_at_def)
  moreover have "normalize_string (?q @ [QUOT]) (length (?q @ [QUOT]) - 1) True = Inr s"
    using normalize_quoted [of True s "[QUOT]" "[]"] by (simp add: normalize_string_def)
  ultimately show ?thesis
    by (simp add: toml_rtos_def Let_def)
qed

end
