(* ===== verification/Toml_Parse.thy ===== *)
theory Toml_Parse
  imports Toml_Text
begin

text \<open>
  The lexer and the parser of \<^verbatim>\<open>toml.c\<close>.

  The parser state of the C code is threaded explicitly. The input pointer of a token is the rest of the text; a
  table that is being filled is passed and returned; \<^verbatim>\<open>ctx->curtab\<close>, a pointer into the tree below \<^verbatim>\<open>ctx->root\<close>, is the
  path from the root to that table (tables are never moved or removed). An error (a \<^verbatim>\<open>longjmp\<close>) is \<open>TErr\<close>.

  The loop \<^verbatim>\<open>SKIP_NEWLINES\<close> and the recursion of the parser take fuel, and \<open>TOut\<close> means that it ran out: the loop
  does not end at the end of the text, where every further token is the same newline.
\<close>

section \<open>Data\<close>

datatype toml_table = Table (tt_key: "string option") (tt_implicit: bool) (tt_kval: "(string \<times> string) list")
    (tt_arr: "toml_array list") (tt_tab: "toml_table list")
  and toml_array = Arr (ta_key: "string option") (ta_type: char) (ta_elems: toml_elems)
  and toml_elems = NoElems | Vals "string list" | Arrs "toml_array list" | Tabs "toml_table list"

datatype tokentype = INVALID | DOT | COMMA | EQUAL | LBRACE | RBRACE | NEWLINE | LBRACKET | RBRACKET | STRING

record token =
  tok :: tokentype
  lineno :: nat
  ptr :: string
  len :: nat
  eof :: bool

datatype toml_error =
    E_internal
  | E_syntax nat string
  | E_bad_key nat
  | E_key_exists nat string
  | E_string nat string_error

datatype 'a tres = TOut | TErr toml_error | TOk 'a

definition lift_err :: "toml_error + 'a \<Rightarrow> 'a tres" where
  "lift_err x = (case x of Inl e \<Rightarrow> TErr e | Inr y \<Rightarrow> TOk y)"

fun tbind :: "'a tres \<Rightarrow> ('a \<Rightarrow> 'b tres) \<Rightarrow> 'b tres" where
  "tbind TOut f = TOut"
| "tbind (TErr e) f = TErr e"
| "tbind (TOk x) f = f x"

fun ebind :: "toml_error + 'a \<Rightarrow> ('a \<Rightarrow> toml_error + 'b) \<Rightarrow> toml_error + 'b" where
  "ebind (Inl e) f = Inl e"
| "ebind (Inr x) f = f x"

section \<open>Tokens\<close>

definition ret_token :: "tokentype \<Rightarrow> nat \<Rightarrow> string \<Rightarrow> nat \<Rightarrow> token" where
  "ret_token ty lno p n = \<lparr>tok = ty, lineno = lno, ptr = p, len = n, eof = False\<rparr>"

definition ret_eof :: "nat \<Rightarrow> token" where
  "ret_eof lno = (ret_token NEWLINE lno [] 0)\<lparr>eof := True\<rparr>"

definition escape_char :: "char \<Rightarrow> bool" where
  "escape_char c \<longleftrightarrow> c \<in> set ''btnfr'' \<or> c = QUOT \<or> c = BSLASH"

definition hex_upper :: "char \<Rightarrow> bool" where
  "hex_upper c \<longleftrightarrow> hex_digit c \<noteq> None"

text \<open>The loop over a \<^verbatim>\<open>\"\"\"\<close> string: how far it went and the number of quotes it ended with\<close>

fun scan_triple :: "nat \<Rightarrow> bool \<Rightarrow> nat \<Rightarrow> nat \<Rightarrow> nat \<Rightarrow> string \<Rightarrow> toml_error + (nat \<times> nat)" where
  "scan_triple lno escape hexreq qcnt k [] = Inr (k, qcnt)"
| "scan_triple lno escape hexreq qcnt k (c # p) =
     (if qcnt \<ge> 3 then Inr (k, qcnt)
      else if escape then
        if escape_char c then scan_triple lno False hexreq qcnt (k + 1) p
        else if c = CHR ''u'' then scan_triple lno False 4 qcnt (k + 1) p
        else if c = CHR ''U'' then scan_triple lno False 8 qcnt (k + 1) p
        else if c = LF then scan_triple lno False hexreq qcnt (k + 1) p
        else Inl (E_syntax lno ''bad escape char'')
      else if hexreq > 0 then
        if hex_upper c then scan_triple lno False (hexreq - 1) qcnt (k + 1) p
        else Inl (E_syntax lno ''expect hex char'')
      else if c = BSLASH then scan_triple lno True hexreq qcnt (k + 1) p
      else scan_triple lno False hexreq (if c = QUOT then qcnt + 1 else 0) (k + 1) p)"

text \<open>The loop over a basic string: where it stopped\<close>

fun scan_basic :: "nat \<Rightarrow> bool \<Rightarrow> nat \<Rightarrow> nat \<Rightarrow> string \<Rightarrow> toml_error + nat" where
  "scan_basic lno escape hexreq k [] = Inr k"
| "scan_basic lno escape hexreq k (c # p) =
     (if escape then
        if escape_char c then scan_basic lno False hexreq (k + 1) p
        else if c = CHR ''u'' then scan_basic lno False 4 (k + 1) p
        else if c = CHR ''U'' then scan_basic lno False 8 (k + 1) p
        else Inl (E_syntax lno ''bad escape char'')
      else if hexreq > 0 then
        if hex_upper c then scan_basic lno False (hexreq - 1) (k + 1) p
        else Inl (E_syntax lno ''expect hex char'')
      else if c = BSLASH then scan_basic lno True hexreq (k + 1) p
      else if c = LF \<or> c = QUOT then Inr k
      else scan_basic lno False hexreq (k + 1) p)"

definition bare_char :: "bool \<Rightarrow> char \<Rightarrow> bool" where
  "bare_char dotisspecial c \<longleftrightarrow>
     c \<noteq> LF \<and> \<not> (c = CHR ''.'' \<and> dotisspecial) \<and> (isalnum c \<or> c \<in> set ''+-_.:'')"

definition scan_string :: "string \<Rightarrow> nat \<Rightarrow> bool \<Rightarrow> toml_error + token" where
  "scan_string p lno dotisspecial =
     (if starts_with [SQUOT, SQUOT, SQUOT] p then
        (case strstr (drop 3 p) [SQUOT, SQUOT, SQUOT] of
           None \<Rightarrow> Inl (E_syntax lno ''unterminated triple-s-quote'')
         | Some k \<Rightarrow> Inr (ret_token STRING lno p (k + 6)))
      else if starts_with [QUOT, QUOT, QUOT] p then
        (case scan_triple lno False 0 0 3 (drop 3 p) of
           Inl e \<Rightarrow> Inl e
         | Inr (k, qcnt) \<Rightarrow>
             if qcnt \<noteq> 3 then Inl (E_syntax lno ''unterminated triple-quote'') else Inr (ret_token STRING lno p k))
      else if char_at p 0 = SQUOT then
        (let k = 1 + length (takeWhile (\<lambda>c. c \<noteq> LF \<and> c \<noteq> SQUOT) (drop 1 p)) in
         if char_at p k \<noteq> SQUOT then Inl (E_syntax lno ''unterminated s-quote'') else Inr (ret_token STRING lno p (k + 1)))
      else if char_at p 0 = QUOT then
        (case scan_basic lno False 0 1 (drop 1 p) of
           Inl e \<Rightarrow> Inl e
         | Inr k \<Rightarrow>
             if char_at p k \<noteq> QUOT then Inl (E_syntax lno ''unterminated quote'') else Inr (ret_token STRING lno p (k + 1)))
      else Inr (ret_token STRING lno p (length (takeWhile (bare_char dotisspecial) p))))"

function scan_next :: "nat \<Rightarrow> bool \<Rightarrow> string \<Rightarrow> toml_error + token" where
  "scan_next lno dotisspecial [] = Inr (ret_eof lno)"
| "scan_next lno dotisspecial (c # r) =
     (if c = CHR ''#'' then scan_next lno dotisspecial (dropWhile (\<lambda>c. c \<noteq> LF) r)
      else if dotisspecial \<and> c = CHR ''.'' then Inr (ret_token DOT lno (c # r) 1)
      else if c = CHR '','' then Inr (ret_token COMMA lno (c # r) 1)
      else if c = CHR ''='' then Inr (ret_token EQUAL lno (c # r) 1)
      else if c = CHR ''{'' then Inr (ret_token LBRACE lno (c # r) 1)
      else if c = CHR ''}'' then Inr (ret_token RBRACE lno (c # r) 1)
      else if c = CHR ''['' then Inr (ret_token LBRACKET lno (c # r) 1)
      else if c = CHR '']'' then Inr (ret_token RBRACKET lno (c # r) 1)
      else if c = LF then Inr (ret_token NEWLINE lno (c # r) 1)
      else if c = CR \<or> c = CHR '' '' \<or> c = TAB then scan_next lno dotisspecial r
      else scan_string (c # r) lno dotisspecial)"
  by pat_completeness auto
termination
  by (relation "measure (\<lambda>(lno, d, p). length p)") (auto simp: length_dropWhile_le le_imp_less_Suc)

definition next_token :: "token \<Rightarrow> bool \<Rightarrow> toml_error + token" where
  "next_token t dotisspecial =
     scan_next (lineno t + count_list (take (len t) (ptr t)) LF) dotisspecial (drop (len t) (ptr t))"

definition EAT_TOKEN :: "token \<Rightarrow> tokentype \<Rightarrow> toml_error + token" where
  "EAT_TOKEN t typ = (if tok t \<noteq> typ then Inl E_internal else next_token t False)"

fun SKIP_NEWLINES :: "nat \<Rightarrow> token \<Rightarrow> token tres" where
  "SKIP_NEWLINES 0 t = TOut"
| "SKIP_NEWLINES (Suc f) t =
     (if tok t = NEWLINE then tbind (lift_err (next_token t False)) (SKIP_NEWLINES f) else TOk t)"

section \<open>Keys\<close>

definition bare_key_char :: "char \<Rightarrow> bool" where
  "bare_key_char c \<longleftrightarrow> isalnum c \<or> c = CHR ''_'' \<or> c = CHR ''-''"

definition normalize_key :: "token \<Rightarrow> toml_error + string" where
  "normalize_key t =
     (let sp = ptr t; ch = char_at sp 0 in
      if ch = SQUOT \<or> ch = QUOT then
        let q = (if char_at sp 1 = ch \<and> char_at sp 2 = ch then 3 else 1);
            body = drop q sp; n = len t - 2 * q
        in ebind (if ch = SQUOT then Inr (take n body)
                  else case normalize_string body n False of Inl e \<Rightarrow> Inl (E_string (lineno t) e) | Inr r \<Rightarrow> Inr r)
             (\<lambda>ret. if LF \<in> set (cstr ret) then Inl (E_bad_key (lineno t)) else Inr (cstr ret))
      else if list_all bare_key_char (take (len t) sp) then Inr (take (len t) sp)
      else Inl (E_bad_key (lineno t)))"

definition e_key_exists :: "token \<Rightarrow> toml_error" where
  "e_key_exists keytok = E_key_exists (lineno keytok) (take (min (len keytok) 99) (ptr keytok))"

fun find_ix :: "('a \<Rightarrow> bool) \<Rightarrow> 'a list \<Rightarrow> nat option" where
  "find_ix P [] = None"
| "find_ix P (x # xs) = (if P x then Some 0 else map_option Suc (find_ix P xs))"

datatype found = Nothing | FoundVal nat | FoundArr nat | FoundTab nat

definition check_key :: "toml_table \<Rightarrow> string \<Rightarrow> found" where
  "check_key tab key =
     (case find_ix (\<lambda>kv. fst kv = key) (tt_kval tab) of
        Some i \<Rightarrow> FoundVal i
      | None \<Rightarrow>
          (case find_ix (\<lambda>a. ta_key a = Some key) (tt_arr tab) of
             Some i \<Rightarrow> FoundArr i
           | None \<Rightarrow>
               (case find_ix (\<lambda>t. tt_key t = Some key) (tt_tab tab) of Some i \<Rightarrow> FoundTab i | None \<Rightarrow> Nothing)))"

definition add_kval :: "toml_table \<Rightarrow> string \<times> string \<Rightarrow> toml_table" where
  "add_kval tab kv = Table (tt_key tab) (tt_implicit tab) (tt_kval tab @ [kv]) (tt_arr tab) (tt_tab tab)"

definition set_arrs :: "toml_table \<Rightarrow> toml_array list \<Rightarrow> toml_table" where
  "set_arrs tab as = Table (tt_key tab) (tt_implicit tab) (tt_kval tab) as (tt_tab tab)"

definition set_tabs :: "toml_table \<Rightarrow> toml_table list \<Rightarrow> toml_table" where
  "set_tabs tab ts = Table (tt_key tab) (tt_implicit tab) (tt_kval tab) (tt_arr tab) ts"

definition empty_table :: "string option \<Rightarrow> bool \<Rightarrow> toml_table" where
  "empty_table key implicit = Table key implicit [] [] []"

definition empty_array :: "string option \<Rightarrow> toml_array" where
  "empty_array key = Arr key NUL NoElems"

text \<open>The new key with its value; \<^verbatim>\<open>parse_keyval\<close> stores the value at once.\<close>

definition create_keyval_in_table :: "toml_table \<Rightarrow> token \<Rightarrow> string \<Rightarrow> toml_error + toml_table" where
  "create_keyval_in_table tab keytok val =
     ebind (normalize_key keytok)
       (\<lambda>newkey. if check_key tab newkey \<noteq> Nothing then Inl (e_key_exists keytok) else Inr (add_kval tab (newkey, val)))"

text \<open>Index of the table and the parent that holds it\<close>

definition create_keytable_in_table :: "toml_table \<Rightarrow> token \<Rightarrow> toml_error + (nat \<times> toml_table)" where
  "create_keytable_in_table tab keytok =
     ebind (normalize_key keytok)
       (\<lambda>newkey. case check_key tab newkey of
          Nothing \<Rightarrow> Inr (length (tt_tab tab), set_tabs tab (tt_tab tab @ [empty_table (Some newkey) False]))
        | FoundTab i \<Rightarrow>
            let dest = tt_tab tab ! i in
            if tt_implicit dest
            then Inr (i, set_tabs tab ((tt_tab tab)[i := Table (tt_key dest) False (tt_kval dest) (tt_arr dest) (tt_tab dest)]))
            else Inl (e_key_exists keytok)
        | _ \<Rightarrow> Inl (e_key_exists keytok))"

text \<open>\<open>None\<close> is the null pointer returned when the key exists and is no array.\<close>

definition create_keyarray_in_table :: "toml_table \<Rightarrow> token \<Rightarrow> bool \<Rightarrow> toml_error + (nat option \<times> toml_table)" where
  "create_keyarray_in_table tab keytok skip_if_exist =
     ebind (normalize_key keytok)
       (\<lambda>newkey. case check_key tab newkey of
          Nothing \<Rightarrow> Inr (Some (length (tt_arr tab)), set_arrs tab (tt_arr tab @ [empty_array (Some newkey)]))
        | FoundArr i \<Rightarrow> if skip_if_exist then Inr (Some i, tab) else Inl (e_key_exists keytok)
        | _ \<Rightarrow> if skip_if_exist then Inr (None, tab) else Inl (e_key_exists keytok))"

section \<open>Values, arrays and inline tables\<close>

definition valtype :: "string \<Rightarrow> char" where
  "valtype val =
     (if char_at val 0 = SQUOT \<or> char_at val 0 = QUOT then CHR ''s''
      else if fst (toml_rtob (Some val)) then CHR ''b''
      else if fst (toml_rtoi (Some val)) then CHR ''i''
      else if fst (toml_rtod (Some val)) then CHR ''d''
      else case toml_rtots (Some val) of
             Some ts \<Rightarrow> if year ts \<noteq> None \<and> hour ts \<noteq> None then CHR ''T'' else if year ts \<noteq> None then CHR ''D'' else CHR ''t''
           | None \<Rightarrow> CHR ''u'')"

definition with_elems :: "toml_array \<Rightarrow> toml_elems \<Rightarrow> toml_array" where
  "with_elems arr es = Arr (ta_key arr) (ta_type arr) es"

text \<open>A raw value at the end of an array; the kind of an array is fixed by its first element, and so is the type.\<close>

definition add_value :: "toml_array \<Rightarrow> token \<Rightarrow> toml_error + toml_array" where
  "add_value arr t =
     (let val = take (len t) (ptr t) in
      case ta_elems arr of
        NoElems \<Rightarrow> Inr (Arr (ta_key arr) (valtype val) (Vals [val]))
      | Vals vs \<Rightarrow>
          if ta_type arr \<noteq> valtype val then Inl (E_syntax (lineno t) ''array type mismatch'')
          else Inr (with_elems arr (Vals (vs @ [val])))
      | _ \<Rightarrow> Inl (E_syntax (lineno t) ''a string array can only contain strings''))"

definition sub_arrays :: "toml_array \<Rightarrow> token \<Rightarrow> toml_error + toml_array list" where
  "sub_arrays arr t =
     (case ta_elems arr of NoElems \<Rightarrow> Inr [] | Arrs as \<Rightarrow> Inr as | _ \<Rightarrow> Inl (E_syntax (lineno t) ''array type mismatch''))"

definition sub_tables :: "toml_array \<Rightarrow> token \<Rightarrow> toml_error + toml_table list" where
  "sub_tables arr t =
     (case ta_elems arr of NoElems \<Rightarrow> Inr [] | Tabs ts \<Rightarrow> Inr ts | _ \<Rightarrow> Inl (E_syntax (lineno t) ''array type mismatch''))"

definition syntax_at :: "token \<Rightarrow> 'a tres" where
  "syntax_at t = TErr (E_syntax (lineno t) ''syntax error'')"

function (sequential) parse_keyval :: "nat \<Rightarrow> token \<Rightarrow> toml_table \<Rightarrow> (token \<times> toml_table) tres"
  and toml_table_loop :: "nat \<Rightarrow> token \<Rightarrow> toml_table \<Rightarrow> (token \<times> toml_table) tres"
  and toml_array_loop :: "nat \<Rightarrow> token \<Rightarrow> toml_array \<Rightarrow> (token \<times> toml_array) tres"
  and parse_element :: "nat \<Rightarrow> token \<Rightarrow> toml_array \<Rightarrow> (token \<times> toml_array) tres" where
  "parse_keyval 0 t tab = TOut"
| "parse_keyval (Suc f) t tab =
     (if tok t \<noteq> STRING then TErr E_internal
      else tbind (lift_err (EAT_TOKEN t STRING)) (\<lambda>t1.
        if tok t1 \<noteq> EQUAL then TErr (E_syntax (lineno t1) ''missing ='')
        else tbind (lift_err (EAT_TOKEN t1 EQUAL)) (\<lambda>t2.
          case tok t2 of
            STRING \<Rightarrow>
              tbind (lift_err (create_keyval_in_table tab t (take (len t2) (ptr t2)))) (\<lambda>tab1.
                tbind (lift_err (EAT_TOKEN t2 STRING)) (\<lambda>t3. TOk (t3, tab1)))
          | LBRACKET \<Rightarrow>
              tbind (lift_err (create_keyarray_in_table tab t False)) (\<lambda>(ix, tab1).
                let i = the ix in
                tbind (lift_err (EAT_TOKEN t2 LBRACKET)) (\<lambda>t3.
                  tbind (toml_array_loop f t3 (tt_arr tab1 ! i)) (\<lambda>(t4, a).
                    TOk (t4, set_arrs tab1 ((tt_arr tab1)[i := a])))))
          | LBRACE \<Rightarrow>
              tbind (lift_err (create_keytable_in_table tab t)) (\<lambda>(i, tab1).
                tbind (lift_err (EAT_TOKEN t2 LBRACE)) (\<lambda>t3.
                  tbind (toml_table_loop f t3 (tt_tab tab1 ! i)) (\<lambda>(t4, n).
                    TOk (t4, set_tabs tab1 ((tt_tab tab1)[i := n])))))
          | _ \<Rightarrow> syntax_at t2)))"
| "toml_table_loop 0 t tab = TOut"
| "toml_table_loop (Suc f) t tab =
     tbind (SKIP_NEWLINES (Suc f) t) (\<lambda>t1.
       if tok t1 = RBRACE then tbind (lift_err (EAT_TOKEN t1 RBRACE)) (\<lambda>t2. TOk (t2, tab))
       else if tok t1 \<noteq> STRING then syntax_at t1
       else tbind (parse_keyval f t1 tab) (\<lambda>(t2, tab1).
         tbind (SKIP_NEWLINES (Suc f) t2) (\<lambda>t3.
           if tok t3 = COMMA then tbind (lift_err (EAT_TOKEN t3 COMMA)) (\<lambda>t4. toml_table_loop f t4 tab1)
           else if tok t3 \<noteq> RBRACE then syntax_at t3
           else tbind (lift_err (EAT_TOKEN t3 RBRACE)) (\<lambda>t4. TOk (t4, tab1)))))"
| "toml_array_loop 0 t arr = TOut"
| "toml_array_loop (Suc f) t arr =
     tbind (SKIP_NEWLINES (Suc f) t) (\<lambda>t1.
       if tok t1 = RBRACKET then tbind (lift_err (EAT_TOKEN t1 RBRACKET)) (\<lambda>t2. TOk (t2, arr))
       else tbind (parse_element f t1 arr) (\<lambda>(t2, arr1).
         tbind (SKIP_NEWLINES (Suc f) t2) (\<lambda>t3.
           if tok t3 = COMMA then tbind (lift_err (EAT_TOKEN t3 COMMA)) (\<lambda>t4. toml_array_loop f t4 arr1)
           else if tok t3 \<noteq> RBRACKET then syntax_at t3
           else tbind (lift_err (EAT_TOKEN t3 RBRACKET)) (\<lambda>t4. TOk (t4, arr1)))))"
| "parse_element 0 t arr = TOut"
| "parse_element (Suc f) t arr =
     (case tok t of
        STRING \<Rightarrow>
          tbind (lift_err (add_value arr t)) (\<lambda>arr1. tbind (lift_err (EAT_TOKEN t STRING)) (\<lambda>t1. TOk (t1, arr1)))
      | LBRACKET \<Rightarrow>
          tbind (lift_err (sub_arrays arr t)) (\<lambda>as.
            tbind (lift_err (EAT_TOKEN t LBRACKET)) (\<lambda>t1.
              tbind (toml_array_loop f t1 (empty_array None)) (\<lambda>(t2, a). TOk (t2, with_elems arr (Arrs (as @ [a]))))))
      | LBRACE \<Rightarrow>
          tbind (lift_err (sub_tables arr t)) (\<lambda>ts.
            tbind (lift_err (EAT_TOKEN t LBRACE)) (\<lambda>t1.
              tbind (toml_table_loop f t1 (empty_table None False)) (\<lambda>(t2, n). TOk (t2, with_elems arr (Tabs (ts @ [n]))))))
      | _ \<Rightarrow> syntax_at t)"
  by pat_completeness auto
termination
  by (relation "measure (\<lambda>x. case x of Inl (Inl (f, _)) \<Rightarrow> f | Inl (Inr (f, _)) \<Rightarrow> f | Inr (Inl (f, _)) \<Rightarrow> f | Inr (Inr (f, _)) \<Rightarrow> f)")
    simp_all

section \<open>Table headers\<close>

text \<open>A step from a table to one below it: a table by its index, or an element of an array of tables.\<close>

datatype step = InTab nat | InArr nat nat

definition array_tables :: "toml_array \<Rightarrow> toml_table list" where
  "array_tables a = (case ta_elems a of Tabs ts \<Rightarrow> ts | _ \<Rightarrow> [])"

fun table_at :: "toml_table \<Rightarrow> step list \<Rightarrow> toml_table" where
  "table_at t [] = t"
| "table_at t (InTab i # p) = table_at (tt_tab t ! i) p"
| "table_at t (InArr i j # p) = table_at (array_tables (tt_arr t ! i) ! j) p"

fun update_at :: "toml_table \<Rightarrow> step list \<Rightarrow> toml_table \<Rightarrow> toml_table" where
  "update_at t [] new = new"
| "update_at t (InTab i # p) new = set_tabs t ((tt_tab t)[i := update_at (tt_tab t ! i) p new])"
| "update_at t (InArr i j # p) new =
     (let a = tt_arr t ! i; ts = array_tables a in
      set_arrs t ((tt_arr t)[i := with_elems a (Tabs (ts[j := update_at (ts ! j) p new]))]))"

text \<open>The keys of \<^verbatim>\<open>[x.y.z]\<close> with their tokens; \<open>room\<close> is \<^verbatim>\<open>10 - tpath.top\<close>.\<close>

fun fill_tabpath_loop :: "nat \<Rightarrow> nat \<Rightarrow> token \<Rightarrow> (string \<times> token) list \<Rightarrow> toml_error + (token \<times> (string \<times> token) list)" where
  "fill_tabpath_loop 0 lno t acc = Inl (E_syntax lno ''table path is too deep; max allowed is 10.'')"
| "fill_tabpath_loop (Suc room) lno t acc =
     (if tok t \<noteq> STRING then Inl (E_syntax lno ''invalid or missing key'')
      else ebind (normalize_key t) (\<lambda>key.
        ebind (next_token t True) (\<lambda>t1.
          if tok t1 = RBRACKET then Inr (t1, acc @ [(key, t)])
          else if tok t1 \<noteq> DOT then Inl (E_syntax lno ''invalid key'')
          else ebind (next_token t1 True) (\<lambda>t2. fill_tabpath_loop room lno t2 (acc @ [(key, t)])))))"

definition fill_tabpath :: "token \<Rightarrow> toml_error + (token \<times> (string \<times> token) list)" where
  "fill_tabpath t = fill_tabpath_loop 10 (lineno t) t []"

fun walk_tabpath :: "toml_table \<Rightarrow> step list \<Rightarrow> (string \<times> token) list \<Rightarrow> toml_error + (toml_table \<times> step list)" where
  "walk_tabpath rt path [] = Inr (rt, path)"
| "walk_tabpath rt path ((key, keytok) # ks) =
     (let curtab = table_at rt path in
      case check_key curtab key of
        FoundTab i \<Rightarrow> walk_tabpath rt (path @ [InTab i]) ks
      | FoundArr i \<Rightarrow>
          let ts = array_tables (tt_arr curtab ! i) in
          if ts = [] then Inl E_internal else walk_tabpath rt (path @ [InArr i (length ts - 1)]) ks
      | FoundVal i \<Rightarrow> Inl (e_key_exists keytok)
      | Nothing \<Rightarrow>
          walk_tabpath (update_at rt path (set_tabs curtab (tt_tab curtab @ [empty_table (Some key) True])))
            (path @ [InTab (length (tt_tab curtab))]) ks)"

text \<open>Creating the selected table: \<^verbatim>\<open>[x.y.z]\<close> and \<^verbatim>\<open>[[x.y.z]]\<close>\<close>

definition select_table :: "toml_table \<Rightarrow> step list \<Rightarrow> token \<Rightarrow> toml_error + (toml_table \<times> step list)" where
  "select_table rt path z =
     ebind (create_keytable_in_table (table_at rt path) z) (\<lambda>(i, tab). Inr (update_at rt path tab, path @ [InTab i]))"

definition select_array :: "toml_table \<Rightarrow> step list \<Rightarrow> token \<Rightarrow> toml_error + (toml_table \<times> step list)" where
  "select_array rt path z =
     ebind (create_keyarray_in_table (table_at rt path) z True) (\<lambda>(ix, tab).
       case ix of
         None \<Rightarrow> Inl (E_syntax (lineno z) ''key exists'')
       | Some i \<Rightarrow>
           let arr = tt_arr tab ! i in
           (case ta_elems arr of
              Vals _ \<Rightarrow> Inl (E_syntax (lineno z) ''array mismatch'')
            | Arrs _ \<Rightarrow> Inl (E_syntax (lineno z) ''array mismatch'')
            | _ \<Rightarrow>
                let ts = array_tables arr in
                Inr (update_at rt path
                       (set_arrs tab ((tt_arr tab)[i := with_elems arr (Tabs (ts @ [empty_table (Some ''__anon__'') False]))])),
                     path @ [InArr i (length ts)])))"

definition parse_select :: "token \<Rightarrow> toml_table \<Rightarrow> toml_error + (token \<times> toml_table \<times> step list)" where
  "parse_select t rt =
     (if tok t \<noteq> LBRACKET then Inl E_internal
      else ebind (next_token t True) (\<lambda>t1.
        let double = (tok t1 = LBRACKET) in
        ebind (if double then next_token t1 True else Inr t1) (\<lambda>t2.
          ebind (fill_tabpath t2) (\<lambda>(t3, tpath).
            let z = snd (last tpath) in
            ebind (walk_tabpath rt [] (butlast tpath)) (\<lambda>(rt1, path).
              ebind (if double then select_array rt1 path z else select_table rt1 path z) (\<lambda>(rt2, curtab).
                if tok t3 \<noteq> RBRACKET then Inl (E_syntax (lineno t3) ''expects ]'')
                else ebind (EAT_TOKEN t3 RBRACKET) (\<lambda>t4.
                  ebind (if double then
                           if tok t4 \<noteq> RBRACKET then Inl (E_syntax (lineno t4) ''expects ]]'') else EAT_TOKEN t4 RBRACKET
                         else Inr t4) (\<lambda>t5.
                    if tok t5 \<noteq> NEWLINE then Inl (E_syntax (lineno t5) ''extra chars after ] or ]]'')
                    else Inr (t5, rt2, curtab)))))))))"

section \<open>The whole text\<close>

fun toml_parse_loop :: "nat \<Rightarrow> token \<Rightarrow> toml_table \<Rightarrow> step list \<Rightarrow> toml_table tres" where
  "toml_parse_loop 0 t rt curtab = TOut"
| "toml_parse_loop (Suc f) t rt curtab =
     (if eof t then TOk rt
      else case tok t of
             NEWLINE \<Rightarrow> tbind (lift_err (next_token t True)) (\<lambda>t1. toml_parse_loop f t1 rt curtab)
           | STRING \<Rightarrow>
               tbind (parse_keyval f t (table_at rt curtab)) (\<lambda>(t1, tab).
                 if tok t1 \<noteq> NEWLINE then TErr (E_syntax (lineno t1) ''extra chars after value'')
                 else tbind (lift_err (EAT_TOKEN t1 NEWLINE)) (\<lambda>t2. toml_parse_loop f t2 (update_at rt curtab tab) curtab))
           | LBRACKET \<Rightarrow>
               tbind (lift_err (parse_select t rt)) (\<lambda>(t1, rt1, curtab1). toml_parse_loop f t1 rt1 curtab1)
           | _ \<Rightarrow> TErr (E_syntax (lineno t) ''syntax error''))"

definition first_token :: "string \<Rightarrow> token" where
  "first_token conf = ret_token NEWLINE 1 conf 0"

definition toml_parse :: "nat \<Rightarrow> string \<Rightarrow> toml_table tres" where
  "toml_parse f conf = toml_parse_loop f (first_token (cstr conf)) (empty_table None False) []"

section \<open>Access\<close>

definition toml_key_in :: "toml_table \<Rightarrow> nat \<Rightarrow> string option" where
  "toml_key_in tab keyidx =
     (if keyidx < length (tt_kval tab) then Some (fst (tt_kval tab ! keyidx))
      else let k1 = keyidx - length (tt_kval tab) in
        if k1 < length (tt_arr tab) then ta_key (tt_arr tab ! k1)
        else let k2 = k1 - length (tt_arr tab) in
          if k2 < length (tt_tab tab) then tt_key (tt_tab tab ! k2) else None)"

definition toml_raw_in :: "toml_table \<Rightarrow> string \<Rightarrow> string option" where
  "toml_raw_in tab key = map_option snd (find (\<lambda>kv. fst kv = key) (tt_kval tab))"

definition toml_array_in :: "toml_table \<Rightarrow> string \<Rightarrow> toml_array option" where
  "toml_array_in tab key = find (\<lambda>a. ta_key a = Some key) (tt_arr tab)"

definition toml_table_in :: "toml_table \<Rightarrow> string \<Rightarrow> toml_table option" where
  "toml_table_in tab key = find (\<lambda>t. tt_key t = Some key) (tt_tab tab)"

definition toml_raw_at :: "toml_array \<Rightarrow> int \<Rightarrow> string option" where
  "toml_raw_at arr ix =
     (case ta_elems arr of Vals vs \<Rightarrow> if 0 \<le> ix \<and> ix < int (length vs) then Some (vs ! nat ix) else None | _ \<Rightarrow> None)"

definition toml_array_kind :: "toml_array \<Rightarrow> char" where
  "toml_array_kind arr =
     (case ta_elems arr of NoElems \<Rightarrow> NUL | Vals _ \<Rightarrow> CHR ''v'' | Arrs _ \<Rightarrow> CHR ''a'' | Tabs _ \<Rightarrow> CHR ''t'')"

definition toml_array_at :: "toml_array \<Rightarrow> int \<Rightarrow> toml_array option" where
  "toml_array_at arr ix =
     (case ta_elems arr of Arrs as \<Rightarrow> if 0 \<le> ix \<and> ix < int (length as) then Some (as ! nat ix) else None | _ \<Rightarrow> None)"

definition toml_table_at :: "toml_array \<Rightarrow> int \<Rightarrow> toml_table option" where
  "toml_table_at arr ix =
     (case ta_elems arr of Tabs ts \<Rightarrow> if 0 \<le> ix \<and> ix < int (length ts) then Some (ts ! nat ix) else None | _ \<Rightarrow> None)"

end
