(* ===== verification/Toml_Fuel.thy ===== *)
theory Toml_Fuel
  imports Toml_Parse
begin

text \<open>
  Fuel of the TOML parser. Every token read leaves less of the text (\<open>wf_token\<close>, \<open>rem\<close>), so a parse that ends
  needs at most \<open>toml_fuel conf\<close> steps: more fuel never changes the result, and a parse that runs out of that much
  fuel runs out of any amount, that is, the C function does not return. A text in which no equality sign is followed by an
  array or an inline table is always answered; an array that is still open at the end of the text never is.
\<close>


section \<open>Tokens make progress\<close>

definition wf_token :: "token \<Rightarrow> bool" where
  "wf_token t \<longleftrightarrow>
     (if tok t = NEWLINE then (if eof t then len t = 0 \<and> ptr t = [] else len t = 1 \<and> ptr t \<noteq> [])
      else \<not> eof t \<and> tok t \<noteq> INVALID \<and> (tok t \<noteq> STRING \<longrightarrow> len t = 1 \<and> ptr t \<noteq> []))"

abbreviation rem :: "token \<Rightarrow> nat" where
  "rem t \<equiv> length (ptr t)"

lemma ret_token_wf: "ty \<noteq> INVALID \<Longrightarrow> ty \<noteq> STRING \<longrightarrow> n = 1 \<and> p \<noteq> [] \<Longrightarrow> wf_token (ret_token ty lno p n) \<and> ptr (ret_token ty lno p n) = p"
  by (auto simp: ret_token_def wf_token_def)

lemma scan_string_wf: "scan_string p lno d = Inr t \<Longrightarrow> wf_token t \<and> ptr t = p"
  by (auto simp: scan_string_def Let_def ret_token_wf split: if_splits option.splits sum.splits prod.splits)

lemma scan_next_wf: "scan_next lno d p = Inr t \<Longrightarrow> wf_token t \<and> rem t \<le> length p"
proof (induction lno d p rule: scan_next.induct)
  case (1 lno d)
  then show ?case by (auto simp: ret_eof_def ret_token_def wf_token_def)
next
  case (2 lno d c r)
  have "length (dropWhile (\<lambda>c. c \<noteq> LF) r) \<le> length (c # r)"
    using length_dropWhile_le [of _ r] by (simp add: le_Suc_eq)
  with 2 show ?case
    by (auto simp: ret_token_wf split: if_splits dest!: scan_string_wf)
qed

lemma next_token_wf: "next_token t d = Inr t' \<Longrightarrow> wf_token t' \<and> rem t' \<le> rem t - len t"
  unfolding next_token_def using scan_next_wf by fastforce

lemma EAT_TOKEN_wf:
  assumes "EAT_TOKEN t ty = Inr t'" "wf_token t"
  shows "tok t = ty \<and> wf_token t' \<and> rem t' \<le> rem t \<and> (ty \<noteq> STRING \<and> ty \<noteq> NEWLINE \<longrightarrow> rem t' < rem t)"
  using assms next_token_wf [of t False t']
  by (cases "ptr t") (auto simp: EAT_TOKEN_def wf_token_def split: if_splits)

lemma lift_err_simps [simp]: "lift_err (Inl e) = TErr e" "lift_err (Inr x) = TOk x"
  by (simp_all add: lift_err_def)

lemma lift_err_TOk [simp]: "lift_err r = TOk x \<longleftrightarrow> r = Inr x"
  by (cases r) (auto simp: lift_err_def)

lemma lift_err_TOut [simp]: "lift_err r \<noteq> TOut"
  by (cases r) (auto simp: lift_err_def)

lemma tbind_TOk [simp]: "tbind a f = TOk y \<longleftrightarrow> (\<exists>x. a = TOk x \<and> f x = TOk y)"
  by (cases a) auto

lemma SKIP_NEWLINES_wf:
  "SKIP_NEWLINES f t = TOk t' \<Longrightarrow> wf_token t \<Longrightarrow> wf_token t' \<and> rem t' \<le> rem t \<and> tok t' \<noteq> NEWLINE"
proof (induction f arbitrary: t)
  case (Suc f)
  show ?case
  proof (cases "tok t = NEWLINE")
    case True
    with Suc.prems obtain t1 where t1: "next_token t False = Inr t1" "SKIP_NEWLINES f t1 = TOk t'" by auto
    then show ?thesis using Suc.IH [OF t1(2)] next_token_wf [OF t1(1)] by auto
  qed (use Suc in auto)
qed simp

section \<open>More fuel gives the same result\<close>

definition le_t :: "'a tres \<Rightarrow> 'a tres \<Rightarrow> bool" where
  "le_t a b \<longleftrightarrow> a = TOut \<or> a = b"

lemma le_t_refl [simp, intro]: "le_t a a"
  by (simp add: le_t_def)

lemma le_t_TOut [simp, intro]: "le_t TOut b"
  by (simp add: le_t_def)

lemma le_t_trans: "le_t a b \<Longrightarrow> le_t b c \<Longrightarrow> le_t a c"
  by (auto simp: le_t_def)

lemma le_t_bind:
  assumes "le_t a b" "\<And>x. b = TOk x \<Longrightarrow> le_t (f x) (g x)"
  shows "le_t (tbind a f) (tbind b g)"
  using assms by (cases a; cases b) (auto simp: le_t_def)

lemma SKIP_NEWLINES_mono: "f \<le> g \<Longrightarrow> le_t (SKIP_NEWLINES f t) (SKIP_NEWLINES g t)"
proof (induction f arbitrary: g t)
  case (Suc f)
  then obtain h where g: "g = Suc h" "f \<le> h" by (cases g) auto
  then show ?case
    using Suc.IH by (auto intro: le_t_bind)
qed simp

text \<open>At the end of the text the loop over the newlines never ends.\<close>

lemma SKIP_NEWLINES_eof: "wf_token t \<Longrightarrow> eof t \<Longrightarrow> tok t = NEWLINE \<Longrightarrow> SKIP_NEWLINES f t = TOut"
proof (induction f arbitrary: t)
  case (Suc f)
  then have "next_token t False = Inr (ret_eof (lineno t))"
    by (simp add: next_token_def wf_token_def)
  then show ?case
    using Suc.IH [of "ret_eof (lineno t)"] Suc.prems by (simp add: ret_eof_def ret_token_def wf_token_def)
qed simp

lemma SKIP_NEWLINES_bound: "wf_token t \<Longrightarrow> rem t < b \<Longrightarrow> le_t (SKIP_NEWLINES f t) (SKIP_NEWLINES b t)"
proof (induction f arbitrary: t b)
  case (Suc f)
  show ?case
  proof (cases "tok t = NEWLINE")
    case True
    obtain c where c: "b = Suc c" using Suc.prems by (cases b) auto
    show ?thesis
    proof (cases "eof t")
      case eo: True
      show ?thesis unfolding SKIP_NEWLINES_eof [OF Suc.prems(1) eo True, of "Suc f"] by (rule le_t_TOut)
    next
      case False
      have "le_t (SKIP_NEWLINES f t1) (SKIP_NEWLINES c t1)" if "next_token t False = Inr t1" for t1
      proof (rule Suc.IH)
        have "len t = 1" "ptr t \<noteq> []" using Suc.prems True False by (auto simp: wf_token_def)
        then show "rem t1 < c"
          using next_token_wf [OF that] Suc.prems c by (cases "ptr t") auto
      qed (use next_token_wf [OF that] in simp)
      then show ?thesis
        using True c by (auto intro!: le_t_bind)
    qed
  qed (use Suc.prems in \<open>cases b; auto\<close>)
qed simp


lemmas parse_simps = parse_keyval.simps toml_table_loop.simps toml_array_loop.simps parse_element.simps

lemma le_t_case_tok:
  "(tok t = STRING \<Longrightarrow> le_t a a') \<Longrightarrow> (tok t = LBRACKET \<Longrightarrow> le_t b b') \<Longrightarrow> (tok t = LBRACE \<Longrightarrow> le_t c c') \<Longrightarrow>
   le_t (case tok t of STRING \<Rightarrow> a | LBRACKET \<Rightarrow> b | LBRACE \<Rightarrow> c | _ \<Rightarrow> d) (case tok t of STRING \<Rightarrow> a' | LBRACKET \<Rightarrow> b' | LBRACE \<Rightarrow> c' | _ \<Rightarrow> d)"
  by (cases "tok t") auto

lemma le_t_if: "(b \<Longrightarrow> le_t x x') \<Longrightarrow> (\<not> b \<Longrightarrow> le_t y y') \<Longrightarrow> le_t (if b then x else y) (if b then x' else y')"
  by simp

lemma le_t_prod: "(\<And>a b. p = (a, b) \<Longrightarrow> le_t (f a b) (g a b)) \<Longrightarrow> le_t (case p of (a, b) \<Rightarrow> f a b) (case p of (a, b) \<Rightarrow> g a b)"
  by (cases p) auto

lemmas le_t_rules = le_t_if le_t_bind le_t_case_tok le_t_prod le_t_refl

lemma parse_mono:
  "f \<le> g \<Longrightarrow> (\<forall>t tab. le_t (parse_keyval f t tab) (parse_keyval g t tab)) \<and>
   (\<forall>t tab. le_t (toml_table_loop f t tab) (toml_table_loop g t tab)) \<and>
   (\<forall>t arr. le_t (toml_array_loop f t arr) (toml_array_loop g t arr)) \<and>
   (\<forall>t arr. le_t (parse_element f t arr) (parse_element g t arr))"
proof (induction f arbitrary: g)
  case (Suc f)
  obtain h where h: "g = Suc h" "f \<le> h" using Suc.prems by (cases g) auto
  have ih: "le_t (parse_keyval f t tab) (parse_keyval h t tab)" "le_t (toml_table_loop f t tab) (toml_table_loop h t tab)"
    "le_t (toml_array_loop f t arr) (toml_array_loop h t arr)" "le_t (parse_element f t arr) (parse_element h t arr)"
    for t tab arr using Suc.IH [OF h(2)] by auto
  have sk: "le_t (SKIP_NEWLINES (Suc f) t) (SKIP_NEWLINES (Suc h) t)" for t
    using h(2) by (intro SKIP_NEWLINES_mono) simp
  have "le_t (parse_keyval (Suc f) t tab) (parse_keyval (Suc h) t tab)" for t tab
    unfolding parse_simps Let_def by (intro ih le_t_rules)
  moreover have "le_t (toml_table_loop (Suc f) t tab) (toml_table_loop (Suc h) t tab)" for t tab
    unfolding parse_simps by (intro ih sk le_t_rules)
  moreover have "le_t (toml_array_loop (Suc f) t arr) (toml_array_loop (Suc h) t arr)" for t arr
    unfolding parse_simps by (intro ih sk le_t_rules)
  moreover have "le_t (parse_element (Suc f) t arr) (parse_element (Suc h) t arr)" for t arr
    unfolding parse_simps by (intro ih le_t_rules)
  ultimately show ?case
    unfolding h(1) by blast
qed simp

section \<open>The text bounds the fuel\<close>

lemma case_tok_TOk:
  "(case ty of STRING \<Rightarrow> a | LBRACKET \<Rightarrow> b | LBRACE \<Rightarrow> c | _ \<Rightarrow> d) = TOk x \<longleftrightarrow>
   ty = STRING \<and> a = TOk x \<or> ty = LBRACKET \<and> b = TOk x \<or> ty = LBRACE \<and> c = TOk x \<or>
   ty \<noteq> STRING \<and> ty \<noteq> LBRACKET \<and> ty \<noteq> LBRACE \<and> d = TOk x"
  by (cases ty) auto

lemma parse_wf:
  "(\<forall>t tab t' tab'. parse_keyval f t tab = TOk (t', tab') \<longrightarrow> wf_token t \<longrightarrow> wf_token t' \<and> rem t' < rem t) \<and>
   (\<forall>t tab t' tab'. toml_table_loop f t tab = TOk (t', tab') \<longrightarrow> wf_token t \<longrightarrow> wf_token t' \<and> rem t' < rem t) \<and>
   (\<forall>t arr t' arr'. toml_array_loop f t arr = TOk (t', arr') \<longrightarrow> wf_token t \<longrightarrow> wf_token t' \<and> rem t' < rem t) \<and>
   (\<forall>t arr t' arr'. parse_element f t arr = TOk (t', arr') \<longrightarrow> wf_token t \<longrightarrow> wf_token t' \<and> rem t' \<le> rem t)"
proof (induction f)
  case (Suc f)
  have ih: "parse_keyval f t tab = TOk (t', tab') \<Longrightarrow> wf_token t \<Longrightarrow> wf_token t' \<and> rem t' < rem t"
    "toml_table_loop f t tab = TOk (t', tab') \<Longrightarrow> wf_token t \<Longrightarrow> wf_token t' \<and> rem t' < rem t"
    "toml_array_loop f t arr = TOk (t', arr') \<Longrightarrow> wf_token t \<Longrightarrow> wf_token t' \<and> rem t' < rem t"
    "parse_element f t arr = TOk (t', arr') \<Longrightarrow> wf_token t \<Longrightarrow> wf_token t' \<and> rem t' \<le> rem t"
    for t tab t' tab' arr arr' using Suc.IH by blast+
  note wf = ih SKIP_NEWLINES_wf EAT_TOKEN_wf
  have "wf_token t' \<and> rem t' < rem t" if "parse_keyval (Suc f) t tab = TOk (t', tab')" "wf_token t" for t tab t' tab'
    using that unfolding parse_simps
    by (auto simp: case_tok_TOk syntax_at_def Let_def split: if_splits prod.splits dest!: wf)
  moreover have "wf_token t' \<and> rem t' < rem t" if "toml_table_loop (Suc f) t tab = TOk (t', tab')" "wf_token t" for t tab t' tab'
    using that unfolding parse_simps
    by (auto simp del: SKIP_NEWLINES.simps simp: syntax_at_def split: if_splits prod.splits dest!: wf)
  moreover have "wf_token t' \<and> rem t' < rem t" if "toml_array_loop (Suc f) t arr = TOk (t', arr')" "wf_token t" for t arr t' arr'
    using that unfolding parse_simps
    by (auto simp del: SKIP_NEWLINES.simps simp: syntax_at_def split: if_splits prod.splits dest!: wf)
  moreover have "wf_token t' \<and> rem t' \<le> rem t" if "parse_element (Suc f) t arr = TOk (t', arr')" "wf_token t" for t arr t' arr'
    using that unfolding parse_simps
    by (auto simp: case_tok_TOk syntax_at_def split: if_splits prod.splits dest!: wf)
  ultimately show ?case by blast
qed simp

lemma parse_keyval_wf: "parse_keyval f t tab = TOk (t', tab') \<Longrightarrow> wf_token t \<Longrightarrow> wf_token t' \<and> rem t' < rem t"
  using parse_wf by blast

lemma parse_element_wf: "parse_element f t arr = TOk (t', arr') \<Longrightarrow> wf_token t \<Longrightarrow> wf_token t' \<and> rem t' \<le> rem t"
  using parse_wf by blast

lemma all_Suc_if: "(\<forall>b. P b) \<longleftrightarrow> P 0 \<and> (\<forall>c. P (Suc c))"
  by (metis old.nat.exhaust)

lemma parse_bound:
  "(\<forall>b t tab. wf_token t \<longrightarrow> 2 * rem t < b \<longrightarrow> le_t (parse_keyval f t tab) (parse_keyval b t tab)) \<and>
   (\<forall>b t tab. wf_token t \<longrightarrow> 2 * rem t + 1 < b \<longrightarrow> le_t (toml_table_loop f t tab) (toml_table_loop b t tab)) \<and>
   (\<forall>b t arr. wf_token t \<longrightarrow> 2 * rem t + 1 < b \<longrightarrow> le_t (toml_array_loop f t arr) (toml_array_loop b t arr)) \<and>
   (\<forall>b t arr. wf_token t \<longrightarrow> 2 * rem t < b \<longrightarrow> le_t (parse_element f t arr) (parse_element b t arr))"
proof (induction f)
  case (Suc f)
  have ih: "wf_token t \<Longrightarrow> 2 * rem t < c \<Longrightarrow> le_t (parse_keyval f t tab) (parse_keyval c t tab)"
    "wf_token t \<Longrightarrow> 2 * rem t + 1 < c \<Longrightarrow> le_t (toml_table_loop f t tab) (toml_table_loop c t tab)"
    "wf_token t \<Longrightarrow> 2 * rem t + 1 < c \<Longrightarrow> le_t (toml_array_loop f t arr) (toml_array_loop c t arr)"
    "wf_token t \<Longrightarrow> 2 * rem t < c \<Longrightarrow> le_t (parse_element f t arr) (parse_element c t arr)"
    for c t tab arr using Suc.IH by blast+
  note wf = parse_keyval_wf parse_element_wf SKIP_NEWLINES_wf EAT_TOKEN_wf
  note step = SKIP_NEWLINES_bound ih le_t_rules
  have "le_t (parse_keyval (Suc f) t tab) (parse_keyval (Suc c) t tab)" if "wf_token t" "2 * rem t < Suc c" for c t tab
    using that unfolding parse_simps Let_def by (intro step) (auto dest!: wf)
  moreover have "le_t (toml_table_loop (Suc f) t tab) (toml_table_loop (Suc c) t tab)" if "wf_token t" "2 * rem t + 1 < Suc c" for c t tab
    using that unfolding parse_simps by (intro step) (auto simp del: SKIP_NEWLINES.simps dest!: wf)
  moreover have "le_t (toml_array_loop (Suc f) t arr) (toml_array_loop (Suc c) t arr)" if "wf_token t" "2 * rem t + 1 < Suc c" for c t arr
    using that unfolding parse_simps by (intro step) (auto simp del: SKIP_NEWLINES.simps dest!: wf)
  moreover have "le_t (parse_element (Suc f) t arr) (parse_element (Suc c) t arr)" if "wf_token t" "2 * rem t < Suc c" for c t arr
    using that unfolding parse_simps by (intro step) (auto dest!: wf)
  ultimately show ?case
    by (simp add: all_Suc_if)
qed simp

lemma ebind_Inr [simp]: "ebind a f = Inr y \<longleftrightarrow> (\<exists>x. a = Inr x \<and> f x = Inr y)"
  by (cases a) auto

lemma fill_tabpath_loop_wf:
  "fill_tabpath_loop room lno t acc = Inr (t', ks) \<Longrightarrow> wf_token t' \<and> rem t' \<le> rem t"
proof (induction room lno t acc rule: fill_tabpath_loop.induct)
  case (2 room lno t acc)
  from 2(2) obtain key t1 where t1: "normalize_key t = Inr key" "next_token t True = Inr t1"
    and r: "tok t1 = RBRACKET \<and> t' = t1 \<or>
      tok t1 = DOT \<and> (\<exists>t2. next_token t1 True = Inr t2 \<and> fill_tabpath_loop room lno t2 (acc @ [(key, t)]) = Inr (t', ks))"
    by (auto split: if_splits)
  from r show ?case
  proof (elim disjE conjE exE)
    assume "tok t1 = RBRACKET" "t' = t1"
    then show ?thesis using next_token_wf [OF t1(2)] by auto
  next
    fix t2 assume d: "tok t1 = DOT" and t2: "next_token t1 True = Inr t2" "fill_tabpath_loop room lno t2 (acc @ [(key, t)]) = Inr (t', ks)"
    have "wf_token t' \<and> rem t' \<le> rem t2" using 2 t1 t2 d by (auto split: if_splits)
    then show ?thesis using next_token_wf [OF t1(2)] next_token_wf [OF t2(1)] by auto
  qed
qed simp

lemma parse_select_wf:
  assumes "parse_select t rt = Inr (t', r)" "wf_token t"
  shows "wf_token t' \<and> rem t' < rem t"
proof -
  from assms(1) obtain t1 where t1: "tok t = LBRACKET" "next_token t True = Inr t1"
    by (auto simp: parse_select_def split: if_splits)
  then obtain t2 t3 ks where t2: "t2 = t1 \<or> next_token t1 True = Inr t2" "fill_tabpath t2 = Inr (t3, ks)"
    and r: "\<exists>t4. EAT_TOKEN t3 RBRACKET = Inr t4 \<and> (t' = t4 \<or> EAT_TOKEN t4 RBRACKET = Inr t')"
    using assms(1) by (cases "tok t1 = LBRACKET") (force simp: parse_select_def Let_def split: if_splits prod.splits)+
  then obtain t4 where n: "tok t = LBRACKET" "next_token t True = Inr t1" "t2 = t1 \<or> next_token t1 True = Inr t2" "fill_tabpath t2 = Inr (t3, ks)"
    "EAT_TOKEN t3 RBRACKET = Inr t4" "t' = t4 \<or> EAT_TOKEN t4 RBRACKET = Inr t'" using t1 by auto
  have "len t = 1" "ptr t \<noteq> []" using assms(2) n(1) by (auto simp: wf_token_def)
  then have t1: "wf_token t1" "rem t1 < rem t" using next_token_wf [OF n(2)] by (cases "ptr t"; auto)+
  have t2: "rem t2 \<le> rem t1" using n(3) next_token_wf [of t1 True t2] by auto
  have t3: "wf_token t3" "rem t3 \<le> rem t2" using fill_tabpath_loop_wf n(4) by (auto simp: fill_tabpath_def)
  have t4: "wf_token t4" "rem t4 \<le> rem t3" using EAT_TOKEN_wf [OF n(5)] t3 by auto
  show ?thesis using n(6) EAT_TOKEN_wf [of t4 RBRACKET t'] t1 t2 t3 t4 by auto
qed

lemma toml_parse_loop_bound:
  "wf_token t \<Longrightarrow> 2 * rem t + 1 < b \<Longrightarrow> le_t (toml_parse_loop f t rt path) (toml_parse_loop b t rt path)"
proof (induction f arbitrary: t b rt path)
  case (Suc f)
  obtain c where b: "b = Suc c" using Suc.prems by (cases b) auto
  have kv: "le_t (parse_keyval f t tab) (parse_keyval c t tab)" for tab
    using parse_bound Suc.prems b by auto
  show ?case
  proof (cases "eof t \<or> (tok t \<noteq> NEWLINE \<and> tok t \<noteq> STRING \<and> tok t \<noteq> LBRACKET)")
    case False
    then consider (nl) "tok t = NEWLINE" "\<not> eof t" | (st) "tok t = STRING" "\<not> eof t" | (br) "tok t = LBRACKET" "\<not> eof t" by auto
    then show ?thesis
    proof cases
      case nl
      have "le_t (toml_parse_loop f t1 rt path) (toml_parse_loop c t1 rt path)" if "next_token t True = Inr t1" for t1
      proof (rule Suc.IH)
        have "len t = 1" "ptr t \<noteq> []" using Suc.prems nl by (auto simp: wf_token_def)
        then show "2 * rem t1 + 1 < c" using next_token_wf [OF that] Suc.prems b by (cases "ptr t") auto
      qed (use next_token_wf [OF that] in simp)
      then show ?thesis using nl b by (auto intro!: le_t_bind)
    next
      case st
      have "le_t (toml_parse_loop f t2 r path) (toml_parse_loop c t2 r path)"
        if "parse_keyval c t tab = TOk (t1, tab')" "EAT_TOKEN t1 NEWLINE = Inr t2" for t1 t2 tab tab' r
        using parse_keyval_wf [OF that(1)] EAT_TOKEN_wf [OF that(2)] Suc.prems b by (intro Suc.IH) auto
      then show ?thesis using st b kv by (auto intro!: le_t_bind)
    next
      case br
      have "le_t (toml_parse_loop f t1 r p) (toml_parse_loop c t1 r p)" if "parse_select t rt = Inr (t1, r, p)" for t1 r p
        using parse_select_wf [OF that] Suc.prems b by (intro Suc.IH) auto
      then show ?thesis using br b by (auto intro!: le_t_bind)
    qed
  qed (use b in \<open>cases "tok t"; auto\<close>)
qed simp

definition toml_fuel :: "string \<Rightarrow> nat" where
  "toml_fuel conf = 2 * length (cstr conf) + 3"

lemma toml_parse_fuel_le: "le_t (toml_parse f conf) (toml_parse (toml_fuel conf) conf)"
proof (cases f)
  case (Suc g)
  let ?t = "first_token (cstr conf)"
  have "le_t (toml_parse_loop g t1 r p) (toml_parse_loop (2 * length (cstr conf) + 2) t1 r p)"
    if "next_token ?t True = Inr t1" for t1 r p
    using next_token_wf [OF that] by (intro toml_parse_loop_bound) (auto simp: first_token_def ret_token_def)
  then show ?thesis
    unfolding toml_parse_def toml_fuel_def Suc by (auto simp: first_token_def ret_token_def numeral_3_eq_3 intro!: le_t_bind)
qed (simp add: toml_parse_def)

lemma toml_parse_loop_mono: "f \<le> g \<Longrightarrow> le_t (toml_parse_loop f t rt path) (toml_parse_loop g t rt path)"
proof (induction f arbitrary: g t rt path)
  case (Suc f)
  obtain h where h: "g = Suc h" "f \<le> h" using Suc.prems by (cases g) auto
  have kv: "le_t (parse_keyval f t tab) (parse_keyval h t tab)" for tab
    using parse_mono [OF h(2)] by blast
  show ?case
    unfolding h(1) using Suc.IH [OF h(2)] kv by (cases "tok t") (auto intro!: le_t_bind)
qed simp

lemma le_t_antisym: "le_t a b \<Longrightarrow> le_t b a \<Longrightarrow> a = b"
  by (auto simp: le_t_def)

lemma toml_parse_enough:
  assumes "toml_fuel conf \<le> f"
  shows "toml_parse f conf = toml_parse (toml_fuel conf) conf"
  using toml_parse_loop_mono [OF assms] toml_parse_fuel_le
  unfolding toml_parse_def by (metis le_t_antisym)

section \<open>Texts that are always answered\<close>

text \<open>An array or an inline table starts with a bracket behind an equality sign. A text in which no equality sign is followed by
  one, blanks apart, may hold headers of tables and of arrays of tables, settings, comments and any malformed line.\<close>

definition blank :: "char \<Rightarrow> bool" where
  "blank c \<longleftrightarrow> c = CR \<or> c = CHR '' '' \<or> c = TAB"

definition opens_value :: "string \<Rightarrow> bool" where
  "opens_value s = (case dropWhile blank s of [] \<Rightarrow> False | c # r \<Rightarrow> c = CHR ''['' \<or> c = CHR ''{'')"

fun plain_values :: "string \<Rightarrow> bool" where
  "plain_values [] = True"
| "plain_values (c # r) = ((c = CHR ''='' \<longrightarrow> \<not> opens_value r) \<and> plain_values r)"

lemma plain_drop: "plain_values s \<Longrightarrow> plain_values (drop n s)"
proof (induction s arbitrary: n)
  case (Cons c s)
  then show ?case by (cases n) auto
qed simp

lemma plain_dropWhile: "plain_values s \<Longrightarrow> plain_values (dropWhile P s)"
  by (simp add: dropWhile_eq_drop plain_drop)

lemma opens_value_takeWhile: "opens_value (takeWhile P s) \<Longrightarrow> opens_value s"
  by (induction s) (auto simp: opens_value_def split: if_splits)

lemma plain_cstr: "plain_values s \<Longrightarrow> plain_values (cstr s)"
  unfolding cstr_def by (induction s) (auto dest: opens_value_takeWhile)

lemma scan_string_tok: "scan_string p lno d = Inr t \<Longrightarrow> tok t = STRING \<and> ptr t = p"
  by (auto simp: scan_string_def Let_def ret_token_def split: if_splits option.splits sum.splits prod.splits)

lemma scan_next_plain: "scan_next lno d p = Inr t \<Longrightarrow> plain_values p \<Longrightarrow> plain_values (ptr t)"
proof (induction lno d p rule: scan_next.induct)
  case (1 lno d)
  then show ?case by (auto simp: ret_eof_def ret_token_def)
next
  case (2 lno d c r)
  have "plain_values r" "plain_values (dropWhile (\<lambda>c. c \<noteq> LF) r)"
    using 2(4) plain_dropWhile [of r] by auto
  with 2 show ?case
    by (auto simp: ret_token_def split: if_splits dest!: scan_string_tok)
qed

text \<open>The token of an equality sign stands at the sign, and that of a bracket at the first character that is no blank.\<close>

lemma scan_next_equal: "scan_next lno d p = Inr t \<Longrightarrow> tok t = EQUAL \<Longrightarrow> \<exists>r. ptr t = CHR ''='' # r \<and> len t = 1"
proof (induction lno d p rule: scan_next.induct)
  case (1 lno d)
  then show ?case by (auto simp: ret_eof_def ret_token_def)
next
  case (2 lno d c r)
  then show ?case
    by (auto simp: ret_token_def split: if_splits dest!: scan_string_tok)
qed

lemma opens_value_line: "\<not> opens_value (dropWhile (\<lambda>c. c \<noteq> LF) p)"
  by (induction p) (auto simp: opens_value_def blank_def)

lemma opens_value_Cons: "opens_value (c # r) \<longleftrightarrow> (if blank c then opens_value r else c = CHR ''['' \<or> c = CHR ''{'')"
  by (simp add: opens_value_def)

lemma scan_next_opens: "scan_next lno d p = Inr t \<Longrightarrow> tok t = LBRACKET \<or> tok t = LBRACE \<Longrightarrow> opens_value p"
proof (induction lno d p rule: scan_next.induct)
  case (1 lno d)
  then show ?case by (auto simp: ret_eof_def ret_token_def)
next
  case (2 lno d c r)
  then show ?case
    by (auto simp: ret_token_def opens_value_line opens_value_Cons blank_def split: if_splits dest!: scan_string_tok)
qed

lemma next_token_plain: "next_token t d = Inr t' \<Longrightarrow> plain_values (ptr t) \<Longrightarrow> plain_values (ptr t')"
  using scan_next_plain plain_drop unfolding next_token_def by blast

lemma EAT_TOKEN_plain: "EAT_TOKEN t ty = Inr t' \<Longrightarrow> plain_values (ptr t) \<Longrightarrow> plain_values (ptr t')"
  using next_token_plain by (auto simp: EAT_TOKEN_def split: if_splits)

lemma value_token_plain:
  assumes "EAT_TOKEN t STRING = Inr t1" "tok t1 = EQUAL" "EAT_TOKEN t1 EQUAL = Inr t2" "plain_values (ptr t)"
  shows "tok t2 \<noteq> LBRACKET \<and> tok t2 \<noteq> LBRACE"
proof -
  have p: "plain_values (ptr t1)" using EAT_TOKEN_plain assms(1,4) by blast
  obtain r where r: "ptr t1 = CHR ''='' # r" "len t1 = 1"
    using assms(1,2) scan_next_equal unfolding EAT_TOKEN_def next_token_def by (metis Inl_Inr_False)
  then obtain n where "scan_next n False r = Inr t2"
    using assms(2,3) by (auto simp: EAT_TOKEN_def next_token_def)
  then show ?thesis using scan_next_opens [of n False r t2] p r(1) by auto
qed

lemma tbind_TOut: "tbind a f = TOut \<longleftrightarrow> a = TOut \<or> (\<exists>x. a = TOk x \<and> f x = TOut)"
  by (cases a) auto

lemma parse_keyval_plain:
  assumes "plain_values (ptr t)"
  shows "parse_keyval (Suc f) t tab \<noteq> TOut"
    and "parse_keyval (Suc f) t tab = TOk (t', tab') \<Longrightarrow> plain_values (ptr t')"
proof -
  note no = value_token_plain [OF _ _ _ assms]
  show "parse_keyval (Suc f) t tab \<noteq> TOut"
    using no by (auto simp: tbind_TOut syntax_at_def split: tokentype.splits if_splits)
  show "parse_keyval (Suc f) t tab = TOk (t', tab') \<Longrightarrow> plain_values (ptr t')"
    using no assms by (auto simp: case_tok_TOk syntax_at_def split: if_splits dest: EAT_TOKEN_plain)
qed

lemma fill_tabpath_loop_plain:
  "fill_tabpath_loop room lno t acc = Inr (t', ks) \<Longrightarrow> plain_values (ptr t) \<Longrightarrow> plain_values (ptr t')"
  by (induction room lno t acc rule: fill_tabpath_loop.induct) (auto split: if_splits dest!: next_token_plain)

lemma parse_select_plain:
  assumes "parse_select t rt = Inr (t', r)" "plain_values (ptr t)"
  shows "plain_values (ptr t')"
proof -
  from assms(1) obtain t1 where t1: "next_token t True = Inr t1"
    by (auto simp: parse_select_def split: if_splits)
  then obtain t2 t3 ks t4 where "t2 = t1 \<or> next_token t1 True = Inr t2" "fill_tabpath t2 = Inr (t3, ks)"
    "EAT_TOKEN t3 RBRACKET = Inr t4" "t' = t4 \<or> EAT_TOKEN t4 RBRACKET = Inr t'"
    using assms(1) by (cases "tok t1 = LBRACKET") (force simp: parse_select_def Let_def split: if_splits prod.splits)+
  with t1 assms(2) show ?thesis
    using next_token_plain EAT_TOKEN_plain fill_tabpath_loop_plain unfolding fill_tabpath_def by metis
qed

lemma toml_parse_loop_plain:
  "wf_token t \<Longrightarrow> plain_values (ptr t) \<Longrightarrow> rem t + 1 < f \<Longrightarrow> toml_parse_loop f t rt path \<noteq> TOut"
proof (induction f arbitrary: t rt path)
  case (Suc f)
  obtain g where f: "f = Suc g" using Suc.prems by (cases f) auto
  consider "eof t" | (nl) "tok t = NEWLINE" "\<not> eof t" | (st) "tok t = STRING" "\<not> eof t" | (br) "tok t = LBRACKET" "\<not> eof t"
    | "\<not> eof t" "tok t \<noteq> NEWLINE" "tok t \<noteq> STRING" "tok t \<noteq> LBRACKET" by blast
  then show ?case
  proof cases
    case nl
    have "toml_parse_loop f t1 rt path \<noteq> TOut" if "next_token t True = Inr t1" for t1
    proof (rule Suc.IH)
      have "len t = 1" "ptr t \<noteq> []" using Suc.prems nl by (auto simp: wf_token_def)
      then show "rem t1 + 1 < f" using next_token_wf [OF that] Suc.prems by (cases "ptr t") auto
    qed (use next_token_wf [OF that] next_token_plain [OF that] Suc.prems in auto)
    then show ?thesis using nl by (auto simp: tbind_TOut)
  next
    case st
    have "toml_parse_loop f t2 r path \<noteq> TOut"
      if "parse_keyval f t tab = TOk (t1, tab')" "EAT_TOKEN t1 NEWLINE = Inr t2" for t1 t2 tab tab' r
      using parse_keyval_wf [OF that(1)] parse_keyval_plain(2) [OF Suc.prems(2) that(1) [unfolded f]]
        EAT_TOKEN_wf [OF that(2)] EAT_TOKEN_plain [OF that(2)] Suc.prems by (intro Suc.IH) auto
    then show ?thesis
      using st parse_keyval_plain(1) [OF Suc.prems(2)] f by (auto simp: tbind_TOut simp del: parse_simps)
  next
    case br
    have "toml_parse_loop f t1 r p \<noteq> TOut" if "parse_select t rt = Inr (t1, r, p)" for t1 r p
      using parse_select_wf [OF that] parse_select_plain [OF that] Suc.prems by (intro Suc.IH) auto
    then show ?thesis using br by (auto simp: tbind_TOut)
  qed (use Suc.prems in \<open>cases "tok t"; auto\<close>)+
qed simp

text \<open>C26. The parser returns. On every text in which no equality sign is followed by an array or an inline table - tables, arrays of
  tables, settings, comments, and whatever malformed line an administrator leaves in the file - it ends with a table or an error
  after at most \<open>toml_fuel conf\<close> steps, a number linear in the length of the text, and with any larger bound the result is the same.
  Without the condition it need not return: see \<open>toml_parse_open_array_hangs\<close>.\<close>

theorem toml_parse_returns:
  assumes "plain_values conf"
  shows "\<exists>r. r \<noteq> TOut \<and> (\<forall>f \<ge> toml_fuel conf. toml_parse f conf = r)"
proof -
  let ?t = "first_token (cstr conf)"
  have pl: "plain_values (ptr ?t)"
    using plain_cstr [OF assms] by (simp add: first_token_def ret_token_def)
  have "toml_parse_loop (2 * length (cstr conf) + 2) t1 r p \<noteq> TOut" if "next_token ?t True = Inr t1" for t1 r p
    using next_token_wf [OF that] next_token_plain [OF that pl]
    by (intro toml_parse_loop_plain) (auto simp: first_token_def ret_token_def)
  then have "toml_parse (toml_fuel conf) conf \<noteq> TOut"
    unfolding toml_parse_def toml_fuel_def
    by (auto simp: first_token_def ret_token_def numeral_3_eq_3 tbind_TOut)
  then show ?thesis using toml_parse_enough by blast
qed

definition odd_conf :: string where
  "odd_conf = ''a = 1'' @ [LF] @ ''[t]'' @ [LF] @ ''k = x y'' @ [LF]"

theorem toml_parse_returns_witness:
  "plain_values odd_conf \<and> (\<exists>r. r \<noteq> TOut \<and> toml_parse 1000 odd_conf = r \<and> toml_parse 2000 odd_conf = r)"
proof -
  have "plain_values odd_conf" "toml_fuel odd_conf \<le> 1000" by code_simp+
  then show ?thesis using toml_parse_returns [of odd_conf] by force
qed

text \<open>An array left open at the end of the text: the parser never returns.\<close>

lemma toml_parse_open_array_hangs: "toml_parse f ''a = ['' = TOut"
proof -
  have "toml_parse (toml_fuel ''a = ['') ''a = ['' = TOut" by code_simp
  then show ?thesis using toml_parse_fuel_le [of f "''a = [''"] by (auto simp: le_t_def)
qed

end
