(* ===== verification/Toml_Print.thy ===== *)
theory Toml_Print
  imports Toml_Fuel
begin

text \<open>
  Reading back what is written: a configuration of bare keys with quoted strings, one per line, parses to exactly the
  table of those keys.
\<close>

section \<open>Lines\<close>

definition bare_key :: "string \<Rightarrow> bool" where
  "bare_key k \<longleftrightarrow> k \<noteq> [] \<and> list_all bare_key_char k"

datatype scalar = TStr string | TInt int | TBool bool

fun scalar_text :: "scalar \<Rightarrow> string" where
  "scalar_text (TStr s) = toml_quote s"
| "scalar_text (TInt i) = show_int i"
| "scalar_text (TBool b) = (if b then ''true'' else ''false'')"

fun scalar_ok :: "scalar \<Rightarrow> bool" where
  "scalar_ok (TStr s) = no_nul s"
| "scalar_ok (TInt i) = (- (2 ^ 63) \<le> i \<and> i < 2 ^ 63)"
| "scalar_ok (TBool b) = True"

text \<open>The conversion of a raw value gives the scalar.\<close>

fun reads_as :: "string option \<Rightarrow> scalar \<Rightarrow> bool" where
  "reads_as raw (TStr s) \<longleftrightarrow> toml_rtos raw = (True, Some (Some s))"
| "reads_as raw (TInt i) \<longleftrightarrow> toml_rtoi raw = (True, Some (word_of_int i))"
| "reads_as raw (TBool b) \<longleftrightarrow> toml_rtob raw = (True, Some b)"

definition toml_line :: "string \<times> scalar \<Rightarrow> string" where
  "toml_line kv = fst kv @ '' = '' @ scalar_text (snd kv) @ [LF]"

definition toml_lines :: "(string \<times> scalar) list \<Rightarrow> string" where
  "toml_lines kvs = concat (map toml_line kvs)"

definition toml_entries :: "(string \<times> scalar) list \<Rightarrow> (string \<times> string) list" where
  "toml_entries kvs = map (\<lambda>(k, v). (k, scalar_text v)) kvs"

lemma scalar_reads_back: "scalar_ok v \<Longrightarrow> reads_as (Some (scalar_text v)) v"
  by (cases v) (simp_all add: toml_rtos_quote toml_rtoi_show_int toml_rtob_def)

section \<open>The tokens of a line\<close>

lemma bare_char_plain:
  assumes "bare_char d c"
  shows "c \<notin> {CHR ''#'', CHR '','', CHR ''='', CHR ''{'', CHR ''}'', CHR ''['', CHR '']'', LF, CR, CHR '' '', TAB, SQUOT, QUOT}"
    and "d \<Longrightarrow> c \<noteq> CHR ''.''"
proof
  assume "c \<in> {CHR ''#'', CHR '','', CHR ''='', CHR ''{'', CHR ''}'', CHR ''['', CHR '']'', LF, CR, CHR '' '', TAB, SQUOT, QUOT}"
  with assms show False by (elim insertE) (simp_all add: bare_char_def ctype_simps)
qed (use assms in \<open>simp add: bare_char_def\<close>)

lemma bare_key_bare: "bare_key_char c \<Longrightarrow> bare_char d c"
  by (auto simp: bare_key_char_def bare_char_def ctype_simps)

lemma scan_bare:
  assumes "k \<noteq> []" "list_all (bare_char d) k" "\<not> bare_char d e"
  shows "scan_next lno d (k @ e # r) = Inr (ret_token STRING lno (k @ e # r) (length k))"
proof -
  obtain c k' where k: "k = c # k'" "bare_char d c" using assms by (cases k) auto
  note c = bare_char_plain [OF k(2)]
  have "takeWhile (bare_char d) (k @ e # r) = k"
    using assms by (subst takeWhile_append2) (auto simp: list_all_iff)
  then have "scan_string (k @ e # r) lno d = Inr (ret_token STRING lno (k @ e # r) (length k))"
    using c(1) unfolding k(1) by (simp add: scan_string_def starts_with_def char_at_def)
  moreover have "\<not> (d \<and> c = CHR ''.'')" using c(2) by blast
  ultimately show ?thesis using c(1) unfolding k(1) by (simp, blast)
qed

lemma not_bare_blank: "\<not> bare_char d (CHR '' '')"
  by (simp add: bare_char_def ctype_simps)

lemma scan_bare_key: "bare_key k \<Longrightarrow> scan_next lno d (k @ CHR '' '' # r) = Inr (ret_token STRING lno (k @ CHR '' '' # r) (length k))"
  using scan_bare [of k d "CHR '' ''" lno r] bare_key_bare not_bare_blank unfolding bare_key_def list_all_iff by blast

lemma scan_basic_quoted:
  "scan_basic lno False 0 n (concat (map quote_char s) @ QUOT # r) = Inr (n + length (concat (map quote_char s)))"
proof (induction s arbitrary: n)
  case (Cons c s)
  then show ?case by (auto simp: quote_char_def escape_char_def)
qed simp

lemma scan_quoted:
  "scan_next lno d (toml_quote v @ LF # r) = Inr (ret_token STRING lno (toml_quote v @ LF # r) (length (toml_quote v)))"
proof -
  let ?q = "concat (map quote_char v)"
  have "\<not> starts_with [QUOT, QUOT, QUOT] (toml_quote v @ LF # r)" "\<not> starts_with [SQUOT, SQUOT, SQUOT] (toml_quote v @ LF # r)"
    by (cases v; auto simp: toml_quote_def starts_with_def quote_char_def)+
  moreover have "char_at (toml_quote v @ LF # r) (Suc (length ?q)) = QUOT" "char_at (toml_quote v @ LF # r) 0 = QUOT"
    by (simp_all add: toml_quote_def char_at_def nth_append)
  ultimately have "scan_string (toml_quote v @ LF # r) lno d = Inr (ret_token STRING lno (toml_quote v @ LF # r) (length (toml_quote v)))"
    using scan_basic_quoted [of lno 1 v "LF # r"] by (simp add: scan_string_def toml_quote_def)
  then show ?thesis by (simp add: toml_quote_def)
qed

lemma show_int_bare: "list_all (bare_char False) (show_int i)" "show_int i \<noteq> []"
proof -
  have "list_all (bare_char False) (show_nat n)" for n
    using show_nat_digits [of n] by (auto simp: list_all_iff bare_char_def isalnum_def isdigit_def code_def)
  then show "list_all (bare_char False) (show_int i)" "show_int i \<noteq> []"
    using show_nat_digits by (auto simp: show_int_def bare_char_def)
qed

lemma scan_scalar:
  "scan_next lno False (scalar_text v @ LF # r) = Inr (ret_token STRING lno (scalar_text v @ LF # r) (length (scalar_text v)))"
proof (cases v)
  case (TInt i)
  then show ?thesis using scan_bare [OF show_int_bare(2,1)] by (simp add: bare_char_def)
next
  case (TBool b)
  have "\<not> bare_char False LF" "list_all (bare_char False) ''true''" "list_all (bare_char False) ''false''" by code_simp+
  then show ?thesis
    using scan_bare [of "''true''" False LF lno r] scan_bare [of "''false''" False LF lno r] TBool by (cases b) auto
qed (simp add: scan_quoted)

lemma find_ix_None: "find_ix P xs = None \<longleftrightarrow> (\<forall>x \<in> set xs. \<not> P x)"
  by (induction xs) auto

lemma normalize_bare_key:
  assumes "bare_key k"
  shows "normalize_key (ret_token STRING lno (k @ r) (length k)) = Inr k"
proof -
  obtain c k' where k: "k = c # k'" "bare_key_char c" using assms by (cases k) (auto simp: bare_key_def)
  show ?thesis
    using bare_char_plain(1) [OF bare_key_bare [OF k(2)]] assms unfolding normalize_key_def Let_def bare_key_def
    by (simp add: ret_token_def char_at_def k(1))
qed

section \<open>A line and the whole text\<close>

lemma line_tokens:
  obtains l1 l2 l3 where "EAT_TOKEN (ret_token STRING lno (toml_line (k, v) @ r) (length k)) STRING = Inr (ret_token EQUAL l1 (''= '' @ scalar_text v @ LF # r) 1)"
    "EAT_TOKEN (ret_token EQUAL l1 (''= '' @ scalar_text v @ LF # r) 1) EQUAL = Inr (ret_token STRING l2 (scalar_text v @ LF # r) (length (scalar_text v)))"
    "EAT_TOKEN (ret_token STRING l2 (scalar_text v @ LF # r) (length (scalar_text v))) STRING = Inr (ret_token NEWLINE l3 (LF # r) 1)"
proof -
  let ?t = "ret_token STRING lno (toml_line (k, v) @ r) (length k)"
  obtain l1 where t1: "EAT_TOKEN ?t STRING = Inr (ret_token EQUAL l1 (''= '' @ scalar_text v @ LF # r) 1)"
    by (auto simp: EAT_TOKEN_def next_token_def ret_token_def toml_line_def)
  obtain l2 where t2: "EAT_TOKEN (ret_token EQUAL l1 (''= '' @ scalar_text v @ LF # r) 1) EQUAL =
      Inr (ret_token STRING l2 (scalar_text v @ LF # r) (length (scalar_text v)))"
    using scan_scalar by (auto simp: EAT_TOKEN_def next_token_def ret_token_def)
  obtain l3 where "EAT_TOKEN (ret_token STRING l2 (scalar_text v @ LF # r) (length (scalar_text v))) STRING = Inr (ret_token NEWLINE l3 (LF # r) 1)"
    by (auto simp: EAT_TOKEN_def next_token_def ret_token_def)
  with t1 t2 that show ?thesis by blast
qed

lemma line_key: "bare_key k \<Longrightarrow> normalize_key (ret_token STRING lno (toml_line (k, v) @ r) (length k)) = Inr k"
  using normalize_bare_key by (simp add: toml_line_def)

lemma parse_line:
  assumes "bare_key k" "k \<notin> fst ` set kvs"
  shows "\<exists>lno'. parse_keyval (Suc f) (ret_token STRING lno (toml_line (k, v) @ r) (length k)) (Table None False kvs [] []) =
    TOk (ret_token NEWLINE lno' (LF # r) 1, Table None False (kvs @ [(k, scalar_text v)]) [] [])"
proof -
  let ?t = "ret_token STRING lno (toml_line (k, v) @ r) (length k)"
  obtain l1 l2 l3 where tk: "EAT_TOKEN ?t STRING = Inr (ret_token EQUAL l1 (''= '' @ scalar_text v @ LF # r) 1)"
    "EAT_TOKEN (ret_token EQUAL l1 (''= '' @ scalar_text v @ LF # r) 1) EQUAL = Inr (ret_token STRING l2 (scalar_text v @ LF # r) (length (scalar_text v)))"
    "EAT_TOKEN (ret_token STRING l2 (scalar_text v @ LF # r) (length (scalar_text v))) STRING = Inr (ret_token NEWLINE l3 (LF # r) 1)"
    by (rule line_tokens)
  have cr: "create_keyval_in_table (Table None False kvs [] []) ?t (scalar_text v) = Inr (Table None False (kvs @ [(k, scalar_text v)]) [] [])"
    using assms(2) find_ix_None [of "\<lambda>kv. fst kv = k" kvs] line_key [OF assms(1)]
    by (auto simp: create_keyval_in_table_def check_key_def add_kval_def image_iff)
  show ?thesis
    using tk cr by (intro exI [of _ l3]) (simp add: ret_token_def)
qed

lemma parse_line_duplicate:
  assumes "bare_key k" "k \<in> fst ` set kvs"
  shows "parse_keyval (Suc f) (ret_token STRING lno (toml_line (k, v) @ r) (length k)) (Table None False kvs [] []) =
    TErr (E_key_exists lno (take 99 k))"
proof -
  let ?t = "ret_token STRING lno (toml_line (k, v) @ r) (length k)"
  obtain l1 l2 l3 where tk: "EAT_TOKEN ?t STRING = Inr (ret_token EQUAL l1 (''= '' @ scalar_text v @ LF # r) 1)"
    "EAT_TOKEN (ret_token EQUAL l1 (''= '' @ scalar_text v @ LF # r) 1) EQUAL = Inr (ret_token STRING l2 (scalar_text v @ LF # r) (length (scalar_text v)))"
    "EAT_TOKEN (ret_token STRING l2 (scalar_text v @ LF # r) (length (scalar_text v))) STRING = Inr (ret_token NEWLINE l3 (LF # r) 1)"
    by (rule line_tokens)
  have "e_key_exists ?t = E_key_exists lno (take 99 k)"
    by (simp add: e_key_exists_def ret_token_def toml_line_def min_def)
  then have cr: "create_keyval_in_table (Table None False kvs [] []) ?t (scalar_text v) = Inl (E_key_exists lno (take 99 k))"
    using assms(2) find_ix_None [of "\<lambda>kv. fst kv = k" kvs] line_key [OF assms(1)]
    by (auto simp: create_keyval_in_table_def check_key_def split: option.splits)
  show ?thesis
    using tk cr by (simp add: ret_token_def)
qed

lemma scan_lines_start:
  assumes "\<forall>kv \<in> set kvs. bare_key (fst kv)" "kvs \<noteq> []"
  shows "\<exists>t. scan_next lno d (toml_lines kvs @ rest) = Inr t"
proof (cases kvs)
  case (Cons a list)
  then show ?thesis
    using scan_bare_key [of "fst a" lno d "''= '' @ scalar_text (snd a) @ LF # toml_lines list @ rest"] assms
    by (simp add: toml_lines_def toml_line_def)
qed (use assms in simp)

lemma parse_lines_prefix:
  assumes "distinct (map fst acc @ map fst kvs)" "\<forall>kv \<in> set kvs. bare_key (fst kv)"
    "scan_next lno d (toml_lines kvs @ rest) = Inr t"
  shows "\<exists>lno' d'. toml_parse_loop (length kvs + Suc f) t (Table None False acc [] []) [] =
    (case scan_next lno' d' rest of Inl e \<Rightarrow> TErr e | Inr t' \<Rightarrow> toml_parse_loop (Suc f) t' (Table None False (acc @ toml_entries kvs) [] []) [])"
  using assms
proof (induction kvs arbitrary: acc lno d t)
  case Nil
  show ?case
    using Nil.prems(3) by (intro exI [of _ lno] exI [of _ d]) (simp add: toml_lines_def toml_entries_def)
next
  case (Cons kv kvs)
  obtain k v where kv: "kv = (k, v)" by (cases kv)
  have k: "bare_key k" "k \<notin> fst ` set acc" using Cons.prems kv by auto
  let ?rest = "toml_lines kvs @ rest" and ?acc = "acc @ [(k, scalar_text v)]"
  have t: "t = ret_token STRING lno (toml_line (k, v) @ ?rest) (length k)"
    using Cons.prems(3) scan_bare_key [OF k(1), of lno d "''= '' @ scalar_text v @ LF # ?rest"]
    by (simp add: toml_lines_def toml_line_def kv)
  obtain l1 where p: "parse_keyval (length kvs + Suc f) t (Table None False acc [] []) =
      TOk (ret_token NEWLINE l1 (LF # ?rest) 1, Table None False ?acc [] [])"
    using parse_line [OF k, of "length kvs + f"] t by (metis add_Suc_right)
  have loop: "toml_parse_loop (length (kv # kvs) + Suc f) t (Table None False acc [] []) [] =
    (case scan_next (l1 + 1) False ?rest of Inl e \<Rightarrow> TErr e | Inr t' \<Rightarrow> toml_parse_loop (length kvs + Suc f) t' (Table None False ?acc [] []) [])"
    using p t by (simp add: ret_token_def EAT_TOKEN_def next_token_def del: parse_simps split: sum.splits)
  have d: "distinct (map fst ?acc @ map fst kvs)" "\<forall>kv \<in> set kvs. bare_key (fst kv)" using Cons.prems kv by auto
  have ent: "toml_entries (kv # kvs) = (k, scalar_text v) # toml_entries kvs" by (simp add: toml_entries_def kv)
  show ?case
  proof (cases "scan_next (l1 + 1) False ?rest")
    case (Inl e)
    then have "kvs = []" using scan_lines_start [OF d(2), of "l1 + 1" False rest] by auto
    with Inl loop show ?thesis by (intro exI [of _ "l1 + 1"] exI [of _ False]) (simp add: toml_lines_def)
  next
    case (Inr t')
    show ?thesis
      using Cons.IH [OF d Inr] unfolding loop Inr by (simp only: sum.case ent append_assoc append.simps)
  qed
qed

lemmas parse_lines_from_start = parse_lines_prefix [of "[]", unfolded list.map append_Nil]

lemma not_bare_NUL: "\<not> bare_key_char NUL"
  by (simp add: bare_key_char_def ctype_simps)

lemma no_nul_scalar: "scalar_ok v \<Longrightarrow> no_nul (scalar_text v)"
  using no_nul_show_int by (cases v) (auto simp: toml_quote_def no_nul_def quote_char_def split: if_splits)

lemma no_nul_lines:
  assumes "\<forall>kv \<in> set kvs. bare_key (fst kv) \<and> scalar_ok (snd kv)"
  shows "no_nul (toml_lines kvs)"
proof -
  have k: "no_nul k" if "bare_key k" for k
    using that not_bare_NUL unfolding bare_key_def no_nul_def list_all_iff by metis
  show ?thesis
    using assms
  proof (induction kvs)
    case (Cons kv kvs)
    then show ?case using k [of "fst kv"] no_nul_scalar [of "snd kv"] by (simp add: toml_lines_def toml_line_def no_nul_def)
  qed (simp add: toml_lines_def)
qed

lemma raw_in_entries:
  "distinct (map fst kvs) \<Longrightarrow> (k, v) \<in> set kvs \<Longrightarrow> toml_raw_in (Table key imp (toml_entries kvs) as ts) k = Some (scalar_text v)"
  by (induction kvs) (force simp: toml_raw_in_def toml_entries_def)+

lemma toml_parse_lines:
  assumes "distinct (map fst kvs)" "\<forall>kv \<in> set kvs. bare_key (fst kv) \<and> scalar_ok (snd kv)"
  shows "toml_parse (toml_fuel (toml_lines kvs)) (toml_lines kvs) = TOk (Table None False (toml_entries kvs) [] [])"
proof -
  let ?s = "toml_lines kvs"
  have cs: "cstr ?s = ?s" using no_nul_lines [OF assms(2)] by simp
  have len: "length kvs \<le> length ?s" by (induction kvs) (auto simp: toml_lines_def toml_line_def)
  define g where "g = 2 * length ?s + 1 - length kvs"
  obtain t where t: "scan_next 1 True ?s = Inr t"
    using scan_lines_start [of kvs 1 True "[]"] assms(2) by (cases kvs) (auto simp: toml_lines_def)
  obtain l d where p: "toml_parse_loop (length kvs + Suc g) t (Table None False [] [] []) [] =
    (case scan_next l d [] of Inl e \<Rightarrow> TErr e | Inr t' \<Rightarrow> toml_parse_loop (Suc g) t' (Table None False (toml_entries kvs) [] []) [])"
    using parse_lines_from_start [of kvs 1 True "[]" t g] assms t unfolding append_Nil2 by blast
  have "length kvs + Suc g = 2 * length ?s + 2" using len by (simp add: g_def)
  then have "toml_parse_loop (2 * length ?s + 2) t (Table None False [] [] []) [] = TOk (Table None False (toml_entries kvs) [] [])"
    using p by (simp only:) (simp add: ret_eof_def)
  then show ?thesis
    using t unfolding toml_parse_def toml_fuel_def cs
    by (simp add: first_token_def ret_token_def next_token_def empty_table_def numeral_3_eq_3)
qed

text \<open>A key that comes a second time is refused, whatever follows.\<close>

lemma toml_parse_duplicate:
  assumes "distinct (map fst kvs)" "\<forall>kv \<in> set kvs. bare_key (fst kv) \<and> scalar_ok (snd kv)"
    and "k \<in> fst ` set kvs" "scalar_ok v" "no_nul r"
  shows "\<exists>lno. toml_parse (toml_fuel (toml_lines kvs @ toml_line (k, v) @ r)) (toml_lines kvs @ toml_line (k, v) @ r) =
    TErr (E_key_exists lno (take 99 k))"
proof -
  let ?rest = "toml_line (k, v) @ r"
  let ?s = "toml_lines kvs @ ?rest"
  have k: "bare_key k" using assms(2,3) by auto
  have "no_nul (toml_lines kvs)" "no_nul (toml_lines [(k, v)])"
    using no_nul_lines [OF assms(2)] no_nul_lines [of "[(k, v)]"] k assms(4) by auto
  then have cs: "cstr ?s = ?s" using assms(5) by (intro cstr_no_nul) (simp add: no_nul_def toml_lines_def)
  have len: "length kvs \<le> length (toml_lines kvs)" by (induction kvs) (auto simp: toml_lines_def toml_line_def)
  define g where "g = 2 * length ?s - length kvs"
  obtain t where t: "scan_next 1 True ?s = Inr t"
    using scan_lines_start [of kvs 1 True ?rest] assms(2,3) by (cases kvs) auto
  obtain l d where p: "toml_parse_loop (length kvs + Suc (Suc g)) t (Table None False [] [] []) [] =
    (case scan_next l d ?rest of Inl e \<Rightarrow> TErr e | Inr t' \<Rightarrow> toml_parse_loop (Suc (Suc g)) t' (Table None False (toml_entries kvs) [] []) [])"
    using parse_lines_from_start [OF assms(1) _ t, of "Suc g"] assms(2) by blast
  have tk: "scan_next l d ?rest = Inr (ret_token STRING l ?rest (length k))"
    using scan_bare_key [OF k, of l d "''= '' @ scalar_text v @ LF # r"] by (simp add: toml_line_def)
  have "k \<in> fst ` set (toml_entries kvs)" using assms(3) by (force simp: toml_entries_def)
  note dup = parse_line_duplicate [OF k this, of g l v r]
  have "length kvs + Suc (Suc g) = 2 * length ?s + 2" using len by (simp add: g_def)
  then have "toml_parse_loop (2 * length ?s + 2) t (Table None False [] [] []) [] = TErr (E_key_exists l (take 99 k))"
    using p tk by (simp only:) (use dup in \<open>simp add: ret_token_def del: parse_simps\<close>)
  then show ?thesis
    using t unfolding toml_parse_def toml_fuel_def cs
    by (intro exI [of _ l]) (simp add: first_token_def ret_token_def next_token_def empty_table_def numeral_3_eq_3)
qed

text \<open>C25. A configuration that is written is read back: for distinct bare keys with texts, 64-bit integers and booleans as
  values, the text with a line \<^verbatim>\<open>key = value\<close> per key parses to the table of exactly those keys in their order, and the
  raw value of every key converts to the value it was written from (an integer modulo 2 ^ 32).\<close>

theorem toml_print_parse:
  assumes "distinct (map fst kvs)" "\<forall>kv \<in> set kvs. bare_key (fst kv) \<and> scalar_ok (snd kv)"
  shows "toml_parse (toml_fuel (toml_lines kvs)) (toml_lines kvs) = TOk (Table None False (toml_entries kvs) [] []) \<and>
    (\<forall>(k, v) \<in> set kvs. reads_as (toml_raw_in (Table None False (toml_entries kvs) [] []) k) v)"
proof
  show "\<forall>(k, v) \<in> set kvs. reads_as (toml_raw_in (Table None False (toml_entries kvs) [] []) k) v"
    using raw_in_entries [OF assms(1)] assms(2) scalar_reads_back by (auto split: prod.splits)
qed (rule toml_parse_lines [OF assms])

definition sample_settings :: "(string \<times> scalar) list" where
  "sample_settings = [(''user'', TStr [CHR ''a'', QUOT, LF]), (''uid_shift'', TInt (- 20)), (''cache'', TBool False)]"

theorem toml_print_parse_witness:
  "toml_parse (toml_fuel (toml_lines sample_settings)) (toml_lines sample_settings) = TOk (Table None False (toml_entries sample_settings) [] [])"
proof -
  have "distinct (map fst sample_settings)" "\<forall>kv \<in> set sample_settings. bare_key (fst kv) \<and> scalar_ok (snd kv)" by code_simp+
  then show ?thesis using toml_print_parse [of sample_settings] by simp
qed

end
