(* ===== verification/Stns_Config.thy ===== *)
theory Stns_Config
  imports Stns_Cache Toml_Print "HOL-Library.Multiset"
begin

text \<open>
  The configuration of the client: reading the file (\<^verbatim>\<open>toml_parse_file\<close>), the macros \<^verbatim>\<open>GET_TOML_BYKEY\<close>, \<^verbatim>\<open>GET_TOML_BY_TABLE_KEY\<close>
  and \<^verbatim>\<open>TRIM_SLASH\<close>, \<^verbatim>\<open>stns_load_config\<close> and \<^verbatim>\<open>stns_unload_config\<close>.

  Every caller of \<^verbatim>\<open>stns_load_config\<close> passes a variable on its stack that was never initialised, and a value that does not
  convert leaves its field untouched. So the loader fills an image of the structure: the fields by their names, where a field
  that was never written has no value. \<open>conf_of\<close> reads the image as a configuration when every field was written and the
  strings that are used without a test are no null pointers; otherwise the outcome is \<open>Undefined\<close>, because the
  code goes on to read or to free an indeterminate value.
\<close>

section \<open>Reading the file\<close>

text \<open>What \<^verbatim>\<open>fopen\<close> gives: the bytes of the file, and the number of the call of \<^verbatim>\<open>fread\<close> that fails, if one does.\<close>

record conf_file =
  f_bytes :: string
  f_fails :: "nat option"

text \<open>The loop of \<^verbatim>\<open>toml_parse_file\<close>: \<open>k\<close> calls were made; \<open>buf\<close> holds the bytes read, \<open>rest\<close> those to come, \<open>room\<close> is
  \<^verbatim>\<open>bufsz - off\<close>. The end-of-file mark is set by a call that gets less than it asked for.\<close>

function read_file :: "nat option \<Rightarrow> nat \<Rightarrow> nat \<Rightarrow> string \<Rightarrow> string \<Rightarrow> bool \<Rightarrow> string option" where
  "read_file fails k room buf rest feof =
     (if feof then Some buf
      else
        let want = room + 1000; chunk = take want rest in
        if fails = Some k then None
        else read_file fails (k + 1) (want - length chunk) (buf @ chunk) (drop want rest) (length rest < want))"
  by pat_completeness auto
termination
  by (relation "measure (\<lambda>(fails, k, room, buf, rest, feof). if feof then 0 else Suc (length rest))") auto

declare read_file.simps [simp del]

definition toml_parse_file :: "nat \<Rightarrow> conf_file \<Rightarrow> toml_table tres" where
  "toml_parse_file fuel fp =
     (case read_file (f_fails fp) 0 1000 [] (f_bytes fp) False of
        None \<Rightarrow> TErr E_internal
      | Some buf \<Rightarrow> toml_parse fuel buf)"

section \<open>The image of the structure\<close>

datatype cval = Str "string option" | Num i32

type_synonym conf_image = "string \<Rightarrow> cval option"

definition as_str :: "string option \<Rightarrow> cval rt_result" where
  "as_str raw = map_prod id (map_option Str) (toml_rtos raw)"

definition as_int :: "string option \<Rightarrow> cval rt_result" where
  "as_int raw = map_prod id (map_option Num) (toml_rtoi raw)"

definition as_bool :: "string option \<Rightarrow> cval rt_result" where
  "as_bool raw = map_prod id (map_option (\<lambda>b. Num (of_bool b))) (toml_rtob raw)"

definition store_field :: "string \<Rightarrow> cval rt_result \<Rightarrow> conf_image \<Rightarrow> conf_image" where
  "store_field m r c = (case snd r of Some v \<Rightarrow> c(m \<mapsto> v) | None \<Rightarrow> c)"

definition GET_TOML_BYKEY ::
  "toml_table \<Rightarrow> string \<Rightarrow> (string option \<Rightarrow> cval rt_result) \<Rightarrow> cval \<Rightarrow> conf_image \<Rightarrow> conf_image" where
  "GET_TOML_BYKEY tab m method dflt c =
     (case toml_raw_in tab m of Some raw \<Rightarrow> store_field m (method (Some raw)) c | None \<Rightarrow> c(m \<mapsto> dflt))"

definition GET_TOML_BY_TABLE_KEY ::
  "toml_table \<Rightarrow> string \<Rightarrow> string \<Rightarrow> (string option \<Rightarrow> cval rt_result) \<Rightarrow> cval \<Rightarrow> conf_image \<Rightarrow> conf_image" where
  "GET_TOML_BY_TABLE_KEY tab t m method dflt c =
     (case toml_table_in tab t of
        Some in_tab \<Rightarrow>
          (case toml_raw_in in_tab m of
             Some raw \<Rightarrow> store_field (t @ ''_'' @ m) (method (Some raw)) c
           | None \<Rightarrow> c(t @ ''_'' @ m \<mapsto> dflt))
      | None \<Rightarrow> c(t @ ''_'' @ m \<mapsto> dflt))"

text \<open>The fields of type \<^verbatim>\<open>long\<close> go through an initialised variable of type \<^verbatim>\<open>int\<close>.\<close>

definition get_long :: "toml_table \<Rightarrow> string \<Rightarrow> (string option \<Rightarrow> cval rt_result) \<Rightarrow> i32 \<Rightarrow> conf_image \<Rightarrow> conf_image" where
  "get_long tab m method dflt c =
     c(m \<mapsto> (case toml_raw_in tab m of
              None \<Rightarrow> Num dflt
            | Some raw \<Rightarrow> (case snd (method (Some raw)) of Some v \<Rightarrow> v | None \<Rightarrow> Num dflt)))"

definition trim_slash :: "string \<Rightarrow> string" where
  "trim_slash s =
     (let n = strnlen s STNS_MAX_BUFFER_SIZE in
      if n > 0 \<and> s ! (n - 1) = CHR ''/'' then take (n - 1) s else s)"

definition TRIM_SLASH :: "string \<Rightarrow> conf_image \<Rightarrow> conf_image" where
  "TRIM_SLASH key c = (case c key of Some (Str (Some s)) \<Rightarrow> c(key \<mapsto> Str (Some (trim_slash s))) | _ \<Rightarrow> c)"

definition load_fields :: "toml_table \<Rightarrow> conf_image" where
  "load_fields tab =
     fold (\<lambda>set c. set c)
       [GET_TOML_BYKEY tab ''api_endpoint'' as_str (Str (Some ''http://localhost:1104/v1'')),
        GET_TOML_BYKEY tab ''cache_dir'' as_str (Str (Some ''/var/cache/stns'')),
        GET_TOML_BYKEY tab ''auth_token'' as_str (Str None),
        GET_TOML_BYKEY tab ''user'' as_str (Str None),
        GET_TOML_BYKEY tab ''password'' as_str (Str None),
        GET_TOML_BYKEY tab ''query_wrapper'' as_str (Str None),
        GET_TOML_BYKEY tab ''chain_ssh_wrapper'' as_str (Str None),
        GET_TOML_BYKEY tab ''use_cached'' as_bool (Num 0),
        GET_TOML_BYKEY tab ''http_proxy'' as_str (Str None),
        GET_TOML_BY_TABLE_KEY tab ''tls'' ''key'' as_str (Str None),
        GET_TOML_BY_TABLE_KEY tab ''tls'' ''cert'' as_str (Str None),
        GET_TOML_BY_TABLE_KEY tab ''tls'' ''ca'' as_str (Str None),
        GET_TOML_BY_TABLE_KEY tab ''cached'' ''enable'' as_bool (Num 0),
        GET_TOML_BY_TABLE_KEY tab ''cached'' ''unix_socket'' as_str (Str (Some ''/var/run/cache-stnsd.sock'')),
        GET_TOML_BYKEY tab ''uid_shift'' as_int (Num 0),
        GET_TOML_BYKEY tab ''gid_shift'' as_int (Num 0),
        GET_TOML_BYKEY tab ''cache_ttl'' as_int (Num 600),
        GET_TOML_BYKEY tab ''negative_cache_ttl'' as_int (Num 10),
        get_long tab ''ssl_verify'' as_bool 1,
        get_long tab ''request_timeout'' as_int 10,
        get_long tab ''http_location'' as_bool 0,
        GET_TOML_BYKEY tab ''cache'' as_bool (Num 1),
        GET_TOML_BYKEY tab ''request_retry'' as_int (Num 3),
        GET_TOML_BYKEY tab ''request_locktime'' as_int (Num 60),
        TRIM_SLASH ''api_endpoint'',
        TRIM_SLASH ''cache_dir'']
       Map.empty"

text \<open>The user's HTTP headers: keys with what \<^verbatim>\<open>toml_rtos\<close> wrote to \<^verbatim>\<open>value\<close>; \<open>room\<close> counts down to \<^verbatim>\<open>header_size > MAXBUF\<close>.\<close>

fun load_headers :: "nat \<Rightarrow> toml_table \<Rightarrow> nat \<Rightarrow> (string \<times> string option option) list" where
  "load_headers 0 in_tab header_size = []"
| "load_headers (Suc room) in_tab header_size =
     (case toml_key_in in_tab header_size of
        None \<Rightarrow> []
      | Some key \<Rightarrow>
          (case toml_raw_in in_tab key of
             None \<Rightarrow> []
           | Some raw \<Rightarrow> (key, snd (toml_rtos (Some raw))) # load_headers room in_tab (header_size + 1)))"

definition load_http_headers :: "toml_table \<Rightarrow> (string \<times> string option option) list option" where
  "load_http_headers tab = map_option (\<lambda>in_tab. load_headers (MAXBUF + 1) in_tab 0) (toml_table_in tab ''http_headers'')"

section \<open>The configuration\<close>

definition str_at :: "conf_image \<Rightarrow> string \<Rightarrow> string option" where
  "str_at c m = (case c m of Some (Str s) \<Rightarrow> s | _ \<Rightarrow> None)"

definition num_at :: "conf_image \<Rightarrow> string \<Rightarrow> i32" where
  "num_at c m = (case c m of Some (Num i) \<Rightarrow> i | _ \<Rightarrow> 0)"

definition conf_fields :: "string list" where
  "conf_fields =
     [''api_endpoint'', ''auth_token'', ''user'', ''password'', ''query_wrapper'', ''chain_ssh_wrapper'', ''http_proxy'',
      ''http_location'', ''cache_dir'', ''tls_cert'', ''tls_key'', ''tls_ca'', ''cached_enable'', ''cached_unix_socket'',
      ''uid_shift'', ''gid_shift'', ''ssl_verify'', ''use_cached'', ''request_timeout'', ''request_retry'',
      ''request_locktime'', ''cache'', ''cache_ttl'', ''negative_cache_ttl'']"

definition conf_defined :: "conf_image \<Rightarrow> (string \<times> string option option) list option \<Rightarrow> bool" where
  "conf_defined c hs \<longleftrightarrow>
     list_all (\<lambda>m. c m \<noteq> None) conf_fields \<and>
     list_all (\<lambda>m. str_at c m \<noteq> None) [''api_endpoint'', ''cache_dir'', ''cached_unix_socket''] \<and>
     list_all (\<lambda>h. Option.is_none (Option.bind (snd h) id) = False) (case hs of Some l \<Rightarrow> l | None \<Rightarrow> [])"

definition conf_of :: "conf_image \<Rightarrow> (string \<times> string option option) list option \<Rightarrow> stns_conf option" where
  "conf_of c hs =
     (if conf_defined c hs then
        Some \<lparr>api_endpoint = the (str_at c ''api_endpoint''), auth_token = str_at c ''auth_token'', user = str_at c ''user'',
              password = str_at c ''password'', query_wrapper = str_at c ''query_wrapper'',
              chain_ssh_wrapper = str_at c ''chain_ssh_wrapper'', http_proxy = str_at c ''http_proxy'',
              http_location = sint (num_at c ''http_location''), cache_dir = the (str_at c ''cache_dir''),
              tls_cert = str_at c ''tls_cert'', tls_key = str_at c ''tls_key'', tls_ca = str_at c ''tls_ca'',
              cached_enable = num_at c ''cached_enable'' \<noteq> 0,
              cached_unix_socket = the (str_at c ''cached_unix_socket''),
              http_headers = map_option (map (\<lambda>(k, v). \<lparr>hdr_key = k, hdr_value = the (the v)\<rparr>)) hs,
              uid_shift = num_at c ''uid_shift'', gid_shift = num_at c ''gid_shift'',
              ssl_verify = sint (num_at c ''ssl_verify''), use_cached = num_at c ''use_cached'' \<noteq> 0,
              request_timeout = sint (num_at c ''request_timeout''), request_retry = num_at c ''request_retry'',
              request_locktime = num_at c ''request_locktime'', cache = num_at c ''cache'' \<noteq> 0,
              cache_ttl = num_at c ''cache_ttl'', negative_cache_ttl = num_at c ''negative_cache_ttl''\<rparr>
      else None)"

text \<open>The outcomes of \<^verbatim>\<open>stns_load_config\<close>: it does not return, it returns one, it leaves indeterminate fields, or it returns zero.\<close>

datatype load_result = Hangs | Fails | Undefined | Loaded stns_conf os

definition stns_load_config :: "nat \<Rightarrow> conf_file option \<Rightarrow> os \<Rightarrow> load_result" where
  "stns_load_config fuel file w =
     (case file of
        None \<Rightarrow> Fails
      | Some fp \<Rightarrow>
          (case toml_parse_file fuel fp of
             TOut \<Rightarrow> Hangs
           | TErr e \<Rightarrow> Fails
           | TOk tab \<Rightarrow>
               (case conf_of (load_fields tab) (load_http_headers tab) of
                  None \<Rightarrow> Undefined
                | Some c \<Rightarrow>
                    Loaded (if use_cached c then c\<lparr>cached_enable := True\<rparr> else c) (stns_force_create_cache_dir c w))))"

section \<open>Releasing it\<close>

text \<open>The blocks of memory a configuration owns, and those \<^verbatim>\<open>stns_unload_config\<close> frees, in its order\<close>

datatype block = Field string | Header_value nat | Header_key nat | Header_array | Headers

definition field_block :: "string \<Rightarrow> string option \<Rightarrow> block list" where
  "field_block m v = (case v of None \<Rightarrow> [] | Some _ \<Rightarrow> [Field m])"

definition field_blocks :: "stns_conf \<Rightarrow> block list" where
  "field_blocks c =
     field_block ''api_endpoint'' (Some (api_endpoint c)) @ field_block ''cache_dir'' (Some (cache_dir c)) @
     field_block ''auth_token'' (auth_token c) @ field_block ''user'' (user c) @ field_block ''password'' (password c) @
     field_block ''query_wrapper'' (query_wrapper c) @ field_block ''chain_ssh_wrapper'' (chain_ssh_wrapper c) @
     field_block ''http_proxy'' (http_proxy c) @ field_block ''tls_cert'' (tls_cert c) @ field_block ''tls_key'' (tls_key c) @
     field_block ''tls_ca'' (tls_ca c) @ field_block ''cached_unix_socket'' (Some (cached_unix_socket c))"

definition stns_unload_config :: "stns_conf \<Rightarrow> block list" where
  "stns_unload_config c =
     field_blocks c @
     (case http_headers c of
        None \<Rightarrow> []
      | Some hs \<Rightarrow> concat (map (\<lambda>i. [Header_value i, Header_key i, Header_array]) [0..<length hs]) @ [Headers])"

definition owned_blocks :: "stns_conf \<Rightarrow> block list" where
  "owned_blocks c =
     field_blocks c @
     (case http_headers c of
        None \<Rightarrow> []
      | Some hs \<Rightarrow> concat (map (\<lambda>i. [Header_value i, Header_key i]) [0..<length hs]) @ (if hs = [] then [] else [Header_array]) @ [Headers])"

section \<open>Settings\<close>

text \<open>What the keys of the top level stand for, and the configuration a list of settings describes\<close>

definition text_keys :: "string list" where
  "text_keys = [''api_endpoint'', ''cache_dir'', ''auth_token'', ''user'', ''password'', ''query_wrapper'', ''chain_ssh_wrapper'', ''http_proxy'']"

definition int_keys :: "string list" where
  "int_keys = [''uid_shift'', ''gid_shift'', ''cache_ttl'', ''negative_cache_ttl'', ''request_timeout'', ''request_retry'', ''request_locktime'']"

definition bool_keys :: "string list" where
  "bool_keys = [''use_cached'', ''ssl_verify'', ''http_location'', ''cache'']"

fun well_typed :: "string \<times> scalar \<Rightarrow> bool" where
  "well_typed (k, TStr s) \<longleftrightarrow> k \<notin> set int_keys \<and> k \<notin> set bool_keys"
| "well_typed (k, TInt i) \<longleftrightarrow> k \<notin> set text_keys \<and> k \<notin> set bool_keys"
| "well_typed (k, TBool b) \<longleftrightarrow> k \<notin> set text_keys \<and> k \<notin> set int_keys"

definition text_setting :: "(string \<times> scalar) list \<Rightarrow> string \<Rightarrow> string option \<Rightarrow> string option" where
  "text_setting kvs m d = (case map_of kvs m of Some (TStr s) \<Rightarrow> Some s | _ \<Rightarrow> d)"

definition int_setting :: "(string \<times> scalar) list \<Rightarrow> string \<Rightarrow> i32 \<Rightarrow> i32" where
  "int_setting kvs m d = (case map_of kvs m of Some (TInt i) \<Rightarrow> word_of_int i | _ \<Rightarrow> d)"

definition bool_setting :: "(string \<times> scalar) list \<Rightarrow> string \<Rightarrow> bool \<Rightarrow> bool" where
  "bool_setting kvs m d = (case map_of kvs m of Some (TBool b) \<Rightarrow> b | _ \<Rightarrow> d)"

definition settings_conf :: "(string \<times> scalar) list \<Rightarrow> stns_conf" where
  "settings_conf kvs =
     default_conf
       \<lparr>api_endpoint := trim_slash (the (text_setting kvs ''api_endpoint'' (Some ''http://localhost:1104/v1''))),
        cache_dir := trim_slash (the (text_setting kvs ''cache_dir'' (Some ''/var/cache/stns''))),
        auth_token := text_setting kvs ''auth_token'' None, user := text_setting kvs ''user'' None,
        password := text_setting kvs ''password'' None, query_wrapper := text_setting kvs ''query_wrapper'' None,
        chain_ssh_wrapper := text_setting kvs ''chain_ssh_wrapper'' None, http_proxy := text_setting kvs ''http_proxy'' None,
        uid_shift := int_setting kvs ''uid_shift'' 0, gid_shift := int_setting kvs ''gid_shift'' 0,
        cache_ttl := int_setting kvs ''cache_ttl'' 600, negative_cache_ttl := int_setting kvs ''negative_cache_ttl'' 10,
        request_timeout := sint (int_setting kvs ''request_timeout'' 10), request_retry := int_setting kvs ''request_retry'' 3,
        request_locktime := int_setting kvs ''request_locktime'' 60,
        use_cached := bool_setting kvs ''use_cached'' False, ssl_verify := of_bool (bool_setting kvs ''ssl_verify'' True),
        http_location := of_bool (bool_setting kvs ''http_location'' False), cache := bool_setting kvs ''cache'' True\<rparr>"

section \<open>The loader reads the settings\<close>

lemma read_file_all: "read_file None k room buf rest False = Some (buf @ rest)"
proof (induction "length rest" arbitrary: k room buf rest rule: less_induct)
  case less
  show ?case
  proof (cases "length rest < room + 1000")
    case True
    then show ?thesis by (simp add: read_file.simps [of _ _ _ _ _ False] read_file.simps [of _ _ _ _ _ True])
  next
    case False
    have "read_file None k room buf rest False =
      read_file None (k + 1) 0 (buf @ take (room + 1000) rest) (drop (room + 1000) rest) False"
      using False by (subst read_file.simps) (simp add: Let_def)
    also have "\<dots> = Some ((buf @ take (room + 1000) rest) @ drop (room + 1000) rest)"
      using False by (intro less.hyps) simp
    finally show ?thesis by simp
  qed
qed

lemma raw_in_settings:
  "toml_raw_in (Table key imp (toml_entries kvs) as ts) m = map_option scalar_text (map_of kvs m)"
  by (induction kvs) (auto simp: toml_raw_in_def toml_entries_def)

definition settings_ok :: "(string \<times> scalar) list \<Rightarrow> bool" where
  "settings_ok kvs \<longleftrightarrow> distinct (map fst kvs) \<and> list_all (\<lambda>kv. bare_key (fst kv) \<and> scalar_ok (snd kv) \<and> well_typed kv) kvs"

lemma settings_ok_at: "settings_ok kvs \<Longrightarrow> map_of kvs m = Some v \<Longrightarrow> scalar_ok v \<and> well_typed (m, v)"
  by (auto simp: settings_ok_def list_all_iff dest!: map_of_SomeD)

definition settings_table :: "(string \<times> scalar) list \<Rightarrow> toml_table" where
  "settings_table kvs = Table None False (toml_entries kvs) [] []"

lemma get_text:
  assumes "settings_ok kvs" "m \<in> set text_keys"
  shows "GET_TOML_BYKEY (settings_table kvs) m as_str (Str d) c = c(m \<mapsto> Str (text_setting kvs m d))"
proof (cases "map_of kvs m")
  case (Some v)
  with settings_ok_at [OF assms(1) Some] assms(2) obtain s where "v = TStr s" by (cases v) auto
  with Some show ?thesis
    by (simp add: GET_TOML_BYKEY_def settings_table_def raw_in_settings text_setting_def as_str_def store_field_def toml_rtos_quote)
qed (simp add: GET_TOML_BYKEY_def settings_table_def raw_in_settings text_setting_def)

lemma get_int:
  assumes "settings_ok kvs" "m \<in> set int_keys"
  shows "GET_TOML_BYKEY (settings_table kvs) m as_int (Num d) c = c(m \<mapsto> Num (int_setting kvs m d))"
    and "get_long (settings_table kvs) m as_int d c = c(m \<mapsto> Num (int_setting kvs m d))"
proof -
  have "map_of kvs m = None \<or> (\<exists>i. map_of kvs m = Some (TInt i) \<and> scalar_ok (TInt i))"
  proof (cases "map_of kvs m")
    case (Some v)
    with settings_ok_at [OF assms(1) Some] assms(2) show ?thesis by (cases v) auto
  qed simp
  then show "GET_TOML_BYKEY (settings_table kvs) m as_int (Num d) c = c(m \<mapsto> Num (int_setting kvs m d))"
    "get_long (settings_table kvs) m as_int d c = c(m \<mapsto> Num (int_setting kvs m d))"
    by (auto simp: GET_TOML_BYKEY_def get_long_def settings_table_def raw_in_settings int_setting_def as_int_def store_field_def toml_rtoi_show_int)
qed

lemma get_bool:
  assumes "settings_ok kvs" "m \<in> set bool_keys"
  shows "GET_TOML_BYKEY (settings_table kvs) m as_bool (Num (of_bool d)) c = c(m \<mapsto> Num (of_bool (bool_setting kvs m d)))"
    and "get_long (settings_table kvs) m as_bool (of_bool d) c = c(m \<mapsto> Num (of_bool (bool_setting kvs m d)))"
proof -
  have "map_of kvs m = None \<or> (\<exists>b. map_of kvs m = Some (TBool b))"
  proof (cases "map_of kvs m")
    case (Some v)
    with settings_ok_at [OF assms(1) Some] assms(2) show ?thesis by (cases v) auto
  qed simp
  then show "GET_TOML_BYKEY (settings_table kvs) m as_bool (Num (of_bool d)) c = c(m \<mapsto> Num (of_bool (bool_setting kvs m d)))"
    "get_long (settings_table kvs) m as_bool (of_bool d) c = c(m \<mapsto> Num (of_bool (bool_setting kvs m d)))"
    by (auto simp: GET_TOML_BYKEY_def get_long_def settings_table_def raw_in_settings bool_setting_def as_bool_def store_field_def toml_rtob_def)
qed

lemma get_table_default: "GET_TOML_BY_TABLE_KEY (settings_table kvs) t m method d c = c(t @ ''_'' @ m \<mapsto> d)"
  by (simp add: GET_TOML_BY_TABLE_KEY_def settings_table_def toml_table_in_def)

lemma TRIM_SLASH_setting:
  assumes "c m = Some (Str (text_setting kvs m (Some d)))"
  shows "TRIM_SLASH m c = c(m \<mapsto> Str (Some (trim_slash (the (text_setting kvs m (Some d))))))"
  using assms by (auto simp: TRIM_SLASH_def text_setting_def split: option.splits scalar.splits)

lemma load_fields_settings:
  assumes "settings_ok kvs"
  shows "load_fields (settings_table kvs) =
    [''api_endpoint'' \<mapsto> Str (Some (api_endpoint (settings_conf kvs))), ''cache_dir'' \<mapsto> Str (Some (cache_dir (settings_conf kvs))),
     ''auth_token'' \<mapsto> Str (auth_token (settings_conf kvs)), ''user'' \<mapsto> Str (user (settings_conf kvs)),
     ''password'' \<mapsto> Str (password (settings_conf kvs)), ''query_wrapper'' \<mapsto> Str (query_wrapper (settings_conf kvs)),
     ''chain_ssh_wrapper'' \<mapsto> Str (chain_ssh_wrapper (settings_conf kvs)),
     ''use_cached'' \<mapsto> Num (of_bool (use_cached (settings_conf kvs))), ''http_proxy'' \<mapsto> Str (http_proxy (settings_conf kvs)),
     ''tls_key'' \<mapsto> Str None, ''tls_cert'' \<mapsto> Str None, ''tls_ca'' \<mapsto> Str None, ''cached_enable'' \<mapsto> Num 0,
     ''cached_unix_socket'' \<mapsto> Str (Some ''/var/run/cache-stnsd.sock''),
     ''uid_shift'' \<mapsto> Num (uid_shift (settings_conf kvs)), ''gid_shift'' \<mapsto> Num (gid_shift (settings_conf kvs)),
     ''cache_ttl'' \<mapsto> Num (cache_ttl (settings_conf kvs)), ''negative_cache_ttl'' \<mapsto> Num (negative_cache_ttl (settings_conf kvs)),
     ''ssl_verify'' \<mapsto> Num (of_bool (bool_setting kvs ''ssl_verify'' True)),
     ''request_timeout'' \<mapsto> Num (int_setting kvs ''request_timeout'' 10),
     ''http_location'' \<mapsto> Num (of_bool (bool_setting kvs ''http_location'' False)),
     ''cache'' \<mapsto> Num (of_bool (cache (settings_conf kvs))),
     ''request_retry'' \<mapsto> Num (request_retry (settings_conf kvs)), ''request_locktime'' \<mapsto> Num (request_locktime (settings_conf kvs))]"
proof -
  note tx = get_text [OF assms] and nu = get_int [OF assms]
  note bo = get_bool [OF assms, where d = True, simplified] get_bool [OF assms, where d = False, simplified]
  show ?thesis
    by (rule ext)
      (simp add: load_fields_def tx nu bo text_keys_def int_keys_def bool_keys_def get_table_default TRIM_SLASH_setting
         settings_conf_def)
qed

lemma conf_of_settings:
  assumes "settings_ok kvs"
  shows "conf_of (load_fields (settings_table kvs)) None = Some (settings_conf kvs)"
proof -
  let ?c = "load_fields (settings_table kvs)"
  have "conf_defined ?c None"
    unfolding conf_defined_def conf_fields_def load_fields_settings [OF assms] by (simp add: str_at_def)
  then show ?thesis
    unfolding conf_of_def
    by (simp add: str_at_def num_at_def load_fields_settings [OF assms]) (simp add: settings_conf_def default_conf_def)
qed

definition with_cached :: "stns_conf \<Rightarrow> stns_conf" where
  "with_cached c = (if use_cached c then c\<lparr>cached_enable := True\<rparr> else c)"

lemma load_settings_file:
  assumes "settings_ok kvs" "toml_fuel (toml_lines kvs) \<le> fuel"
  shows "stns_load_config fuel (Some \<lparr>f_bytes = toml_lines kvs, f_fails = None\<rparr>) w =
    Loaded (with_cached (settings_conf kvs)) (stns_force_create_cache_dir (settings_conf kvs) w)"
proof -
  have "distinct (map fst kvs)" "\<forall>kv \<in> set kvs. bare_key (fst kv) \<and> scalar_ok (snd kv)"
    using assms(1) by (auto simp: settings_ok_def list_all_iff)
  note parse = toml_parse_lines [OF this]
  have "toml_parse_file fuel \<lparr>f_bytes = toml_lines kvs, f_fails = None\<rparr> = TOk (settings_table kvs)"
    using parse toml_parse_enough [OF assms(2)] by (simp add: toml_parse_file_def read_file_all settings_table_def)
  moreover have "load_http_headers (settings_table kvs) = None"
    by (simp add: load_http_headers_def settings_table_def toml_table_in_def)
  ultimately show ?thesis
    using conf_of_settings [OF assms(1)] by (simp add: stns_load_config_def with_cached_def)
qed

section \<open>What is freed\<close>

lemma distinct_field_blocks: "Header_array \<notin> set (field_blocks c)"
  by (auto simp: field_blocks_def field_block_def split: option.splits)

lemma count_array: "count (mset (concat (map (\<lambda>i. [Header_value i, Header_key i, Header_array]) [0..<n]))) Header_array = n"
  by (induction n) auto

lemma mset_headers:
  "mset (concat (map (\<lambda>i. [Header_value i, Header_key i, Header_array]) [0..<n])) =
   mset (concat (map (\<lambda>i. [Header_value i, Header_key i]) [0..<n])) + replicate_mset n Header_array"
  by (induction n) auto

text \<open>Releasing a configuration frees every block it owns exactly once if and only if it has at most one HTTP header: the
  array of the headers is freed inside the loop, once per header.\<close>

theorem stns_unload_config_frees_once:
  "mset (stns_unload_config c) = mset (owned_blocks c) \<longleftrightarrow>
     (case http_headers c of None \<Rightarrow> True | Some hs \<Rightarrow> length hs \<le> 1)"
proof (cases "http_headers c")
  case (Some hs)
  have "mset (stns_unload_config c) = mset (owned_blocks c) \<longleftrightarrow>
    replicate_mset (length hs) Header_array = mset (if hs = [] then [] else [Header_array])"
    unfolding stns_unload_config_def owned_blocks_def by (simp add: Some mset_headers)
  also have "\<dots> \<longleftrightarrow> length hs \<le> 1"
    by (cases hs) (auto simp: replicate_mset_eq_empty_iff)
  finally show ?thesis by (simp add: Some)
qed (simp add: stns_unload_config_def owned_blocks_def)

text \<open>With two headers the array is freed twice.\<close>

lemma two_headers_double_free:
  "count_list (stns_unload_config (default_conf\<lparr>http_headers := Some [\<lparr>hdr_key = ''A'', hdr_value = ''1''\<rparr>, \<lparr>hdr_key = ''B'', hdr_value = ''2''\<rparr>]\<rparr>)) Header_array = 2"
  by code_simp

section \<open>Properties\<close>

text \<open>C13. The configuration is what the file says: for any list of settings with distinct keys and values of the kinds the client
  expects, written one per line, loading the file succeeds, every setting has its value, every field that is not set has its
  default, the slash at the end of the endpoint and of the cache directory is removed, and \<^verbatim>\<open>use_cached\<close> switches the daemon on.\<close>

theorem stns_load_config_settings:
  assumes "settings_ok kvs" "toml_fuel (toml_lines kvs) \<le> fuel"
  shows "stns_load_config fuel (Some \<lparr>f_bytes = toml_lines kvs, f_fails = None\<rparr>) w =
    Loaded (with_cached (settings_conf kvs)) (stns_force_create_cache_dir (settings_conf kvs) w)"
  using assms by (rule load_settings_file)

definition sample_config :: "(string \<times> scalar) list" where
  "sample_config = [(''api_endpoint'', TStr ''http://stns/v1/''), (''uid_shift'', TInt 1000), (''use_cached'', TBool True)]"

theorem stns_load_config_settings_witness:
  "\<exists>c w. stns_load_config 1000 (Some \<lparr>f_bytes = toml_lines sample_config, f_fails = None\<rparr>) sample_os = Loaded c w \<and>
    api_endpoint c = ''http://stns/v1'' \<and> uid_shift c = 1000 \<and> cached_enable c"
proof -
  have "settings_ok sample_config" "toml_fuel (toml_lines sample_config) \<le> 1000" by code_simp+
  note stns_load_config_settings [OF this, of sample_os]
  moreover have "api_endpoint (with_cached (settings_conf sample_config)) = ''http://stns/v1''"
    "uid_shift (with_cached (settings_conf sample_config)) = 1000" "cached_enable (with_cached (settings_conf sample_config))" by code_simp+
  ultimately show ?thesis by blast
qed

text \<open>C16. A settings file that sets a key twice is refused as a whole: when the file starts with lines \<^verbatim>\<open>key = scalar\<close> of different keys and
  goes on with one more such line for a key that is among them, loading it fails, whatever kind of scalar the second value is and whatever text
  follows. (Arrays and tables that are opened again by a header are another matter, see \<open>empty_array_reopened\<close> and \<open>implicit_table_replaced\<close>.)\<close>

theorem stns_load_config_duplicate:
  assumes "settings_ok kvs" "k \<in> fst ` set kvs" "scalar_ok v" "no_nul r"
    and "toml_fuel (toml_lines kvs @ toml_line (k, v) @ r) \<le> fuel"
  shows "stns_load_config fuel (Some \<lparr>f_bytes = toml_lines kvs @ toml_line (k, v) @ r, f_fails = None\<rparr>) w = Fails"
proof -
  have "distinct (map fst kvs)" "\<forall>kv \<in> set kvs. bare_key (fst kv) \<and> scalar_ok (snd kv)"
    using assms(1) by (auto simp: settings_ok_def list_all_iff)
  from toml_parse_duplicate [OF this assms(2-4)] toml_parse_enough [OF assms(5)]
  show ?thesis by (auto simp: stns_load_config_def toml_parse_file_def read_file_all)
qed

theorem stns_load_config_duplicate_witness:
  "stns_load_config 1000 (Some \<lparr>f_bytes = toml_lines sample_config @ toml_line (''uid_shift'', TBool True) @ ''[x'', f_fails = None\<rparr>) sample_os = Fails"
proof -
  have "settings_ok sample_config" "''uid_shift'' \<in> fst ` set sample_config" "scalar_ok (TBool True)" "no_nul ''[x''"
    "toml_fuel (toml_lines sample_config @ toml_line (''uid_shift'', TBool True) @ ''[x'') \<le> 1000" by code_simp+
  then show ?thesis by (rule stns_load_config_duplicate)
qed

text \<open>Not every double definition is refused. An empty array that was given as a value takes the tables of a later \<^verbatim>\<open>[[a]]\<close>, and a
  table that only \<^verbatim>\<open>[x.a.b]\<close> implied is filled by a later inline table of the same name.\<close>

definition reopened_array :: string where
  "reopened_array = ''a = []'' @ [LF] @ ''[[a]]'' @ [LF]"

definition replaced_table :: string where
  "replaced_table = ''[x.a.b]'' @ [LF] @ ''[x]'' @ [LF] @ ''a = {k = 1}'' @ [LF]"

lemma empty_array_reopened:
  "toml_parse 300 reopened_array = TOk (Table None False [] [Arr (Some ''a'') NUL (Tabs [Table (Some ''__anon__'') False [] [] []])] [])"
  "(case stns_load_config 300 (Some \<lparr>f_bytes = reopened_array, f_fails = None\<rparr>) sample_os of Loaded c w \<Rightarrow> True | _ \<Rightarrow> False)"
  by code_simp+

lemma implicit_table_replaced:
  "toml_parse 300 replaced_table = TOk (Table None False [] [] [Table (Some ''x'') False [] []
     [Table (Some ''a'') False [(''k'', ''1'')] [] [Table (Some ''b'') False [] [] []]]])"
  "(case stns_load_config 300 (Some \<lparr>f_bytes = replaced_table, f_fails = None\<rparr>) sample_os of Loaded c w \<Rightarrow> True | _ \<Rightarrow> False)"
  by code_simp+

text \<open>A text without quotes leaves its pointer unwritten, an open array makes the loader hang.\<close>

lemma unquoted_text_undefined:
  "stns_load_config 100 (Some \<lparr>f_bytes = toml_line (''user'', TInt 5), f_fails = None\<rparr>) sample_os = Undefined"
proof -
  let ?tab = "Table None False [(''user'', ''5'')] [] []"
  have "toml_parse 100 (toml_line (''user'', TInt 5)) = TOk ?tab" by code_simp
  moreover have "\<not> conf_defined (load_fields ?tab) (load_http_headers ?tab)" by code_simp
  ultimately show ?thesis by (simp add: stns_load_config_def toml_parse_file_def read_file_all conf_of_def)
qed

lemma open_array_hangs: "stns_load_config fuel (Some \<lparr>f_bytes = ''a = ['', f_fails = None\<rparr>) w = Hangs"
  using toml_parse_open_array_hangs [of fuel] by (simp add: stns_load_config_def toml_parse_file_def read_file_all)

end
