(* ===== verification/Stns_Entry.thy ===== *)
theory Stns_Entry
  imports Stns_Lookup Stns_Config
begin

text \<open>
  The functions the name service switch calls: \<^verbatim>\<open>STNS_GET_SINGLE_VALUE_METHOD\<close> and \<^verbatim>\<open>STNS_SET_ENTRIES\<close> of \<^verbatim>\<open>stns.h\<close> with their
  instances in \<^verbatim>\<open>stns_passwd.c\<close>, \<^verbatim>\<open>stns_group.c\<close> and \<^verbatim>\<open>stns_shadow.c\<close>. (The names of the C functions start with an underscore.)

  A call reads the configuration file anew. Besides the services of \<^verbatim>\<open>Stns_Request\<close>, the surroundings \<open>env\<close> give the file, the
  fuel of its parser, what a fresh allocation holds and which attempts of the call to lock the mutex of the
  enumeration find it held by another thread. The mutexes are not recursive: a lock the thread holds itself is busy, too.

  \<open>Stuck\<close> is a call that does not return, \<open>Undef\<close> one with undefined behaviour (an indeterminate field, a block freed twice) and
  \<open>Crash\<close> a null pointer that is dereferenced.
\<close>

section \<open>Surroundings and state\<close>

record env =
  e_sv :: services
  e_fuel :: nat
  e_file :: "conf_file option"
  e_junk :: string
  e_busy :: "nat \<Rightarrow> bool"

datatype 'a run = Stuck | Undef | Crash | Done 'a

fun rbind :: "'a run \<Rightarrow> ('a \<Rightarrow> 'b run) \<Rightarrow> 'b run" where
  "rbind (Done x) f = f x"
| "rbind Stuck f = Stuck"
| "rbind Undef f = Undef"
| "rbind Crash f = Crash"

definition run_of :: "'a outcome \<Rightarrow> 'a run" where
  "run_of x = (case x of Segv \<Rightarrow> Crash | Ret y \<Rightarrow> Done y)"

definition load_config :: "env \<Rightarrow> client \<Rightarrow> (stns_conf option \<times> client) run" where
  "load_config e cl =
     (case stns_load_config (e_fuel e) (e_file e) (sys cl) of
        Hangs \<Rightarrow> Stuck
      | Fails \<Rightarrow> Done (None, cl)
      | Undefined \<Rightarrow> Undef
      | Loaded c w \<Rightarrow> Done (Some c, cl\<lparr>sys := w\<rparr>))"

definition unload_config :: "stns_conf \<Rightarrow> 'a \<Rightarrow> 'a run" where
  "unload_config c x = (if distinct (stns_unload_config c) then Done x else Undef)"

definition fresh_response :: "env \<Rightarrow> stns_response" where
  "fresh_response e = \<lparr>res_data = e_junk e, res_capacity = STNS_DEFAULT_BUFFER_SIZE, res_size = 0, res_status_code = 0\<rparr>"

definition request_failure :: "stns_response \<Rightarrow> nss_status" where
  "request_failure r = (if res_status_code r = STNS_HTTP_NOTFOUND then NSS_STATUS_NOTFOUND else NSS_STATUS_UNAVAIL)"

section \<open>Single entries\<close>

text \<open>\<^verbatim>\<open>STNS_GET_SINGLE_VALUE_METHOD\<close>: \<open>available\<close> is the macro \<^verbatim>\<open>query_available\<close>, \<open>url\<close> the formatted path and \<open>ensure\<close> the lookup in the body.\<close>

definition STNS_GET_SINGLE_VALUE_METHOD ::
  "(client \<Rightarrow> bool) \<Rightarrow> (stns_conf \<Rightarrow> string) \<Rightarrow>
    (string \<Rightarrow> stns_conf \<Rightarrow> ents \<times> 'r caller \<Rightarrow> (nss_status \<times> ents \<times> 'r caller) outcome) \<Rightarrow>
    env \<Rightarrow> client \<times> ents \<times> 'r caller \<Rightarrow> (nss_status \<times> client \<times> ents \<times> 'r caller) run" where
  "STNS_GET_SINGLE_VALUE_METHOD available url ensure e s =
     (case s of (cl, en, st) \<Rightarrow>
        rbind (load_config e cl) (\<lambda>(conf, cl1).
          case conf of
            None \<Rightarrow> Done (NSS_STATUS_UNAVAIL, cl1, en, st)
          | Some c \<Rightarrow>
              if \<not> available cl1 then Done (NSS_STATUS_NOTFOUND, cl1, en, st)
              else
                rbind (run_of (stns_request (e_sv e) c (Some (snprintf_str MAXBUF (url c))) (fresh_response e) cl1))
                  (\<lambda>(curl_result, r, cl2).
                    if curl_result \<noteq> CURLE_OK then unload_config c (request_failure r, cl2, en, st)
                    else rbind (run_of (ensure (res_data r) c (en, st))) (\<lambda>(result, en1, st1).
                      unload_config c (result, cl2, en1, st1)))))"

definition name_available :: "(string option \<Rightarrow> int) \<Rightarrow> string \<Rightarrow> client \<Rightarrow> bool" where
  "name_available check name cl \<longleftrightarrow> check (Some name) = 0"

text \<open>\<^verbatim>\<open>"users?id=%d", uid - (c.uid_shift)\<close>\<close>

definition id_url :: "string \<Rightarrow> u32 \<Rightarrow> i32 \<Rightarrow> string" where
  "id_url prefix key shift = prefix @ show_int (sint (key - shift))"

definition nss_stns_getpwnam_r :: "string \<Rightarrow> env \<Rightarrow> client \<times> ents \<times> passwd caller \<Rightarrow> (nss_status \<times> client \<times> ents \<times> passwd caller) run" where
  "nss_stns_getpwnam_r name =
     STNS_GET_SINGLE_VALUE_METHOD (name_available is_valid_username name) (\<lambda>c. ''users?name='' @ cstr name)
       (\<lambda>data c. ensure_passwd_by_name data c name)"

definition nss_stns_getpwuid_r :: "u32 \<Rightarrow> env \<Rightarrow> client \<times> ents \<times> passwd caller \<Rightarrow> (nss_status \<times> client \<times> ents \<times> passwd caller) run" where
  "nss_stns_getpwuid_r uid e =
     STNS_GET_SINGLE_VALUE_METHOD (\<lambda>cl. USER_ID_QUERY_AVAILABLE (id_mutex_busy (e_sv e)) (bounds cl) uid)
       (\<lambda>c. id_url ''users?id='' uid (uid_shift c)) (\<lambda>data c. ensure_passwd_by_uid data c uid) e"

definition nss_stns_getgrnam_r :: "string \<Rightarrow> env \<Rightarrow> client \<times> ents \<times> group caller \<Rightarrow> (nss_status \<times> client \<times> ents \<times> group caller) run" where
  "nss_stns_getgrnam_r name =
     STNS_GET_SINGLE_VALUE_METHOD (name_available is_valid_groupname name) (\<lambda>c. ''groups?name='' @ cstr name)
       (\<lambda>data c. ensure_group_by_name data c name)"

definition nss_stns_getgrgid_r :: "u32 \<Rightarrow> env \<Rightarrow> client \<times> ents \<times> group caller \<Rightarrow> (nss_status \<times> client \<times> ents \<times> group caller) run" where
  "nss_stns_getgrgid_r gid e =
     STNS_GET_SINGLE_VALUE_METHOD (\<lambda>cl. GROUP_ID_QUERY_AVAILABLE (id_mutex_busy (e_sv e)) (bounds cl) gid)
       (\<lambda>c. id_url ''groups?id='' gid (gid_shift c)) (\<lambda>data c. ensure_group_by_gid data c gid) e"

definition nss_stns_getspnam_r :: "string \<Rightarrow> env \<Rightarrow> client \<times> ents \<times> spwd caller \<Rightarrow> (nss_status \<times> client \<times> ents \<times> spwd caller) run" where
  "nss_stns_getspnam_r name =
     STNS_GET_SINGLE_VALUE_METHOD (name_available is_valid_username name) (\<lambda>c. ''users?name='' @ cstr name)
       (\<lambda>data c. ensure_spwd_by_name data c name)"

definition nss_stns_getspuid_r :: "u32 \<Rightarrow> env \<Rightarrow> client \<times> ents \<times> spwd caller \<Rightarrow> (nss_status \<times> client \<times> ents \<times> spwd caller) run" where
  "nss_stns_getspuid_r uid =
     STNS_GET_SINGLE_VALUE_METHOD (\<lambda>cl. True) (\<lambda>c. id_url ''users?id='' uid (uid_shift c))
       (\<lambda>data c. ensure_spwd_by_uid data c uid)"

section \<open>Enumeration\<close>

text \<open>Locking the mutex of the enumeration: \<open>None\<close> when it stays busy.\<close>

definition ent_lock :: "env \<Rightarrow> ents \<Rightarrow> ents option" where
  "ent_lock e en =
     (if fst (pthread_mutex_retrylock (\<lambda>i. held en \<or> e_busy e i)) \<noteq> 0 then None else Some (en\<lparr>held := True\<rparr>))"

definition reset_ents :: "ents \<Rightarrow> ents" where
  "reset_ents en = en\<lparr>entry_idx := 0, entries := None\<rparr>"

definition inner_nss_stns_setent :: "env \<Rightarrow> string \<Rightarrow> ents \<Rightarrow> nss_status \<times> ents" where
  "inner_nss_stns_setent e data en =
     (case ent_lock e en of
        None \<Rightarrow> (NSS_STATUS_UNAVAIL, en)
      | Some en1 \<Rightarrow>
          let en2 = reset_ents en1 in
          (case json_parse_string (Some data) of
             None \<Rightarrow> (NSS_STATUS_UNAVAIL, pthread_mutex_unlock en2)
           | Some doc \<Rightarrow> (NSS_STATUS_SUCCESS, pthread_mutex_unlock (en2\<lparr>entries := Some doc\<rparr>))))"

definition nss_stns_setent :: "string \<Rightarrow> env \<Rightarrow> client \<times> ents \<Rightarrow> (nss_status \<times> client \<times> ents) run" where
  "nss_stns_setent query e s =
     (case s of (cl, en) \<Rightarrow>
        rbind (load_config e cl) (\<lambda>(conf, cl1).
          case conf of
            None \<Rightarrow> Done (NSS_STATUS_UNAVAIL, cl1, en)
          | Some c \<Rightarrow>
              rbind (run_of (stns_request (e_sv e) c (Some query) (fresh_response e) cl1)) (\<lambda>(curl_result, r, cl2).
                if curl_result \<noteq> CURLE_OK then unload_config c (request_failure r, cl2, en)
                else
                  let (result, en1) = inner_nss_stns_setent e (res_data r) en
                  in unload_config c (result, cl2, en1))))"

definition nss_stns_endent :: "env \<Rightarrow> ents \<Rightarrow> nss_status \<times> ents" where
  "nss_stns_endent e en =
     (case ent_lock e en of
        None \<Rightarrow> (NSS_STATUS_UNAVAIL, en)
      | Some en1 \<Rightarrow> (NSS_STATUS_SUCCESS, pthread_mutex_unlock (reset_ents en1)))"

text \<open>\<open>array_entries\<close> keeps what it was read as: it is not read again after the call of \<^verbatim>\<open>setXXent\<close>.\<close>

definition inner_nss_stns_getent_r ::
  "string \<Rightarrow> (json_value json_object option \<Rightarrow> ents \<times> 'r caller \<Rightarrow> nss_status \<times> ents \<times> 'r caller) \<Rightarrow>
    env \<Rightarrow> client \<times> ents \<times> 'r caller \<Rightarrow> (nss_status \<times> client \<times> ents \<times> 'r caller) run" where
  "inner_nss_stns_getent_r query write_entry e s =
     (case s of (cl, en, st) \<Rightarrow>
        let array_entries = json_value_get_array (entries en) in
        rbind (if array_entries = None then nss_stns_setent query e (cl, en) else Done (NSS_STATUS_SUCCESS, cl, en))
          (\<lambda>(ret, cl1, en1).
            if ret \<noteq> NSS_STATUS_SUCCESS then Done (ret, cl1, en1, st)
            else if entry_idx en1 \<ge> json_array_get_count array_entries
            then Done (NSS_STATUS_NOTFOUND, cl1, en1, st\<lparr>errnop := ENOENT\<rparr>)
            else
              (case write_entry (json_array_get_object array_entries (entry_idx en1)) (en1, st) of
                 (status, en2, st2) \<Rightarrow>
                   if status = NSS_STATUS_SUCCESS then Done (status, cl1, en2\<lparr>entry_idx := Suc (entry_idx en2)\<rparr>, st2)
                   else Done (status, cl1, en2, st2))))"

definition nss_stns_getent_r ::
  "string \<Rightarrow> (stns_conf \<Rightarrow> json_value json_object option \<Rightarrow> ents \<times> 'r caller \<Rightarrow> nss_status \<times> ents \<times> 'r caller) \<Rightarrow>
    env \<Rightarrow> client \<times> ents \<times> 'r caller \<Rightarrow> (nss_status \<times> client \<times> ents \<times> 'r caller) run" where
  "nss_stns_getent_r query write_entry e s =
     (case s of (cl, en, st) \<Rightarrow>
        rbind (load_config e cl) (\<lambda>(conf, cl1).
          case conf of
            None \<Rightarrow> Done (NSS_STATUS_UNAVAIL, cl1, en, st)
          | Some c \<Rightarrow>
              (case ent_lock e en of
                 None \<Rightarrow> unload_config c (NSS_STATUS_UNAVAIL, cl1, en, st)
               | Some en1 \<Rightarrow>
                   rbind (inner_nss_stns_getent_r query (write_entry c) e (cl1, en1, st)) (\<lambda>(result, cl2, en2, st2).
                     unload_config c (result, cl2, pthread_mutex_unlock en2, st2)))))"

definition nss_stns_setpwent :: "env \<Rightarrow> client \<times> ents \<Rightarrow> (nss_status \<times> client \<times> ents) run" where
  "nss_stns_setpwent = nss_stns_setent ''users''"

definition nss_stns_getpwent_r :: "env \<Rightarrow> client \<times> ents \<times> passwd caller \<Rightarrow> (nss_status \<times> client \<times> ents \<times> passwd caller) run" where
  "nss_stns_getpwent_r = nss_stns_getent_r ''users'' (\<lambda>c e (en, st). PASSWD_ENSURE c e en st)"

definition nss_stns_setgrent :: "env \<Rightarrow> client \<times> ents \<Rightarrow> (nss_status \<times> client \<times> ents) run" where
  "nss_stns_setgrent = nss_stns_setent ''groups''"

definition nss_stns_getgrent_r :: "env \<Rightarrow> client \<times> ents \<times> group caller \<Rightarrow> (nss_status \<times> client \<times> ents \<times> group caller) run" where
  "nss_stns_getgrent_r = nss_stns_getent_r ''groups'' (\<lambda>c e (en, st). GROUP_ENSURE c e en st)"

definition nss_stns_setspent :: "env \<Rightarrow> client \<times> ents \<Rightarrow> (nss_status \<times> client \<times> ents) run" where
  "nss_stns_setspent = nss_stns_setent ''users''"

definition nss_stns_getspent_r :: "env \<Rightarrow> client \<times> ents \<times> spwd caller \<Rightarrow> (nss_status \<times> client \<times> ents \<times> spwd caller) run" where
  "nss_stns_getspent_r = nss_stns_getent_r ''users'' (\<lambda>c e (en, st). SHADOW_ENSURE c e en st)"

end
