(* ===== verification/Stns_Enum.thy ===== *)
theory Stns_Enum
  imports Stns_Entry
begin

text \<open>
  The enumeration of a database as a state machine: the mutex is free between two calls, a call moves the position only when it
  delivers an entry, and the calls after \<^verbatim>\<open>setXXent\<close> deliver the entries of the response in their order.
\<close>

section \<open>Locking\<close>

lemma ent_lock_iff:
  "ent_lock e en = (if held en \<or> (\<forall>j \<le> STNS_LOCK_RETRY. e_busy e j) then None else Some (en\<lparr>held := True\<rparr>))"
  by (auto simp: ent_lock_def retrylock_result)

lemma unlock_held [simp]: "held en \<Longrightarrow> pthread_mutex_unlock en = en\<lparr>held := False\<rparr>"
  by (simp add: pthread_mutex_unlock_def)

lemma rbind_Done: "rbind a f = Done y \<longleftrightarrow> (\<exists>x. a = Done x \<and> f x = Done y)"
  by (cases a) auto

lemma unload_config_Done [simp]: "unload_config c x = Done y \<longleftrightarrow> distinct (stns_unload_config c) \<and> y = x"
  by (auto simp: unload_config_def)

lemma request_failure_not_success [simp]: "request_failure r \<noteq> NSS_STATUS_SUCCESS" "NSS_STATUS_SUCCESS \<noteq> request_failure r"
  by (auto simp: request_failure_def)

text \<open>A thread that holds the mutex cannot replace the entries.\<close>

lemma setent_held:
  assumes "held en" "nss_stns_setent q e (cl, en) = Done (s, cl', en')"
  shows "s \<noteq> NSS_STATUS_SUCCESS \<and> en' = en"
  using assms by (auto simp: nss_stns_setent_def inner_nss_stns_setent_def ent_lock_iff rbind_Done split: option.splits if_splits)

text \<open>What \<^verbatim>\<open>setXXent\<close> and \<^verbatim>\<open>endXXent\<close> leave behind\<close>

definition released :: "ents \<Rightarrow> bool" where
  "released en \<longleftrightarrow> \<not> held en \<and> bad_unlocks en = 0 \<and> entry_idx en \<le> json_array_get_count (json_value_get_array (entries en))"

lemma inner_setent_released:
  assumes "inner_nss_stns_setent e d en = (s, en')" "released en"
  shows "released en' \<and> (s = NSS_STATUS_SUCCESS \<longrightarrow> entry_idx en' = 0 \<and> entries en' \<noteq> None)"
  using assms by (auto simp: inner_nss_stns_setent_def ent_lock_iff released_def reset_ents_def Let_def split: option.splits if_splits)

lemma setent_inner:
  assumes "nss_stns_setent q e (cl, en) = Done (s, cl', en')"
  shows "s \<noteq> NSS_STATUS_SUCCESS \<and> en' = en \<or> (\<exists>d. inner_nss_stns_setent e d en = (s, en'))"
  using assms
  by (auto simp: nss_stns_setent_def rbind_Done case_prod_unfold Let_def split: option.splits if_splits) (metis prod.collapse)+

lemma setent_released:
  assumes "nss_stns_setent q e (cl, en) = Done (s, cl', en')" "released en"
  shows "released en' \<and> (s = NSS_STATUS_SUCCESS \<longrightarrow> entry_idx en' = 0 \<and> entries en' \<noteq> None)"
  using setent_inner [OF assms(1)] inner_setent_released assms(2) by blast

lemma endent_released:
  assumes "nss_stns_endent e en = (s, en')" "released en"
  shows "released en' \<and> (s = NSS_STATUS_SUCCESS \<longrightarrow> entries en' = None)"
  using assms by (auto simp: nss_stns_endent_def ent_lock_iff released_def reset_ents_def split: if_splits)

section \<open>Writers that leave the mutex alone\<close>

locale quiet_writer = entry_writer +
  assumes leaves_mutex: "write_entry e (en, st) = (s, en', st') \<Longrightarrow> en' = en"
begin

text \<open>The position moves with an entry that is delivered, and only then.\<close>

lemma inner_getent:
  assumes "held en" "inner_nss_stns_getent_r q write_entry e (cl, en, st) = Done (s, cl', en', st')"
  shows "(case json_value_get_array (entries en) of
      None \<Rightarrow> s \<noteq> NSS_STATUS_SUCCESS \<and> en' = en \<and> st' = st
    | Some a \<Rightarrow>
        cl' = cl \<and>
        (if length (arr_items a) \<le> entry_idx en then s = NSS_STATUS_NOTFOUND \<and> en' = en \<and> st' = st\<lparr>errnop := ENOENT\<rparr>
         else write_entry (json_value_get_object (Some (arr_items a ! entry_idx en))) (en, st) = (s, en, st') \<and>
           en' = (if s = NSS_STATUS_SUCCESS then en\<lparr>entry_idx := Suc (entry_idx en)\<rparr> else en)))"
proof (cases "json_value_get_array (entries en)")
  case None
  with assms show ?thesis
    using setent_held [OF assms(1)] by (fastforce simp: inner_nss_stns_getent_r_def rbind_Done split: if_splits)
next
  case (Some a)
  obtain s1 en1 st1 where w: "write_entry (json_array_get_object (Some a) (entry_idx en)) (en, st) = (s1, en1, st1)"
    using prod_cases3 by blast
  with leaves_mutex [OF w] Some assms(2) show ?thesis
    by (auto simp: inner_nss_stns_getent_r_def json_array_get_count_def json_array_get_object_def json_array_get_value_def Let_def split: if_splits)
qed

end

text \<open>A database whose entries such a writer stores, for every configuration\<close>

locale quiet_database =
  fixes query :: string
    and store :: "stns_conf \<Rightarrow> json_value json_object option \<Rightarrow> ents \<times> 'r caller \<Rightarrow> nss_status \<times> ents \<times> 'r caller"
    and fits :: "json_value json_object option \<Rightarrow> bool"
  assumes writer: "quiet_writer (store c) fits"

sublocale quiet_database \<subseteq> w: quiet_writer "store c" fits for c
  by (rule writer)

context quiet_database
begin

lemma getent_released:
  assumes "nss_stns_getent_r query store e (cl, en, st) = Done (s, cl', en', st')" "released en"
  shows "released en'"
proof (cases "ent_lock e en")
  case None
  with assms show ?thesis by (auto simp: nss_stns_getent_r_def rbind_Done split: option.splits)
next
  case (Some en1)
  then have en1: "en1 = en\<lparr>held := True\<rparr>" "held en1" by (auto simp: ent_lock_iff split: if_splits)
  from assms(1) Some consider "en' = en"
    | c cl1 en2 where "inner_nss_stns_getent_r query (store c) e (cl1, en1, st) = Done (s, cl', en2, st')" "en' = pthread_mutex_unlock en2"
    by (auto simp: nss_stns_getent_r_def rbind_Done split: option.splits)
  then show ?thesis
  proof cases
    case 2
    from w.inner_getent [OF en1(2) 2(1)] have "en2 = en1 \<or> en2 = en1\<lparr>entry_idx := Suc (entry_idx en1)\<rparr> \<and>
        Suc (entry_idx en1) \<le> json_array_get_count (json_value_get_array (entries en1))"
      by (auto simp: json_array_get_count_def split: option.splits if_splits)
    with 2(2) en1 assms(2) show ?thesis by (auto simp: released_def)
  qed (use assms in simp)
qed

end

interpretation pwq: quiet_database "''users''" "\<lambda>c e (en, st). PASSWD_ENSURE c e en st" "\<lambda>e. True"
  by unfold_locales (auto simp: PASSWD_ENSURE_def Let_def simp del: set_attributes.simps split: prod.splits)

interpretation spq: quiet_database "''users''" "\<lambda>c e (en, st). SHADOW_ENSURE c e en st" "\<lambda>e. True"
  by unfold_locales (auto simp: SHADOW_ENSURE_def Let_def simp del: set_attributes.simps split: prod.splits if_splits)

text \<open>The writer of the groups may unlock the mutex, so \<open>released\<close> does not hold for it. What all three databases share is weaker:
  the mutex is free and the position in range.\<close>

definition settled :: "ents \<Rightarrow> bool" where
  "settled en \<longleftrightarrow> \<not> held en \<and> entry_idx en \<le> json_array_get_count (json_value_get_array (entries en))"

lemma released_settled: "released en \<longleftrightarrow> settled en \<and> bad_unlocks en = 0"
  by (auto simp: released_def settled_def)

lemma unlock_settles: "settled (pthread_mutex_unlock en) \<longleftrightarrow> entry_idx en \<le> json_array_get_count (json_value_get_array (entries en))"
  by (simp add: settled_def pthread_mutex_unlock_def)

lemma inner_setent_settled: "inner_nss_stns_setent e d en = (s, en') \<Longrightarrow> settled en \<Longrightarrow> settled en'"
  by (auto simp: inner_nss_stns_setent_def ent_lock_iff settled_def reset_ents_def Let_def split: option.splits if_splits)

lemma setent_settled: "nss_stns_setent q e (cl, en) = Done (s, cl', en') \<Longrightarrow> settled en \<Longrightarrow> settled en'"
  using setent_inner inner_setent_settled by blast

lemma endent_settled: "nss_stns_endent e en = (s, en') \<Longrightarrow> settled en \<Longrightarrow> settled en'"
  by (auto simp: nss_stns_endent_def ent_lock_iff settled_def reset_ents_def split: if_splits)

locale steady_database =
  fixes query :: string
    and store :: "stns_conf \<Rightarrow> json_value json_object option \<Rightarrow> ents \<times> 'r caller \<Rightarrow> nss_status \<times> ents \<times> 'r caller"
  assumes keeps_entries: "store c e (en, st) = (s, en', st') \<Longrightarrow> entries en' = entries en \<and> entry_idx en' = entry_idx en"
begin

lemma getent_settled:
  assumes "nss_stns_getent_r query store e (cl, en, st) = Done (s, cl', en', st')" "settled en"
  shows "settled en'"
proof (cases "ent_lock e en")
  case None
  with assms show ?thesis by (auto simp: nss_stns_getent_r_def rbind_Done split: option.splits)
next
  case (Some en1)
  then have en1: "en1 = en\<lparr>held := True\<rparr>" "held en1" by (auto simp: ent_lock_iff split: if_splits)
  from assms(1) Some consider "en' = en"
    | c cl1 en2 where "inner_nss_stns_getent_r query (store c) e (cl1, en1, st) = Done (s, cl', en2, st')" "en' = pthread_mutex_unlock en2"
    by (auto simp: nss_stns_getent_r_def rbind_Done split: option.splits)
  then show ?thesis
  proof cases
    case (2 c cl1 en2)
    have "entry_idx en2 \<le> json_array_get_count (json_value_get_array (entries en2))"
    proof (cases "json_value_get_array (entries en)")
      case None
      then have "en2 = en1"
        using 2(1) en1 setent_held [OF en1(2)] by (fastforce simp: inner_nss_stns_getent_r_def rbind_Done split: if_splits)
      then show ?thesis using assms(2) en1 by (simp add: settled_def)
    next
      case (Some a)
      obtain s1 en3 st1 where w: "store c (json_array_get_object (Some a) (entry_idx en)) (en1, st) = (s1, en3, st1)"
        using prod_cases3 by blast
      from keeps_entries [OF w] Some 2(1) en1 w assms(2) show ?thesis
        by (auto simp: inner_nss_stns_getent_r_def settled_def Let_def split: if_splits)
    qed
    then show ?thesis using 2(2) by (simp add: unlock_settles)
  qed (use assms in simp)
qed

end

sublocale quiet_database \<subseteq> sd: steady_database query store
  by unfold_locales (simp_all add: w.keeps_position)

interpretation grq: steady_database "''groups''" "\<lambda>c e (en, st). GROUP_ENSURE c e en st"
  by unfold_locales (simp add: group_keeps_position)

section \<open>Reachable states\<close>

text \<open>Any sequence of calls, each in its own surroundings\<close>

inductive ent_reachable ::
  "string \<Rightarrow> (stns_conf \<Rightarrow> json_value json_object option \<Rightarrow> ents \<times> 'r caller \<Rightarrow> nss_status \<times> ents \<times> 'r caller) \<Rightarrow> client \<times> ents \<Rightarrow> bool"
  for query store where
  start: "ent_reachable query store (cl, no_ents)"
| setent: "ent_reachable query store (cl, en) \<Longrightarrow> nss_stns_setent query e (cl, en) = Done (s, cl', en') \<Longrightarrow> ent_reachable query store (cl', en')"
| getent: "ent_reachable query store (cl, en) \<Longrightarrow> nss_stns_getent_r query store e (cl, en, st) = Done (s, cl', en', st') \<Longrightarrow>
    ent_reachable query store (cl', en')"
| endent: "ent_reachable query store (cl, en) \<Longrightarrow> nss_stns_endent e en = (s, en') \<Longrightarrow> ent_reachable query store (cl, en')"

inductive_cases ent_reachableE: "ent_reachable query store (cl, en)"

context steady_database
begin

lemma reachable_settled: "ent_reachable query store s \<Longrightarrow> settled (snd s)"
proof (induction rule: ent_reachable.induct)
  case (start cl)
  then show ?case by (simp add: settled_def no_ents_def)
next
  case (setent cl en e s cl' en')
  then show ?case using setent_settled by auto
next
  case (getent cl en e st s cl' en' st')
  then show ?case using getent_settled by auto
next
  case (endent cl en e s en')
  then show ?case using endent_settled by auto
qed

end

context quiet_database
begin

lemma reachable_released: "ent_reachable query store s \<Longrightarrow> released (snd s)"
proof (induction rule: ent_reachable.induct)
  case (start cl)
  then show ?case by (simp add: released_def no_ents_def)
next
  case (setent cl en e s cl' en')
  then show ?case using setent_released by auto
next
  case (getent cl en e st s cl' en' st')
  then show ?case using getent_released by auto
next
  case (endent cl en e s en')
  then show ?case using endent_released by auto
qed

end

section \<open>The iterator\<close>

definition configured :: "env \<Rightarrow> stns_conf \<Rightarrow> bool" where
  "configured e c \<longleftrightarrow> distinct (stns_unload_config c) \<and> (\<forall>w. \<exists>w'. stns_load_config (e_fuel e) (e_file e) w = Loaded c w')"

definition mutex_free :: "env \<Rightarrow> bool" where
  "mutex_free e \<longleftrightarrow> \<not> (\<forall>j \<le> STNS_LOCK_RETRY. e_busy e j)"

text \<open>The entries that are still to come\<close>

definition pending :: "ents \<Rightarrow> json_value list option" where
  "pending en = map_option (\<lambda>a. drop (entry_idx en) (arr_items a)) (json_value_get_array (entries en))"

lemma load_configured:
  assumes "configured e c"
  obtains w where "load_config e cl = Done (Some c, cl\<lparr>sys := w\<rparr>)" "stns_load_config (e_fuel e) (e_file e) (sys cl) = Loaded c w"
proof -
  from assms obtain w where "stns_load_config (e_fuel e) (e_file e) (sys cl) = Loaded c w" by (auto simp: configured_def)
  with that [of w] show ?thesis by (simp add: load_config_def)
qed

definition account_of :: "stns_conf \<Rightarrow> json_value \<Rightarrow> passwd_entry" where
  "account_of c v = passwd_spec c (json_value_get_object (Some v))"

definition storable :: "json_value \<Rightarrow> bool" where
  "storable v \<longleftrightarrow> short (json_object_get_string (json_value_get_object (Some v)) ''name'') \<and>
     short (json_object_get_string (json_value_get_object (Some v)) ''gecos'')"

lemma held_off: "\<not> held en \<Longrightarrow> en\<lparr>held := False\<rparr> = en" "\<not> held en \<Longrightarrow> en\<lparr>entry_idx := i, held := False\<rparr> = en\<lparr>entry_idx := i\<rparr>"
  by (cases en, simp)+

lemma getpwent_step:
  assumes "configured e c" "released en" "pending en = Some vs" "list_all storable vs" "wf_caller st"
  shows "\<exists>s cl' en' st'. nss_stns_getpwent_r e (cl, en, st) = Done (s, cl', en', st') \<and> released en' \<and> grown st st' \<and>
    (if \<not> mutex_free e then s = NSS_STATUS_UNAVAIL \<and> en' = en
     else case vs of
         [] \<Rightarrow> s = NSS_STATUS_NOTFOUND \<and> errnop st' = ENOENT \<and> pending en' = Some []
       | v # vs' \<Rightarrow>
           if passwd_need (account_of c v) \<le> left st
           then s = NSS_STATUS_SUCCESS \<and> read_passwd st' = account_of c v \<and> pending en' = Some vs'
           else s = NSS_STATUS_TRYAGAIN \<and> errnop st' = ERANGE \<and> pending en' = Some vs)"
proof -
  obtain w where ld: "load_config e cl = Done (Some c, cl\<lparr>sys := w\<rparr>)" using load_configured [OF assms(1)] by blast
  have un: "distinct (stns_unload_config c)" using assms(1) by (simp add: configured_def)
  have nh: "\<not> held en" using assms(2) by (simp add: released_def)
  have gr: "grown st st" "grown st (st\<lparr>errnop := x\<rparr>)" for x by (simp_all add: grown_def)
  obtain a where a: "json_value_get_array (entries en) = Some a" "vs = drop (entry_idx en) (arr_items a)"
    using assms(3) by (auto simp: pending_def)
  show ?thesis
  proof (cases "mutex_free e")
    case False
    then have "ent_lock e en = None" by (simp add: ent_lock_iff mutex_free_def)
    then show ?thesis
      using False ld un assms(2) gr by (simp add: nss_stns_getpwent_r_def nss_stns_getent_r_def unload_config_def)
  next
    case True
    then have lk: "ent_lock e en = Some (en\<lparr>held := True\<rparr>)" using nh by (simp add: ent_lock_iff mutex_free_def)
    show ?thesis
    proof (cases vs)
      case Nil
      then show ?thesis
        using True ld un lk a assms(2) nh gr
        by (simp add: nss_stns_getpwent_r_def nss_stns_getent_r_def inner_nss_stns_getent_r_def unload_config_def
            json_array_get_count_def Let_def pending_def released_def)
    next
      case (Cons v vs')
      have ix: "entry_idx en < length (arr_items a)" "arr_items a ! entry_idx en = v" "drop (Suc (entry_idx en)) (arr_items a) = vs'"
        using Cons a(2) by (metis drop_eq_Nil2 linorder_not_less list.discI, metis nth_via_drop, metis drop_Suc list.sel(3) tl_drop)
      let ?ob = "json_value_get_object (Some v)"
      obtain s en1 st1 where wr: "PASSWD_ENSURE c ?ob (en\<lparr>held := True\<rparr>) st = (s, en1, st1)" using prod_cases3 by blast
      note g = PASSWD_ENSURE_grown [OF assms(5) wr]
      have sp: "s = (if passwd_need (passwd_spec c ?ob) \<le> left st then NSS_STATUS_SUCCESS else NSS_STATUS_TRYAGAIN) \<and>
        (s = NSS_STATUS_SUCCESS \<longrightarrow> read_passwd st1 = passwd_spec c ?ob \<and> errnop st1 = errnop st)"
        using assms(4) Cons by (intro PASSWD_ENSURE_spec [OF assms(5) wr]) (auto simp: storable_def)
      have "nss_stns_getpwent_r e (cl, en, st) =
        Done (s, cl\<lparr>sys := w\<rparr>, if s = NSS_STATUS_SUCCESS then en\<lparr>entry_idx := Suc (entry_idx en)\<rparr> else en, st1)"
        using ld un lk a(1) wr g ix(1,2) held_off [OF nh]
        by (simp add: nss_stns_getpwent_r_def nss_stns_getent_r_def inner_nss_stns_getent_r_def unload_config_def
            json_array_get_count_def json_array_get_object_def json_array_get_value_def Let_def)
      moreover have "pending (en\<lparr>entry_idx := Suc (entry_idx en)\<rparr>) = Some vs'" "released (en\<lparr>entry_idx := Suc (entry_idx en)\<rparr>)"
        using a ix assms(2) by (simp_all add: pending_def released_def json_array_get_count_def)
      ultimately show ?thesis
        using True g sp assms(2,3) unfolding Cons list.case account_of_def by auto
    qed
  qed
qed

section \<open>A whole enumeration\<close>

fun getpwents :: "env \<Rightarrow> passwd caller list \<Rightarrow> client \<times> ents \<Rightarrow> ((nss_status \<times> passwd_entry) list \<times> client \<times> ents) run" where
  "getpwents e [] s = Done ([], s)"
| "getpwents e (st # sts) s =
     (case s of (cl, en) \<Rightarrow>
        rbind (nss_stns_getpwent_r e (cl, en, st)) (\<lambda>(status, cl', en', st').
          rbind (getpwents e sts (cl', en')) (\<lambda>(rs, s'). Done ((status, read_passwd st') # rs, s'))))"

definition roomy :: "stns_conf \<Rightarrow> json_value \<Rightarrow> passwd caller \<Rightarrow> bool" where
  "roomy c v st \<longleftrightarrow> wf_caller st \<and> passwd_need (account_of c v) \<le> left st"

lemma getpwents_all:
  assumes "configured e c" "mutex_free e" "released en" "pending en = Some vs" "list_all storable vs" "list_all2 (roomy c) vs sts"
  shows "\<exists>cl' en'. getpwents e sts (cl, en) = Done (map (\<lambda>v. (NSS_STATUS_SUCCESS, account_of c v)) vs, cl', en') \<and>
    released en' \<and> pending en' = Some []"
  using assms(3-)
proof (induction vs arbitrary: sts cl en)
  case (Cons v vs)
  then obtain st sts' where sts: "sts = st # sts'" "roomy c v st" "list_all2 (roomy c) vs sts'"
    by (auto simp: list_all2_Cons1)
  from getpwent_step [OF assms(1) Cons.prems(1-3), of st cl] sts(2) assms(2)
  obtain cl1 en1 st1 where g: "nss_stns_getpwent_r e (cl, en, st) = Done (NSS_STATUS_SUCCESS, cl1, en1, st1)"
    "released en1" "read_passwd st1 = account_of c v" "pending en1 = Some vs"
    by (auto simp: roomy_def)
  from Cons.IH [OF g(2,4) _ sts(3), of cl1] Cons.prems(3) g show ?case
    by (auto simp: sts(1))
qed simp

lemma setpwent_loads:
  assumes "configured e c" "mutex_free e" "\<not> held en"
    and "stns_load_config (e_fuel e) (e_file e) (sys cl) = Loaded c w"
    and "stns_request (e_sv e) c (Some q) (fresh_response e) (cl\<lparr>sys := w\<rparr>) = Ret (CURLE_OK, r, cl1)"
    and "json_parse_string (Some (res_data r)) = Some doc"
  shows "nss_stns_setent q e (cl, en) = Done (NSS_STATUS_SUCCESS, cl1, en\<lparr>entry_idx := 0, entries := Some doc\<rparr>)"
proof -
  have "load_config e cl = Done (Some c, cl\<lparr>sys := w\<rparr>)" using assms(4) by (simp add: load_config_def)
  moreover have "distinct (stns_unload_config c)" using assms(1) by (simp add: configured_def)
  moreover have "en\<lparr>held := False, entry_idx := 0, entries := Some doc\<rparr> = en\<lparr>entry_idx := 0, entries := Some doc\<rparr>"
    using assms(3) by (cases en) simp
  ultimately show ?thesis
    using assms(2,3,5,6)
    by (simp add: nss_stns_setent_def run_of_def inner_nss_stns_setent_def ent_lock_iff mutex_free_def reset_ents_def
        unload_config_def Let_def)
qed

section \<open>Looking a name up, from the configuration file to the account\<close>

lemma plain_request:
  assumes "\<not> cache c" "query_wrapper c = None" "fst (stns_request_available STNS_LOCK_FILE c (sys cl))"
    and "curl_perform (e_sv e) (transfers cl) (curl_options c path) = \<lparr>co_headers = [], co_segments = bs, co_code = rc, co_result = CURLE_OK\<rparr>"
    and "bs \<noteq> []" "\<forall>b \<in> set bs. length b \<le> STNS_MAX_BUFFER_SIZE" "0 < rc" "rc < 400"
  shows "\<exists>r cl'. stns_request (e_sv e) c (Some path) (fresh_response e) cl = Ret (CURLE_OK, r, cl') \<and> res_data r = concat bs"
proof -
  let ?r = "(fresh_response e)\<lparr>res_size := 0, res_status_code := 200\<rparr>"
  obtain w where w: "stns_request_available STNS_LOCK_FILE c (sys cl) = (True, w)"
    using assms(3) by (cases "stns_request_available STNS_LOCK_FILE c (sys cl)") auto
  have wf: "wf_response ?r" by (simp add: wf_response_def fresh_response_def STNS_DEFAULT_BUFFER_SIZE_def)
  obtain r where "inner_http_request (e_sv e) c path ?r (cl\<lparr>sys := w\<rparr>) = Ret (CURLE_OK, r, cl\<lparr>sys := w, transfers := Suc (transfers cl)\<rparr>)"
    and r: "res_data r = concat bs"
    using run_segments_data [OF wf _ assms(6)] assms(4,5,7,8) by (auto simp: inner_http_request_def Let_def)
  moreover have "cache_lookup (e_sv e) c path ?r (sys cl) = Inr (sys cl)"
    using assms(1) by (simp add: cache_lookup_def Let_def)
  moreover have "retry_loop sv c path n CURLE_OK r st = Ret (CURLE_OK, r, st)" for sv n st by (cases n) simp_all
  ultimately show ?thesis
    using assms(1,2) w by (simp add: stns_request_def Let_def curle_defs)
qed

section \<open>Properties\<close>

text \<open>C4. \<^verbatim>\<open>getpwent\<close> refines an iterator over the entries that are to come: when the mutex can be had, a call delivers the next
  entry - exactly the account the JSON element describes - and moves on, or reports a buffer without room and stays where it is,
  or reports the end with \<^verbatim>\<open>ENOENT\<close>; when the mutex stays busy it reports \<^verbatim>\<open>UNAVAIL\<close> and nothing changes. In every case it
  returns, leaves the mutex free and writes only the free part of the buffer.\<close>

theorem getpwent_refines_iterator:
  assumes "configured e c" "released en" "pending en = Some vs" "list_all storable vs" "wf_caller st"
  shows "\<exists>s cl' en' st'. nss_stns_getpwent_r e (cl, en, st) = Done (s, cl', en', st') \<and> released en' \<and> grown st st' \<and>
    (if \<not> mutex_free e then s = NSS_STATUS_UNAVAIL \<and> en' = en
     else case vs of
         [] \<Rightarrow> s = NSS_STATUS_NOTFOUND \<and> errnop st' = ENOENT \<and> pending en' = Some []
       | v # vs' \<Rightarrow>
           if passwd_need (account_of c v) \<le> left st
           then s = NSS_STATUS_SUCCESS \<and> read_passwd st' = account_of c v \<and> pending en' = Some vs'
           else s = NSS_STATUS_TRYAGAIN \<and> errnop st' = ERANGE \<and> pending en' = Some vs)"
  using assms by (rule getpwent_step)

text \<open>C5. A whole enumeration of the accounts: after a \<^verbatim>\<open>setpwent\<close> whose request succeeds with a JSON array, calls of \<^verbatim>\<open>getpwent\<close>
  with enough room deliver the accounts of all elements in their order, the next call reports the end, and \<^verbatim>\<open>endpwent\<close>
  gives the entries back.\<close>

theorem pwent_session:
  assumes "configured e c" "mutex_free e" "released en"
    and "stns_load_config (e_fuel e) (e_file e) (sys cl) = Loaded c w"
    and "stns_request (e_sv e) c (Some ''users'') (fresh_response e) (cl\<lparr>sys := w\<rparr>) = Ret (CURLE_OK, r, cl1)"
    and "json_parse_string (Some (res_data r)) = Some (VArray a)" "list_all storable (arr_items a)"
    and "list_all2 (roomy c) (arr_items a) sts" "wf_caller st"
  shows "\<exists>en1 cl2 en2 cl3 en3 st3 en4.
    nss_stns_setpwent e (cl, en) = Done (NSS_STATUS_SUCCESS, cl1, en1) \<and>
    getpwents e sts (cl1, en1) = Done (map (\<lambda>v. (NSS_STATUS_SUCCESS, account_of c v)) (arr_items a), cl2, en2) \<and>
    nss_stns_getpwent_r e (cl2, en2, st) = Done (NSS_STATUS_NOTFOUND, cl3, en3, st3) \<and> errnop st3 = ENOENT \<and>
    nss_stns_endent e en3 = (NSS_STATUS_SUCCESS, en4) \<and> entries en4 = None \<and> released en4"
proof -
  let ?en1 = "en\<lparr>entry_idx := 0, entries := Some (VArray a)\<rparr>"
  have nh: "\<not> held en" using assms(3) by (simp add: released_def)
  have set: "nss_stns_setpwent e (cl, en) = Done (NSS_STATUS_SUCCESS, cl1, ?en1)"
    unfolding nss_stns_setpwent_def by (rule setpwent_loads [OF assms(1,2) nh assms(4-6)])
  have en1: "released ?en1" "pending ?en1 = Some (arr_items a)"
    using assms(3) by (simp_all add: released_def pending_def json_value_get_array_def)
  obtain cl2 en2 where all: "getpwents e sts (cl1, ?en1) = Done (map (\<lambda>v. (NSS_STATUS_SUCCESS, account_of c v)) (arr_items a), cl2, en2)"
    "released en2" "pending en2 = Some []"
    using getpwents_all [OF assms(1,2) en1 assms(7,8)] by blast
  obtain cl3 en3 st3 where last: "nss_stns_getpwent_r e (cl2, en2, st) = Done (NSS_STATUS_NOTFOUND, cl3, en3, st3)" "errnop st3 = ENOENT" "released en3"
    using getpwent_step [OF assms(1) all(2,3) _ assms(9), of cl2] assms(2) by auto
  obtain s4 en4 where en4: "nss_stns_endent e en3 = (s4, en4)" by fastforce
  have "s4 = NSS_STATUS_SUCCESS"
    using en4 last(3) assms(2) by (auto simp: nss_stns_endent_def ent_lock_iff mutex_free_def released_def split: if_splits)
  with endent_released [OF en4 last(3)] set all(1) last en4 show ?thesis by blast
qed

text \<open>C6. In every state that any sequence of calls to \<^verbatim>\<open>setXXent\<close>, \<^verbatim>\<open>getXXent\<close> and \<^verbatim>\<open>endXXent\<close> of one database can
  reach, whatever the server, the file and the other threads do, the thread does not hold the mutex between two calls and the position
  lies within the entries. For the accounts and the shadow entries it has moreover never unlocked a mutex it did not hold; for the
  groups that fails (\<open>group_enumeration_unlocks_twice\<close>).\<close>

theorem ent_states_released:
  assumes "ent_reachable ''users'' (\<lambda>c e (en, st). PASSWD_ENSURE c e en st) (cl, en) \<or>
    ent_reachable ''users'' (\<lambda>c e (en, st). SHADOW_ENSURE c e en st) (cl, en) \<or>
    ent_reachable ''groups'' (\<lambda>c e (en, st). GROUP_ENSURE c e en st) (cl, en)"
  shows "\<not> held en \<and> entry_idx en \<le> json_array_get_count (json_value_get_array (entries en)) \<and>
    (ent_reachable ''users'' (\<lambda>c e (en, st). PASSWD_ENSURE c e en st) (cl, en) \<or>
     ent_reachable ''users'' (\<lambda>c e (en, st). SHADOW_ENSURE c e en st) (cl, en) \<longrightarrow> bad_unlocks en = 0)"
  using assms pwq.reachable_released [of "(cl, en)"] spq.reachable_released [of "(cl, en)"] grq.reachable_settled [of "(cl, en)"]
  unfolding released_settled settled_def by auto

text \<open>C15. Without a successful \<^verbatim>\<open>setpwent\<close> there is no entry: when no array is loaded, a call of \<^verbatim>\<open>getpwent\<close> that returns does not
  deliver anything and leaves the enumeration as it was (its own attempt to load the entries fails on the mutex it holds).\<close>

theorem getpwent_without_setpwent:
  assumes "json_value_get_array (entries en) = None" "released en"
    and "nss_stns_getpwent_r e (cl, en, st) = Done (s, cl', en', st')"
  shows "s \<noteq> NSS_STATUS_SUCCESS \<and> en' = en \<and> st' = st"
proof -
  have nh: "\<not> held en" using assms(2) by (simp add: released_def)
  show ?thesis
  proof (cases "ent_lock e en")
    case None
    with assms(3) show ?thesis by (auto simp: nss_stns_getpwent_r_def nss_stns_getent_r_def rbind_Done split: option.splits)
  next
    case (Some en1)
    then have en1: "en1 = en\<lparr>held := True\<rparr>" "held en1" by (auto simp: ent_lock_iff split: if_splits)
    from assms(3) Some consider "en' = en" "s = NSS_STATUS_UNAVAIL" "st' = st"
      | c cl1 en2 where "inner_nss_stns_getent_r ''users'' (\<lambda>e (en, st). PASSWD_ENSURE c e en st) e (cl1, en1, st) = Done (s, cl', en2, st')"
          "en' = pthread_mutex_unlock en2"
      by (auto simp: nss_stns_getpwent_r_def nss_stns_getent_r_def rbind_Done split: option.splits)
    then show ?thesis
    proof cases
      case 2
      from pwq.w.inner_getent [OF en1(2) 2(1)] assms(1) 2(2) en1 held_off(1) [OF nh] show ?thesis by auto
    qed auto
  qed
qed


text \<open>C3. From the configuration file to the account: a valid name is looked up with one transfer of the path \<^verbatim>\<open>users?name=...\<close>;
  when the server answers with a JSON array in any number of segments, the first element of that name is stored in the caller's
  buffer, or the missing room is reported. (Cache and wrapper are off, and no lock file holds requests back.)\<close>

theorem getpwnam_end_to_end:
  assumes conf: "configured e c" "stns_load_config (e_fuel e) (e_file e) (sys cl) = Loaded c w"
    and plain: "\<not> cache c" "query_wrapper c = None" "fst (stns_request_available STNS_LOCK_FILE c w)"
    and name: "is_valid_username (Some name) = 0"
    and net: "curl_perform (e_sv e) (transfers cl) (curl_options c (''users?name='' @ cstr name)) =
      \<lparr>co_headers = [], co_segments = bs, co_code = 200, co_result = CURLE_OK\<rparr>"
      "bs \<noteq> []" "\<forall>b \<in> set bs. length b \<le> STNS_MAX_BUFFER_SIZE"
    and body: "json_parse_string (Some (concat bs)) = Some (VArray a)" "\<forall>v \<in> set (arr_items a). named v"
      "find (element_matches (has_name name)) (arr_items a) = Some v" "json_value_get_object (Some v) = Some leaf" "storable v"
    and st: "wf_caller st"
  shows "\<exists>cl' st'. nss_stns_getpwnam_r name e (cl, en, st) =
      Done (if passwd_need (account_of c v) \<le> left st then NSS_STATUS_SUCCESS else NSS_STATUS_TRYAGAIN, cl', en, st') \<and>
    grown st st' \<and>
    (if passwd_need (account_of c v) \<le> left st then read_passwd st' = account_of c v else errnop st' = ERANGE)"
proof -
  have "length (cstr name) \<le> 32" using name by (auto simp: valid_username_iff split: if_splits)
  then have url: "snprintf_str MAXBUF (''users?name='' @ cstr name) = ''users?name='' @ cstr name"
    by (simp add: snprintf_str_def MAXBUF_def)
  obtain r cl1 where rq: "stns_request (e_sv e) c (Some (''users?name='' @ cstr name)) (fresh_response e) (cl\<lparr>sys := w\<rparr>) = Ret (CURLE_OK, r, cl1)"
    and r: "res_data r = concat bs"
    using plain_request [of c "cl\<lparr>sys := w\<rparr>" e "''users?name='' @ cstr name" bs 200] plain net by auto
  have rq': "stns_request (e_sv e) c (Some (snprintf_str MAXBUF (''users?name='' @ cstr name))) (fresh_response e) (cl\<lparr>sys := w\<rparr>) = Ret (CURLE_OK, r, cl1)"
    unfolding url by (rule rq)
  have mn: "match_name name l = Ret (has_name name l)"
    if "v' \<in> set (arr_items a)" "json_value_get_object (Some v') = Some l" for v' l
    using that body(2) match_name_named by blast
  have sh: "short (json_object_get_string (Some leaf) ''name'')" "short (json_object_get_string (Some leaf) ''gecos'')"
    using body(4,5) by (simp_all add: storable_def)
  obtain st' where lk: "STNS_ENSURE_BY (match_name name) (\<lambda>e (en, st). PASSWD_ENSURE c e en st) (concat bs) (en, st) =
      Ret (if passwd_need (passwd_spec c (Some leaf)) \<le> left st then NSS_STATUS_SUCCESS else NSS_STATUS_TRYAGAIN, en, st')"
    and res: "grown st st'"
      "if passwd_need (passwd_spec c (Some leaf)) \<le> left st then read_passwd st' = passwd_spec c (Some leaf) else errnop st' = ERANGE"
    using lookup_passwd [OF body(1) _ body(3,4) sh st, where m = "match_name name" and c = c and en = en] mn by blast
  have "nss_stns_getpwnam_r name e (cl, en, st) =
      Done (if passwd_need (account_of c v) \<le> left st then NSS_STATUS_SUCCESS else NSS_STATUS_TRYAGAIN, cl1, en, st')"
    using conf name rq' r lk body(4)
    by (simp add: nss_stns_getpwnam_r_def STNS_GET_SINGLE_VALUE_METHOD_def load_config_def name_available_def run_of_def
        ensure_passwd_by_name_def unload_config_def configured_def account_of_def)
  with res body(4) show ?thesis by (auto simp: account_of_def)
qed

section \<open>Samples\<close>

definition plain_settings :: "(string \<times> scalar) list" where
  "plain_settings = [(''cache'', TBool False), (''uid_shift'', TInt 1000)]"

definition plain_conf :: stns_conf where
  "plain_conf = with_cached (settings_conf plain_settings)"

definition sample_env :: "string \<Rightarrow> env" where
  "sample_env body =
     \<lparr>e_sv = sample_services 200 0 body, e_fuel = 200, e_file = Some \<lparr>f_bytes = toml_lines plain_settings, f_fails = None\<rparr>,
      e_junk = ''junk'', e_busy = (\<lambda>_. False)\<rparr>"

lemma distinct_fields: "distinct (field_blocks c)"
  by (auto simp: field_blocks_def field_block_def split: option.splits)

lemma configured_settings:
  assumes "settings_ok kvs" "toml_fuel (toml_lines kvs) \<le> e_fuel e" "e_file e = Some \<lparr>f_bytes = toml_lines kvs, f_fails = None\<rparr>"
  shows "configured e (with_cached (settings_conf kvs))"
    and "stns_load_config (e_fuel e) (e_file e) w = Loaded (with_cached (settings_conf kvs)) (stns_force_create_cache_dir (settings_conf kvs) w)"
proof -
  have "http_headers (with_cached (settings_conf kvs)) = None"
    by (simp add: with_cached_def settings_conf_def default_conf_def)
  then have "distinct (stns_unload_config (with_cached (settings_conf kvs)))"
    using distinct_fields by (simp add: stns_unload_config_def)
  with load_settings_file [OF assms(1,2)] assms(3)
  show "configured e (with_cached (settings_conf kvs))" by (simp add: configured_def)
  show "stns_load_config (e_fuel e) (e_file e) w = Loaded (with_cached (settings_conf kvs)) (stns_force_create_cache_dir (settings_conf kvs) w)"
    using load_settings_file [OF assms(1,2)] assms(3) by simp
qed

lemma sample_configured:
  "configured (sample_env body) plain_conf" "mutex_free (sample_env body)"
  "stns_load_config (e_fuel (sample_env body)) (e_file (sample_env body)) (sys sample_client) = Loaded plain_conf sample_os"
  "\<not> cache plain_conf" "query_wrapper plain_conf = None" "fst (stns_request_available STNS_LOCK_FILE plain_conf sample_os)"
proof -
  have "settings_ok plain_settings" "toml_fuel (toml_lines plain_settings) \<le> 200" by code_simp+
  then have ok: "settings_ok plain_settings" "toml_fuel (toml_lines plain_settings) \<le> e_fuel (sample_env body)"
    "e_file (sample_env body) = Some \<lparr>f_bytes = toml_lines plain_settings, f_fails = None\<rparr>"
    by (simp_all add: sample_env_def)
  show "configured (sample_env body) plain_conf"
    unfolding plain_conf_def by (rule configured_settings(1) [OF ok])
  have "\<not> cache (settings_conf plain_settings)" by code_simp
  then show "stns_load_config (e_fuel (sample_env body)) (e_file (sample_env body)) (sys sample_client) = Loaded plain_conf sample_os"
    using configured_settings(2) [OF ok, of sample_os] by (simp add: plain_conf_def sample_client_def stns_force_create_cache_dir_def)
  show "mutex_free (sample_env body)" by (auto simp: mutex_free_def sample_env_def intro: exI [of _ 0])
  show "\<not> cache plain_conf" "query_wrapper plain_conf = None" "fst (stns_request_available STNS_LOCK_FILE plain_conf sample_os)"
    by code_simp+
qed

lemma sample_request:
  assumes "length body \<le> STNS_MAX_BUFFER_SIZE"
  shows "\<exists>r cl'. stns_request (e_sv (sample_env body)) plain_conf (Some path) (fresh_response (sample_env body)) sample_client = Ret (CURLE_OK, r, cl') \<and>
    res_data r = body"
  using plain_request [OF sample_configured(4,5), of sample_client "sample_env body" path "[body]" 200] sample_configured(6) assms
  by (simp add: sample_client_def sample_env_def sample_services_def CURLE_OK_def)

lemma users_entry:
  obtains a v leaf where "json_parse_string (Some users_json) = Some (VArray a)" "arr_items a = [v]" "storable v"
    "json_value_get_object (Some v) = Some leaf" "has_name ''bob'' leaf" "named v"
    "e_name (account_of plain_conf v) = ''bob''" "e_uid (account_of plain_conf v) = 1007" "passwd_need (account_of plain_conf v) \<le> 64"
proof -
  have "(case json_parse_string (Some users_json) of
      Some (VArray a) \<Rightarrow> length (arr_items a) = 1 \<and>
        (case json_value_get_object (Some (hd (arr_items a))) of
           Some leaf \<Rightarrow> storable (hd (arr_items a)) \<and> has_name ''bob'' leaf \<and> named (hd (arr_items a)) \<and>
             e_name (account_of plain_conf (hd (arr_items a))) = ''bob'' \<and> e_uid (account_of plain_conf (hd (arr_items a))) = 1007 \<and>
             passwd_need (account_of plain_conf (hd (arr_items a))) \<le> 64
         | None \<Rightarrow> False) | _ \<Rightarrow> False)"
    by code_simp
  then show ?thesis
    by (auto split: option.splits json_value.splits simp: length_Suc_conv) (rule that; assumption)
qed

lemma users_json_short: "length users_json \<le> STNS_MAX_BUFFER_SIZE"
  by (simp add: users_json_def STNS_MAX_BUFFER_SIZE_def)

theorem getpwent_refines_iterator_witness:
  "\<exists>doc cl' en' st'. json_parse_string (Some users_json) = Some doc \<and>
    nss_stns_getpwent_r (sample_env users_json) (sample_client, no_ents\<lparr>entries := Some doc\<rparr>, sample_caller 64 no_passwd)
      = Done (NSS_STATUS_SUCCESS, cl', en', st') \<and> e_uid (read_passwd st') = 1007 \<and> pending en' = Some []"
proof (rule users_entry)
  fix a v leaf
  assume a: "json_parse_string (Some users_json) = Some (VArray a)" "arr_items a = [v]" "storable v"
    "e_uid (account_of plain_conf v) = 1007" "passwd_need (account_of plain_conf v) \<le> 64"
  have "released (no_ents\<lparr>entries := Some (VArray a)\<rparr>)" "pending (no_ents\<lparr>entries := Some (VArray a)\<rparr>) = Some [v]"
    by (simp_all add: released_def no_ents_def pending_def json_value_get_array_def a(2))
  from getpwent_refines_iterator [OF sample_configured(1) [of users_json] this _ sample_wf [of 64 no_passwd], where cl = sample_client]
  show ?thesis using a sample_configured(2) by (auto simp: sample_caller_def)
qed

theorem pwent_session_witness:
  "\<exists>cl1 en1 cl2 en2 x. nss_stns_setpwent (sample_env users_json) (sample_client, no_ents) = Done (NSS_STATUS_SUCCESS, cl1, en1) \<and>
    getpwents (sample_env users_json) [sample_caller 64 no_passwd] (cl1, en1) = Done ([(NSS_STATUS_SUCCESS, x)], cl2, en2) \<and> e_name x = ''bob''"
proof (rule users_entry)
  fix a v leaf
  assume a: "json_parse_string (Some users_json) = Some (VArray a)" "arr_items a = [v]" "storable v"
    "e_name (account_of plain_conf v) = ''bob''" "passwd_need (account_of plain_conf v) \<le> 64"
  obtain r cl1 where r: "stns_request (e_sv (sample_env users_json)) plain_conf (Some ''users'') (fresh_response (sample_env users_json)) (sample_client\<lparr>sys := sample_os\<rparr>)
      = Ret (CURLE_OK, r, cl1)" "res_data r = users_json"
    using sample_request [OF users_json_short, of "''users''"] by (auto simp: sample_client_def)
  have "released no_ents" by (simp add: released_def no_ents_def)
  moreover have "list_all2 (roomy plain_conf) (arr_items a) [sample_caller 64 no_passwd]"
    using a(2,5) sample_wf [of 64 no_passwd] by (simp add: roomy_def sample_caller_def)
  ultimately show ?thesis
    using pwent_session [OF sample_configured(1,2) _ sample_configured(3) r(1) _ _ _ sample_wf] a r(2) by fastforce
qed

theorem ent_states_released_witness:
  "\<exists>cl en. ent_reachable ''users'' (\<lambda>c e (en, st). PASSWD_ENSURE c e en st) (cl, en) \<and> entries en \<noteq> None \<and> \<not> held en"
proof (rule users_entry)
  fix a v leaf
  assume a: "json_parse_string (Some users_json) = Some (VArray a)"
  obtain r cl1 where r: "stns_request (e_sv (sample_env users_json)) plain_conf (Some ''users'') (fresh_response (sample_env users_json)) (sample_client\<lparr>sys := sample_os\<rparr>)
      = Ret (CURLE_OK, r, cl1)" "res_data r = users_json"
    using sample_request [OF users_json_short, of "''users''"] by (auto simp: sample_client_def)
  have "nss_stns_setent ''users'' (sample_env users_json) (sample_client, no_ents) =
      Done (NSS_STATUS_SUCCESS, cl1, no_ents\<lparr>entry_idx := 0, entries := Some (VArray a)\<rparr>)"
    by (rule setpwent_loads [OF sample_configured(1,2) _ sample_configured(3) r(1)]) (simp_all add: no_ents_def r(2) a)
  then have "ent_reachable ''users'' (\<lambda>c e (en, st). PASSWD_ENSURE c e en st) (cl1, no_ents\<lparr>entry_idx := 0, entries := Some (VArray a)\<rparr>)"
    by (rule ent_reachable.setent [OF ent_reachable.start])
  with ent_states_released [OF disjI1 [OF this]] show ?thesis by fastforce
qed

theorem getpwent_without_setpwent_witness:
  "\<exists>s cl' en' st'. nss_stns_getpwent_r (sample_env users_json) (sample_client, no_ents, sample_caller 64 no_passwd) = Done (s, cl', en', st') \<and>
    s = NSS_STATUS_UNAVAIL \<and> st' = sample_caller 64 no_passwd"
proof -
  have "(case nss_stns_getpwent_r (sample_env users_json) (sample_client, no_ents, sample_caller 64 no_passwd) of
      Done (s, cl', en', st') \<Rightarrow> s = NSS_STATUS_UNAVAIL | _ \<Rightarrow> False)" by code_simp
  then obtain cl' en' st' where r: "nss_stns_getpwent_r (sample_env users_json) (sample_client, no_ents, sample_caller 64 no_passwd)
      = Done (NSS_STATUS_UNAVAIL, cl', en', st')" by (auto split: run.splits)
  have "json_value_get_array (entries no_ents) = None" "released no_ents"
    by (simp_all add: no_ents_def json_value_get_array_def released_def)
  from getpwent_without_setpwent [OF this r] r show ?thesis by blast
qed


theorem getpwnam_end_to_end_witness:
  "\<exists>cl' st'. nss_stns_getpwnam_r ''bob'' (sample_env users_json) (sample_client, no_ents, sample_caller 64 no_passwd) =
      Done (NSS_STATUS_SUCCESS, cl', no_ents, st') \<and> e_name (read_passwd st') = ''bob'' \<and> e_uid (read_passwd st') = 1007"
proof (rule users_entry)
  fix a v leaf
  assume a: "json_parse_string (Some users_json) = Some (VArray a)" "arr_items a = [v]" "storable v"
    "json_value_get_object (Some v) = Some leaf" "has_name ''bob'' leaf" "named v"
    "e_name (account_of plain_conf v) = ''bob''" "e_uid (account_of plain_conf v) = 1007" "passwd_need (account_of plain_conf v) \<le> 64"
  have f: "find (element_matches (has_name ''bob'')) (arr_items a) = Some v"
    using a by (simp add: element_matches_def)
  have nm: "is_valid_username (Some ''bob'') = 0" by code_simp
  show ?thesis
    using getpwnam_end_to_end [OF sample_configured(1,3) [of users_json] sample_configured(4-6) nm _ _ _ _ _ f a(4,3) sample_wf [of 64 no_passwd], where bs = "[users_json]" and en = no_ents]
      a users_json_short
    by (auto simp: sample_env_def sample_services_def CURLE_OK_def sample_caller_def)
qed

section \<open>Behaviours worth knowing\<close>

text \<open>The enumeration of groups unlocks its mutex twice when a buffer has no room for the members.\<close>

lemma group_enumeration_unlocks_twice:
  "(case nss_stns_getgrent_r (sample_env groups_json)
      (sample_client, no_ents\<lparr>entries := json_parse_string (Some groups_json)\<rparr>, sample_caller 20 no_group) of
      Done (s, cl, en, st) \<Rightarrow> s = NSS_STATUS_TRYAGAIN \<and> bad_unlocks en = 1
    | _ \<Rightarrow> False)"
  by code_simp

text \<open>An element without a name ends the enumeration of groups: the position stays in front of it.\<close>

lemma nameless_group_ends_enumeration:
  "(case nss_stns_getgrent_r (sample_env groups_json)
      (sample_client, no_ents\<lparr>entries := json_parse_string (Some (''[{},'' @ tl groups_json))\<rparr>, sample_caller 64 no_group) of
      Done (s, cl, en, st) \<Rightarrow> s = NSS_STATUS_NOTFOUND \<and> entry_idx en = 0 \<and> errnop st = 0
    | _ \<Rightarrow> False)"
  by code_simp

text \<open>Identifiers from 2 ^ 31 on are asked for as negative numbers.\<close>

lemma large_id_asked_negative: "id_url ''users?id='' 3000000000 0 = ''users?id=-1294967296''"
  by code_simp

text \<open>A configuration with two HTTP headers makes every lookup free a block twice.\<close>

lemma two_headers_undefined:
  "(case nss_stns_getpwnam_r ''bob''
      ((sample_env users_json)\<lparr>e_file := Some \<lparr>f_bytes = ''cache=false'' @ [LF] @ ''[http_headers]'' @ [LF] @ ''a='' @ toml_quote ''1'' @ [LF] @ ''b='' @ toml_quote ''2'' @ [LF], f_fails = None\<rparr>\<rparr>)
      (sample_client, no_ents, sample_caller 64 no_passwd) of
      Undef \<Rightarrow> True | _ \<Rightarrow> False)"
  by code_simp

end
