(* ===== verification/Stns_Key_Wrapper.thy ===== *)
theory Stns_Key_Wrapper
  imports Stns_Enum
begin

text \<open>
  The program of \<^verbatim>\<open>stns_key_wrapper.c\<close>, which \<^verbatim>\<open>sshd\<close> runs to get the public keys of a user: its options, the request, the keys of the
  response and the output of the chained wrapper.

  \<open>conf_at\<close> gives the files the program can open as a configuration. A run is its exit status and what it writes to the standard
  output. The keys collected so far are text of any length; the code counts it with an \<^verbatim>\<open>int\<close>, so 2 GiB of keys and more are outside of the model.
\<close>

section \<open>Options\<close>

text \<open>\<^verbatim>\<open>getopt (argc, argv, "c:")\<close>, called until it is done: the arguments of \<^verbatim>\<open>-c\<close> in their order (an unknown option or a missing
  argument is skipped), and the operands, which end up behind the options. \<open>letters\<close> are the rest of an argument with options.\<close>

fun getopt_letters :: "string \<Rightarrow> string list \<Rightarrow> string list \<times> string list" where
  "getopt_letters [] args = ([], args)"
| "getopt_letters (c # letters) args =
     (if c \<noteq> CHR ''c'' then getopt_letters letters args
      else if letters \<noteq> [] then ([letters], args)
      else case args of [] \<Rightarrow> ([], []) | a # args' \<Rightarrow> ([a], args'))"

lemma getopt_letters_length: "length (snd (getopt_letters l args)) \<le> length args"
  by (induction l args rule: getopt_letters.induct) (auto split: list.splits)

lemma getopt_letters_le: "getopt_letters l args = (opts, args') \<Longrightarrow> length args' \<le> length args"
  using getopt_letters_length [of l args] by simp

function getopt :: "string list \<Rightarrow> string list \<times> string list" where
  "getopt [] = ([], [])"
| "getopt (a # args) =
     (if a = ''--'' then ([], args)
      else if take 1 a = ''-'' \<and> length a > 1 then
        (case getopt_letters (drop 1 a) args of
           (opts, args') \<Rightarrow> (case getopt args' of (opts', operands) \<Rightarrow> (opts @ opts', operands)))
      else (case getopt args of (opts', operands) \<Rightarrow> (opts', a # operands)))"
  by pat_completeness auto
termination
  by (relation "measure length") (auto simp: less_Suc_eq_le dest!: sym [of "(_, _)"] getopt_letters_le)

section \<open>The keys of a response\<close>

text \<open>The two loops; \<open>keys\<close> is the block \<^verbatim>\<open>keys\<close> without its terminator, \<open>None\<close> the null pointer.\<close>

definition append_key :: "string option \<Rightarrow> string \<Rightarrow> string option" where
  "append_key keys key =
     Some ((case keys of Some k \<Rightarrow> k | None \<Rightarrow> []) @ take (strnlen key STNS_MAX_BUFFER_SIZE) key @ [LF])"

fun add_keys :: "json_value list \<Rightarrow> string option \<Rightarrow> string option" where
  "add_keys [] keys = keys"
| "add_keys (v # vs) keys =
     (case json_value_get_string (Some v) of None \<Rightarrow> add_keys vs keys | Some key \<Rightarrow> add_keys vs (append_key keys key))"

fun collect_keys :: "json_value list \<Rightarrow> string option \<Rightarrow> string option" where
  "collect_keys [] keys = keys"
| "collect_keys (v # vs) keys =
     (case json_value_get_object (Some v) of
        None \<Rightarrow> collect_keys vs keys
      | Some leaf \<Rightarrow>
          collect_keys vs (add_keys (case json_object_get_array (Some leaf) ''keys'' of Some a \<Rightarrow> arr_items a | None \<Rightarrow> []) keys))"

definition chain_keys :: "services \<Rightarrow> string \<Rightarrow> stns_conf \<Rightarrow> string \<Rightarrow> string option \<Rightarrow> string option" where
  "chain_keys sv junk c member keys =
     (case chain_ssh_wrapper c of
        None \<Rightarrow> keys
      | Some cmd \<Rightarrow>
          (case stns_exec_cmd sv cmd (Some member) \<lparr>res_data = junk, res_capacity = STNS_DEFAULT_BUFFER_SIZE, res_size = 0, res_status_code = 0\<rparr> of
             (status, cr) \<Rightarrow>
               if status = 0
               then Some ((case keys of Some k \<Rightarrow> k | None \<Rightarrow> []) @ take (strnlen (res_data cr) STNS_MAX_BUFFER_SIZE) (res_data cr))
               else keys))"

section \<open>The program\<close>

definition STNS_CONFIG_FILE :: string where
  "STNS_CONFIG_FILE = ''/etc/stns/client/stns.conf''"

definition key_wrapper_main ::
  "services \<Rightarrow> nat \<Rightarrow> (string \<Rightarrow> conf_file option) \<Rightarrow> string \<Rightarrow> string list \<Rightarrow> client \<Rightarrow> (int \<times> string \<times> client) run" where
  "key_wrapper_main sv fuel conf_at junk args cl =
     (case getopt args of
        (opts, operands) \<Rightarrow>
          if \<exists>path \<in> set opts. strnlen path MAXBUF + 1 \<ge> MAXBUF then Done (- 1, [], cl)
          else if operands = [] then Done (- 1, [], cl)
          else
            let member = hd operands;
                e = \<lparr>e_sv = sv, e_fuel = fuel, e_file = conf_at (if opts = [] then STNS_CONFIG_FILE else last opts), e_junk = junk,
                     e_busy = (\<lambda>_. False)\<rparr>
            in rbind (load_config e cl) (\<lambda>(conf, cl1).
              case conf of
                None \<Rightarrow> Done (- 1, [], cl1)
              | Some c \<Rightarrow>
                  if strnlen member MAX_USERNAME_LENGTH \<ge> MAX_USERNAME_LENGTH then Done (- 1, [], cl1)
                  else
                    rbind (run_of (stns_request sv c (Some (snprintf_str MAXBUF (''users?name='' @ cstr member))) (fresh_response e) cl1))
                      (\<lambda>(curl_result, r, cl2).
                        if curl_result \<noteq> CURLE_OK then unload_config c (- 1, [], cl2)
                        else case json_parse_string (Some (res_data r)) of
                               None \<Rightarrow> unload_config c (- 1, [], cl2)
                             | Some doc \<Rightarrow>
                                 let keys = chain_keys sv junk c member
                                       (collect_keys (case json_value_get_array (Some doc) of Some a \<Rightarrow> arr_items a | None \<Rightarrow> []) None)
                                 in unload_config c (0, cstr (case keys of Some k \<Rightarrow> k | None \<Rightarrow> []) @ [LF], cl2))))"

section \<open>What it prints\<close>

text \<open>All strings in the arrays \<^verbatim>\<open>keys\<close> of the objects of a response, in order\<close>

definition keys_of :: "json_value \<Rightarrow> string list" where
  "keys_of v =
     (case json_value_get_object (Some v) of
        None \<Rightarrow> []
      | Some leaf \<Rightarrow>
          (case json_object_get_array (Some leaf) ''keys'' of
             None \<Rightarrow> []
           | Some a \<Rightarrow> List.map_filter (\<lambda>k. map_option cstr (json_value_get_string (Some k))) (arr_items a)))"

definition key_lines :: "string list \<Rightarrow> string" where
  "key_lines ks = concat (map (\<lambda>k. k @ [LF]) ks)"

definition text_of_keys :: "string option \<Rightarrow> string" where
  "text_of_keys keys = (case keys of Some k \<Rightarrow> k | None \<Rightarrow> [])"

definition short_key :: "json_value \<Rightarrow> bool" where
  "short_key k = (case json_value_get_string (Some k) of None \<Rightarrow> True | Some s \<Rightarrow> length (cstr s) \<le> STNS_MAX_BUFFER_SIZE)"

definition short_keys :: "json_value \<Rightarrow> bool" where
  "short_keys v =
     (case json_value_get_object (Some v) of
        None \<Rightarrow> True
      | Some leaf \<Rightarrow> list_all short_key (case json_object_get_array (Some leaf) ''keys'' of Some a \<Rightarrow> arr_items a | None \<Rightarrow> []))"

lemma take_strnlen_cstr: "length (cstr s) \<le> m \<Longrightarrow> take (strnlen s m) s = cstr s"
  unfolding strnlen_def cstr_def by (simp add: min_absorb1 flip: takeWhile_eq_take)

lemma add_keys_text:
  "list_all short_key vs \<Longrightarrow>
   text_of_keys (add_keys vs keys) = text_of_keys keys @ key_lines (List.map_filter (\<lambda>k. map_option cstr (json_value_get_string (Some k))) vs)"
proof (induction vs arbitrary: keys)
  case (Cons v vs)
  then show ?case
    by (cases "json_value_get_string (Some v)")
      (auto simp: map_filter_simps key_lines_def append_key_def text_of_keys_def short_key_def take_strnlen_cstr)
qed (simp add: key_lines_def map_filter_simps)

lemma collect_keys_text:
  "list_all short_keys vs \<Longrightarrow> text_of_keys (collect_keys vs keys) = text_of_keys keys @ key_lines (concat (map keys_of vs))"
proof (induction vs arbitrary: keys)
  case (Cons v vs)
  show ?case
  proof (cases "json_value_get_object (Some v)")
    case (Some leaf)
    with Cons show ?thesis
      by (auto simp: short_keys_def keys_of_def add_keys_text key_lines_def map_filter_simps split: option.splits)
  qed (use Cons in \<open>simp add: keys_of_def\<close>)
qed (simp add: key_lines_def)

lemma no_nul_key_lines: "list_all no_nul ks \<Longrightarrow> no_nul (key_lines ks)"
  by (induction ks) (auto simp: key_lines_def no_nul_def)

lemma keys_of_no_nul: "list_all no_nul (keys_of v)"
  by (auto simp: keys_of_def list_all_iff map_filter_def split: option.splits)

text \<open>C17. The program prints the keys: called with a user name of fewer than 32 characters, or with \<^verbatim>\<open>-c\<close>, a path and such a name, it
  makes one transfer, and when the server answers with a JSON array it exits with status 0 and has printed every string in the
  arrays \<^verbatim>\<open>keys\<close> of the objects, each on a line of its own and in the order of the response, and an empty line. (Cache, query
  wrapper and chained wrapper are off, and no lock file holds requests back.)\<close>

theorem key_wrapper_prints_keys:
  assumes args: "args = [member] \<and> path = STNS_CONFIG_FILE \<or> args = [''-c'', path, member] \<and> length (cstr path) < 1023"
      "take 1 member \<noteq> ''-''" "length (cstr member) < 32"
    and conf: "stns_load_config fuel (conf_at path) (sys cl) = Loaded c w" "distinct (stns_unload_config c)"
    and plain: "\<not> cache c" "query_wrapper c = None" "chain_ssh_wrapper c = None" "fst (stns_request_available STNS_LOCK_FILE c w)"
    and net: "curl_perform sv (transfers cl) (curl_options c (''users?name='' @ cstr member)) =
      \<lparr>co_headers = [], co_segments = bs, co_code = 200, co_result = CURLE_OK\<rparr>"
      "bs \<noteq> []" "\<forall>b \<in> set bs. length b \<le> STNS_MAX_BUFFER_SIZE"
    and body: "json_parse_string (Some (concat bs)) = Some (VArray a)" "list_all short_keys (arr_items a)"
  shows "\<exists>cl'. key_wrapper_main sv fuel conf_at junk args cl = Done (0, key_lines (concat (map keys_of (arr_items a))) @ [LF], cl')"
proof -
  have opt: "getopt args = (if args = [member] then [] else [path], [member])"
    using args(1,2) by auto
  have url: "snprintf_str MAXBUF (''users?name='' @ cstr member) = ''users?name='' @ cstr member"
    using args(3) by (simp add: snprintf_str_def MAXBUF_def)
  let ?e = "\<lparr>e_sv = sv, e_fuel = fuel, e_file = conf_at path, e_junk = junk, e_busy = (\<lambda>_. False)\<rparr>"
  obtain r cl1 where "stns_request (e_sv ?e) c (Some (''users?name='' @ cstr member)) (fresh_response ?e) (cl\<lparr>sys := w\<rparr>) = Ret (CURLE_OK, r, cl1)"
    and r: "res_data r = concat bs"
    using plain_request [of c "cl\<lparr>sys := w\<rparr>" ?e "''users?name='' @ cstr member" bs 200] plain net by auto
  then have rq: "stns_request sv c (Some (snprintf_str MAXBUF (''users?name='' @ cstr member))) (fresh_response ?e) (cl\<lparr>sys := w\<rparr>) = Ret (CURLE_OK, r, cl1)"
    unfolding url by simp
  have ld: "load_config ?e cl = Done (Some c, cl\<lparr>sys := w\<rparr>)" using conf(1) by (simp add: load_config_def)
  have "text_of_keys (collect_keys (arr_items a) None) = key_lines (concat (map keys_of (arr_items a)))"
    using collect_keys_text [OF body(2), of None] by (simp add: text_of_keys_def)
  moreover have "no_nul (key_lines (concat (map keys_of (arr_items a))))"
    using keys_of_no_nul by (intro no_nul_key_lines) (auto simp: list_all_iff)
  ultimately have out: "cstr (case collect_keys (arr_items a) None of Some k \<Rightarrow> k | None \<Rightarrow> []) = key_lines (concat (map keys_of (arr_items a)))"
    by (simp add: text_of_keys_def)
  have path: "(if (if args = [member] then [] else [path]) = [] then STNS_CONFIG_FILE else last (if args = [member] then [] else [path])) = path"
    "\<not> (\<exists>p \<in> set (if args = [member] then [] else [path]). strnlen p MAXBUF + 1 \<ge> MAXBUF)"
    using args(1) by (auto simp: strnlen_def MAXBUF_def)
  have "strnlen member MAX_USERNAME_LENGTH < MAX_USERNAME_LENGTH"
    using args(3) by (simp add: strnlen_def MAX_USERNAME_LENGTH_def)
  then have "key_wrapper_main sv fuel conf_at junk args cl = Done (0, key_lines (concat (map keys_of (arr_items a))) @ [LF], cl1)"
    unfolding key_wrapper_main_def opt prod.case Let_def path
    using path(2) ld rq r body(1) plain(3) conf(2) out
    by (simp add: run_of_def chain_keys_def json_value_get_array_def unload_config_def)
  then show ?thesis by blast
qed

definition keys_json :: string where
  "keys_json = ''[{''@[QUOT]@''keys''@[QUOT]@'':[''@[QUOT]@''k1''@[QUOT]@'',7,''@[QUOT]@''k2''@[QUOT]@'']}]''"

theorem key_wrapper_prints_keys_witness:
  "\<exists>cl'. key_wrapper_main (e_sv (sample_env keys_json)) 200 (\<lambda>p. e_file (sample_env keys_json)) [] [''-c'', ''/etc/x'', ''bob''] sample_client =
     Done (0, ''k1'' @ [LF] @ ''k2'' @ [LF, LF], cl')"
proof -
  have "(case json_parse_string (Some keys_json) of
      Some (VArray a) \<Rightarrow> list_all short_keys (arr_items a) \<and> key_lines (concat (map keys_of (arr_items a))) = ''k1'' @ [LF] @ ''k2'' @ [LF]
    | _ \<Rightarrow> False)" by code_simp
  then obtain a where a: "json_parse_string (Some keys_json) = Some (VArray a)" "list_all short_keys (arr_items a)"
    "key_lines (concat (map keys_of (arr_items a))) = ''k1'' @ [LF] @ ''k2'' @ [LF]"
    by (auto split: option.splits json_value.splits)
  have ld: "stns_load_config 200 (e_file (sample_env keys_json)) (sys sample_client) = Loaded plain_conf sample_os"
    using sample_configured(3) [of keys_json] by (simp add: sample_env_def)
  have un: "distinct (stns_unload_config plain_conf)" using sample_configured(1) by (simp add: configured_def)
  have ch: "chain_ssh_wrapper plain_conf = None" by code_simp
  have "length keys_json \<le> STNS_MAX_BUFFER_SIZE" by (simp add: keys_json_def STNS_MAX_BUFFER_SIZE_def)
  then show ?thesis
    using key_wrapper_prints_keys [of "[''-c'', ''/etc/x'', ''bob'']" "''bob''" "''/etc/x''" 200 "\<lambda>p. e_file (sample_env keys_json)" sample_client
        plain_conf sample_os "e_sv (sample_env keys_json)" "[keys_json]" a "[]", OF _ _ _ ld un sample_configured(4,5) ch sample_configured(6) _ _ _ _ a(2)] a
    by (simp add: sample_env_def sample_services_def sample_client_def CURLE_OK_def)
qed

text \<open>The longest valid user name is refused: 32 characters are a valid name for the lookups, not for this program.\<close>

lemma longest_name_refused:
  "is_valid_username (Some (replicate 32 (CHR ''a''))) = 0 \<and>
   (case key_wrapper_main (e_sv (sample_env keys_json)) 200 (\<lambda>p. e_file (sample_env keys_json)) [] [replicate 32 (CHR ''a'')] sample_client of
      Done (status, out, cl) \<Rightarrow> status = - 1 \<and> transfers cl = 0 | _ \<Rightarrow> False)"
  by code_simp

end
