(* ===== verification/Spec2Isabelle.thy ===== *)
theory Spec2Isabelle
  imports Parson_Api Parson_File Parson_Lifecycle Toml_Heap Stns_Key_Wrapper
begin

text \<open>
  The client library of STNS: a module of the name service switch that answers questions about users, groups
  and passwords from an HTTP server, and the program \<^verbatim>\<open>stns-key-wrapper\<close> that gives \<^verbatim>\<open>sshd\<close> the public keys of a user.
  Both bring along two parsers, \<^verbatim>\<open>toml.c\<close> for the configuration and \<^verbatim>\<open>parson.c\<close> for the answers of the server.

  \<^bold>\<open>How the program works, and where it is modelled.\<close>
  The C library calls \<^verbatim>\<open>_nss_stns_getpwnam_r\<close> and its relatives (\<^verbatim>\<open>stns_passwd.c\<close>, \<^verbatim>\<open>stns_group.c\<close>, \<^verbatim>\<open>stns_shadow.c\<close>, all
  instances of the macros of \<^verbatim>\<open>stns.h\<close>; theory \<^verbatim>\<open>Stns_Entry\<close>). Every call
  \<^enum> reads \<^verbatim>\<open>/etc/stns/client/stns.conf\<close> (\<^verbatim>\<open>stns_load_config\<close>, theory \<^verbatim>\<open>Stns_Config\<close>) with the TOML parser
    (theories \<^verbatim>\<open>Toml_Text\<close>, \<^verbatim>\<open>Toml_Parse\<close>),
  \<^enum> refuses names that cannot exist and identifiers outside the bounds the server has announced
    (\<^verbatim>\<open>is_valid_username\<close>, \<^verbatim>\<open>USER_ID_QUERY_AVAILABLE\<close>; theory \<^verbatim>\<open>Stns_Base\<close>),
  \<^enum> asks the response cache, the lock file that suspends requests after a failure, and then the server or a wrapper command
    (\<^verbatim>\<open>stns_request\<close>; theories \<^verbatim>\<open>Stns_Cache\<close>, \<^verbatim>\<open>Stns_Request\<close>),
  \<^enum> parses the body as JSON (theories \<^verbatim>\<open>Parson_Object\<close>, \<^verbatim>\<open>Parson_Text\<close>, \<^verbatim>\<open>Parson_Value\<close>, \<^verbatim>\<open>Parson_Parse\<close>; \<^verbatim>\<open>C_Double\<close> for \<^verbatim>\<open>strtod\<close>),
    finds the entry and writes it into the buffer of the caller (\<^verbatim>\<open>PASSWD_ENSURE\<close>, \<^verbatim>\<open>GROUP_ENSURE\<close>, \<^verbatim>\<open>SHADOW_ENSURE\<close>; theory \<^verbatim>\<open>Stns_Nss\<close>).

  An enumeration (\<^verbatim>\<open>setXXent\<close>, \<^verbatim>\<open>getXXent_r\<close>, \<^verbatim>\<open>endXXent\<close>) keeps the parsed response, a position and a mutex between the calls: the record
  \<open>ents\<close>. The program for the keys is \<open>key_wrapper_main\<close> of \<^verbatim>\<open>Stns_Key_Wrapper\<close>.

  \<^bold>\<open>State and errors.\<close> A C struct is a record or a datatype with the names of its fields. The operating system (files with owner, mode
  and age, the time, the reasons to refuse a call) is the record \<open>os\<close>; \<open>client\<close> adds the number of transfers made and the cached bounds of
  the identifiers; \<open>'r caller\<close> is the buffer the caller lends, byte by byte, with the structure to fill. Status codes are returned as in C;
  a null pointer that is dereferenced (\<open>Segv\<close>, \<open>Crash\<close>), undefined behaviour (\<open>Undef\<close>, \<open>Undefined\<close>) and a call that
  does not return (\<open>Stuck\<close>, \<open>Hangs\<close>) are values of their own, so that a theorem that a call is \<open>Done\<close> excludes them. An \<^verbatim>\<open>int\<close> is a 32-bit word where it
  can overflow. libcurl, the shell and the escaping of URLs are functions in the record \<open>services\<close>: nothing is assumed of them beyond what a
  theorem says.

  \<^bold>\<open>What is proved.\<close>
  \<^item> Lookups (\<^verbatim>\<open>Stns_Writers\<close>, \<^verbatim>\<open>Stns_Lookup\<close>): the entry that is found arrives in the structure of the caller, its strings and
    the array of its members lie in the buffer, are terminated and do not overlap; when there is not enough room the call says so;
    nothing outside of the buffer is ever written. The three writers are instances of one contract, the locale \<open>entry_writer\<close>.
  \<^item> The whole path of \<^verbatim>\<open>getpwnam_r\<close> and the enumeration as an iterator over the response (\<^verbatim>\<open>Stns_Enum\<close>): the mutex is free between two
    calls, the position moves only when an entry is delivered, a session delivers every entry once and in order. What all databases have in
    common is the locale \<open>steady_database\<close>; one without side effects on the mutex (users and shadow entries, not groups) is a \<open>quiet_database\<close>.
  \<^item> Requests (\<^verbatim>\<open>Stns_Request\<close>): the number of transfers and which answers end a request, what is stored in the response, that the cache answers the
    next request and that a request through the local daemon carries no credentials. Files (\<^verbatim>\<open>Stns_Cache\<close>): export is safe against
    planted links and directories, import reads back what was exported, expired files of the user and no others are deleted, the lock
    file suspends requests for its time.
  \<^item> Configuration (\<^verbatim>\<open>Stns_Config\<close>): a file of settings gives exactly these settings, defaults for the others; a setting that is given twice is refused.
    TOML (\<^verbatim>\<open>Toml_Text\<close>, \<^verbatim>\<open>Toml_Fuel\<close>, \<^verbatim>\<open>Toml_Print\<close>): numbers and UTF-8 read back, printed scalars parse to themselves, the parser
    returns on every text without arrays and inline tables.
  \<^item> JSON: the hash table of an object is a finite map with insertion order (\<^verbatim>\<open>Parson_Dict\<close>, locales \<open>json_dict\<close> and \<open>json_dict_mut\<close>), copies mean the same
    (\<^verbatim>\<open>Parson_Json\<close>), the parser ends and gives well-formed values within the limit of nesting (\<^verbatim>\<open>Parson_Parse\<close>), UTF-8 and escapes are those of the standard
    (\<^verbatim>\<open>Parson_Utf8\<close>). Dotted paths refine paths in plain documents (\<^verbatim>\<open>Parson_Api\<close>).
  \<^item> The serializer (\<^verbatim>\<open>Parson_Serialize\<close>) refines the printer \<open>print_json\<close> of plain documents: its two passes agree and nothing is written outside
    of the buffer. What it writes parses to the same document (\<^verbatim>\<open>Parson_Roundtrip\<close>), for every string and every finite double: seventeen digits
    determine a double (\<^verbatim>\<open>C_Printf\<close>). A document that was written to a file without an error is read back (\<^verbatim>\<open>Parson_File\<close>).
  \<^item> Memory: \<^verbatim>\<open>C_Heap\<close> is a heap of blocks in which an allocation may fail and the use or release of a block that is not there is undefined. On it,
    \<^verbatim>\<open>json_value_free\<close> (\<^verbatim>\<open>Parson_Heap\<close>) and \<^verbatim>\<open>toml_free\<close> (\<^verbatim>\<open>Toml_Heap\<close>) release exactly the blocks of their argument, and any sequence of calls on
    an array, from its making to its release, is free of undefined behaviour and leaks and means what the model without memory
    says (\<^verbatim>\<open>Parson_Owner\<close>, \<^verbatim>\<open>Parson_Lifecycle\<close>).
  \<^item> Where the code does not do what it means to, a lemma evaluates the model on a small input that shows it, e.g.
    \<open>two_headers_double_free\<close>, \<open>append_self_never_freed\<close>, \<open>toml_parse_open_array_hangs\<close>, \<open>nameless_object_crashes\<close>.

  \<^bold>\<open>Bounds and fuel.\<close> The functions of the JSON parser take fuel because they call each other on positions in one text: \<open>parse_fuel\<close> is three times the length of
  the input plus three and is shown to suffice for every input. The TOML parser loops forever on some inputs (a file that ends inside an array), so its fuel stands for
  time: \<open>TOut\<close> for \<open>toml_fuel\<close>, twice the length plus three, is shown to be \<open>TOut\<close> for any fuel, and where no value is an array or an inline table
  that much fuel is shown to be enough (\<open>toml_parse_returns\<close>). Locks are tried a fixed number of times and
  requests are retried as often as the configuration says; both bounds are proved. The buffers of \<^verbatim>\<open>snprintf\<close> and \<^verbatim>\<open>strnlen\<close> cut as they do in C, so
  the theorems about lookups ask for attributes shorter than these buffers (\<open>short\<close>). A release takes
  fuel for the depth and the number of elements of the value (\<open>free_fuel\<close>, \<open>t_fuel\<close>), which is shown to be enough.

  \<^bold>\<open>Not modelled.\<close> The parsers, the hash table and the requests work on values without memory: they are not shared, no allocation fails, and what they
  release on the way is not tracked (for JSON arrays and for releasing, see above; \<open>json_object_set_value\<close> takes the failures of its allocations as an
  argument; \<open>stns_unload_config\<close> has its own list of blocks). Lengths of whole files, outputs of commands and collected keys, and the position of an enumeration
  are natural numbers where the code has an \<^verbatim>\<open>int\<close>, so 2 GiB and more of them are outside of the model, and so is a table of 2 ^ 32 cells
  (\<open>json_object_init\<close>). Writing to a cache file that could be opened succeeds, and a header line ends with a null byte. Log messages and the text of
  TOML error messages; the resolution of the host name, TLS and the rest of what libcurl does with its options; the umask. A double is a rational number, so
  the sign of a zero is not kept. The test programs, the packaging and the scripts are no part of the client.
\<close>

end
